(* ===== verification/KPrelude.thy ===== *)
theory KPrelude
  imports Main "HOL-Library.Word"
begin

unbundle bit_operations_syntax

text \<open>
  Shared vocabulary of the development: the C integer types of
  \<^verbatim>\<open>kernel/include/types.h\<close>, the result type of kernel code that may panic, byte
  addressed memory with its little-endian loads and stores, and the generic facts on
  words, searches and memory the components use.
\<close>

section \<open>Integer types\<close>

type_synonym u8 = "8 word"
type_synonym u16 = "16 word"
type_synonym u32 = "32 word"
type_synonym u64 = "64 word"
type_synonym i16 = "16 word"
type_synonym i32 = "32 word"

text \<open>
  A C \<^verbatim>\<open>int\<close> is a 32-bit word read with \<^term>\<open>sint\<close> wherever the source compares
  it as a signed value.
\<close>

lemma unat_lt: "unat w < 2 ^ LENGTH('a)" for w :: "'a::len word"
  by (rule unsigned_less)

lemma unat_u32_lt: "unat w < 4294967296" for w :: u32
  using unat_lt [of w] by simp

lemma unat_u64_lt: "unat w < 18446744073709551616" for w :: u64
  using unat_lt [of w] by simp

lemma unat_ucast_32_64 [simp]: "unat (ucast w :: u64) = unat w" for w :: u32
  by (simp add: unsigned_ucast_eq take_bit_nat_eq_self_iff order.strict_trans [OF unat_u32_lt])

lemma unat_add_of_nat:
  "unat a + k < 2 ^ LENGTH('a) \<Longrightarrow> unat (a + of_nat k) = unat a + k" for a :: "'a::len word"
  by (simp add: unat_word_ariths unsigned_of_nat take_bit_nat_eq_self)

lemma unat_of_nat_64: "k < 18446744073709551616 \<Longrightarrow> unat (of_nat k :: u64) = k"
  by (simp add: unsigned_of_nat take_bit_nat_eq_self_iff)

lemma word_eq_add_unat: "unat (a - d) = k \<Longrightarrow> a = d + of_nat k" for a d :: "'a::len word"
  by (auto simp: algebra_simps)

lemma unat_minus_Suc:
  "a \<noteq> d \<Longrightarrow> unat (a - d) = Suc (unat (a - (d + 1)))" for a d :: u64
proof -
  assume "a \<noteq> d"
  then have "0 < unat (a - d)" by (simp add: unat_gt_0)
  moreover have "unat (a - d - 1) = unat (a - d) - 1"
    using \<open>a \<noteq> d\<close> by (simp add: unat_minus_one)
  ultimately show ?thesis by (simp add: diff_diff_eq)
qed

section \<open>Results\<close>

text \<open>
  \<^verbatim>\<open>panic()\<close> prints its message and never returns: a kernel operation either
  returns a value or stops with the panic message.  A dereference of the null pointer
  in the kernel faults, and \<^verbatim>\<open>kerneltrap()\<close> turns the fault into the panic
  ``kerneltrap''.  An operation that cannot go on until another process or CPU acts (it
  spins, or it sleeps on a channel) has the result \<open>Waits\<close>, with a note of what it waits
  for; where waiting is part of what a component does, its theory models the wait as steps.
\<close>

datatype 'a res = Ok 'a | Panic string | Waits string

definition bnd :: "'a res \<Rightarrow> ('a \<Rightarrow> 'b res) \<Rightarrow> 'b res" where
  "bnd m f = (case m of Ok x \<Rightarrow> f x | Panic e \<Rightarrow> Panic e | Waits c \<Rightarrow> Waits c)"

text \<open>The definitions of the states with zeroed static data, which the witnesses evaluate.\<close>

named_theorems zero_simps

named_theorems res_simps

lemma bnd_Ok [simp, res_simps]: "bnd (Ok x) f = f x"
  by (simp add: bnd_def)

lemma bnd_Panic [simp, res_simps]: "bnd (Panic e) f = Panic e"
  by (simp add: bnd_def)

lemma bnd_Waits [simp, res_simps]: "bnd (Waits c) f = Waits c"
  by (simp add: bnd_def)

lemma bnd_eq_Ok [res_simps]: "bnd m f = Ok y \<longleftrightarrow> (\<exists>x. m = Ok x \<and> f x = Ok y)"
  by (cases m) auto

lemma bnd_eq_OkE:
  assumes "bnd m f = Ok y"
  obtains x where "m = Ok x" and "f x = Ok y"
  using assms by (auto simp: bnd_eq_Ok)

lemma bnd_cong [fundef_cong]:
  "m = m' \<Longrightarrow> (\<And>x. m' = Ok x \<Longrightarrow> f x = f' x) \<Longrightarrow> bnd m f = bnd m' f'"
  by (cases m') auto

lemma bnd_assoc: "bnd (bnd m f) g = bnd m (\<lambda>x. bnd (f x) g)"
  by (cases m) auto

fun fold_res :: "('b \<Rightarrow> 's \<Rightarrow> 's res) \<Rightarrow> 'b list \<Rightarrow> 's \<Rightarrow> 's res" where
  "fold_res f [] s = Ok s"
| "fold_res f (x # xs) s = bnd (f x s) (fold_res f xs)"

lemma fold_res_append:
  "fold_res f (xs @ ys) s = bnd (fold_res f xs s) (fold_res f ys)"
proof (induction xs arbitrary: s)
  case (Cons x xs)
  then have "fold_res f (xs @ ys) = (\<lambda>t. bnd (fold_res f xs t) (fold_res f ys))" by blast
  then show ?case by (simp add: bnd_assoc)
qed simp

lemma fold_res_inv:
  assumes "fold_res f xs s = Ok s'" and "P s"
    and "\<And>x t t'. x \<in> set xs \<Longrightarrow> P t \<Longrightarrow> f x t = Ok t' \<Longrightarrow> P t'"
  shows "P s'"
  using assms by (induction xs arbitrary: s) (auto simp: bnd_eq_Ok)

section \<open>Searching a table\<close>

text \<open>
  The kernel's tables (processes, files, inodes, buffers, descriptors) are searched from
  the first slot to the last for one that satisfies a test.
\<close>

definition first_slot :: "(nat \<Rightarrow> bool) \<Rightarrow> nat \<Rightarrow> nat option" where
  "first_slot p n = find p [0..<n]"

lemma first_slot_Some:
  "first_slot p n = Some i \<longleftrightarrow> i < n \<and> p i \<and> (\<forall>j<i. \<not> p j)"
proof
  assume "first_slot p n = Some i"
  then obtain k where "k < n" "p k" "i = k" "\<forall>j<k. \<not> p j"
    by (auto simp: first_slot_def find_Some_iff)
  then show "i < n \<and> p i \<and> (\<forall>j<i. \<not> p j)" by simp
next
  assume "i < n \<and> p i \<and> (\<forall>j<i. \<not> p j)"
  then show "first_slot p n = Some i"
    by (auto simp: first_slot_def find_Some_iff intro!: exI [of _ i])
qed

lemma first_slot_None: "first_slot p n = None \<longleftrightarrow> (\<forall>i<n. \<not> p i)"
  by (auto simp: first_slot_def find_None_iff)

section \<open>Byte-addressed memory\<close>

type_synonym mem = "u64 \<Rightarrow> u8"

text \<open>
  A word is assembled from its bytes in little-endian order: \<open>le_cons b w\<close> puts the byte
  \<open>b\<close> below the bytes of \<open>w\<close>.
\<close>

definition le_cons :: "u8 \<Rightarrow> 'a::len word \<Rightarrow> 'a word" where
  "le_cons b w = ucast b OR push_bit 8 w"

definition byte_at :: "nat \<Rightarrow> 'a::len word \<Rightarrow> u8" where
  "byte_at k w = ucast (drop_bit (8 * k) w)"

definition bytes2 :: "u8 \<Rightarrow> u8 \<Rightarrow> u16" where
  "bytes2 a b = le_cons a (le_cons b 0)"

definition bytes4 :: "u8 \<Rightarrow> u8 \<Rightarrow> u8 \<Rightarrow> u8 \<Rightarrow> u32" where
  "bytes4 a b c d = le_cons a (le_cons b (le_cons c (le_cons d 0)))"

definition bytes8 :: "u8 \<Rightarrow> u8 \<Rightarrow> u8 \<Rightarrow> u8 \<Rightarrow> u8 \<Rightarrow> u8 \<Rightarrow> u8 \<Rightarrow> u8 \<Rightarrow> u64" where
  "bytes8 a b c d e f g h = le_cons a (le_cons b (le_cons c (le_cons d
     (le_cons e (le_cons f (le_cons g (le_cons h 0)))))))"

lemma le_cons_byte_at:
  fixes w :: "'a::len word"
  shows "le_cons (byte_at k w) (drop_bit (8 * Suc k) w) = drop_bit (8 * k) w"
proof (rule bit_word_eqI)
  fix n assume "n < LENGTH('a)"
  show "bit (le_cons (byte_at k w) (drop_bit (8 * Suc k) w)) n \<longleftrightarrow> bit (drop_bit (8 * k) w) n"
  proof (cases "n < 8")
    case False
    then have "8 + 8 * k + (n - 8) = 8 * k + n" by simp
    with False \<open>n < LENGTH('a)\<close> show ?thesis
      by (auto simp: le_cons_def byte_at_def bit_simps)
  qed (use \<open>n < LENGTH('a)\<close> in \<open>auto simp: le_cons_def byte_at_def bit_simps\<close>)
qed

lemma bytes2_of_bytes [simp]: "bytes2 (byte_at 0 w) (byte_at (Suc 0) w) = w"
  using le_cons_byte_at [of 0 w] le_cons_byte_at [of 1 w]
  by (simp add: bytes2_def drop_bit_word_beyond)

lemma bytes4_of_bytes [simp]:
  "bytes4 (byte_at 0 w) (byte_at (Suc 0) w) (byte_at 2 w) (byte_at 3 w) = w"
  using le_cons_byte_at [of 0 w] le_cons_byte_at [of 1 w] le_cons_byte_at [of 2 w]
    le_cons_byte_at [of 3 w]
  by (simp add: bytes4_def drop_bit_word_beyond)

lemma bytes8_of_bytes [simp]:
  "bytes8 (byte_at 0 w) (byte_at (Suc 0) w) (byte_at 2 w) (byte_at 3 w)
     (byte_at 4 w) (byte_at 5 w) (byte_at 6 w) (byte_at 7 w) = w"
  using le_cons_byte_at [of 0 w] le_cons_byte_at [of 1 w] le_cons_byte_at [of 2 w]
    le_cons_byte_at [of 3 w] le_cons_byte_at [of 4 w] le_cons_byte_at [of 5 w]
    le_cons_byte_at [of 6 w] le_cons_byte_at [of 7 w]
  by (simp add: bytes8_def drop_bit_word_beyond)

definition load64 :: "mem \<Rightarrow> u64 \<Rightarrow> u64" where
  "load64 m a = bytes8 (m a) (m (a + 1)) (m (a + 2)) (m (a + 3))
     (m (a + 4)) (m (a + 5)) (m (a + 6)) (m (a + 7))"

definition store64 :: "mem \<Rightarrow> u64 \<Rightarrow> u64 \<Rightarrow> mem" where
  "store64 m a v = m(a := byte_at 0 v, a + 1 := byte_at 1 v, a + 2 := byte_at 2 v,
     a + 3 := byte_at 3 v, a + 4 := byte_at 4 v, a + 5 := byte_at 5 v,
     a + 6 := byte_at 6 v, a + 7 := byte_at 7 v)"

lemma load64_store64_same [simp]: "load64 (store64 m a v) a = v"
  by (simp add: load64_def store64_def)

text \<open>The eight bytes a 64-bit access at \<open>a\<close> touches.\<close>

definition cell64 :: "u64 \<Rightarrow> u64 set" where
  "cell64 a = (\<lambda>k. a + of_nat k) ` {..<8}"

lemma cell64_expand:
  "cell64 a = {a, a + 1, a + 2, a + 3, a + 4, a + 5, a + 6, a + 7}"
  by (auto simp: cell64_def lessThan_nat_numeral lessThan_Suc)

lemma store64_outside: "b \<notin> cell64 a \<Longrightarrow> store64 m a v b = m b"
  by (auto simp: cell64_expand store64_def)

lemma load64_cong: "(\<And>b. b \<in> cell64 a \<Longrightarrow> m b = m' b) \<Longrightarrow> load64 m a = load64 m' a"
  by (simp add: load64_def cell64_expand)

lemma load64_store64_disjoint:
  "cell64 a \<inter> cell64 b = {} \<Longrightarrow> load64 (store64 m b v) a = load64 m a"
  by (rule load64_cong) (auto intro: store64_outside)

end
