(* ===== verification/Kstring.thy ===== *)
theory Kstring
  imports KPrelude
begin

text \<open>
  The memory and string routines of \<^verbatim>\<open>kernel/string.c\<close>.  Writing routines act on
  an addressed array of bytes (physical memory, with \<^typ>\<open>u64\<close> addresses, or a local
  buffer, with \<^typ>\<open>nat\<close> offsets); a pointer that is only read is the sequence of bytes it
  points to.  The results are stated as closed forms: what every byte holds afterwards.
\<close>

type_synonym cptr = "nat \<Rightarrow> u8"

section \<open>Definitions\<close>

text \<open>\<^verbatim>\<open>for (i = 0; i < n; i++) cdst[i] = c\<close>\<close>

definition memset :: "('a::semiring_1 \<Rightarrow> u8) \<Rightarrow> 'a \<Rightarrow> i32 \<Rightarrow> u32 \<Rightarrow> 'a \<Rightarrow> u8" where
  "memset m dst c n = fold (\<lambda>i m. m(dst + of_nat i := ucast c)) [0..<unat n] m"

fun memcmp_loop :: "cptr \<Rightarrow> cptr \<Rightarrow> nat \<Rightarrow> int" where
  "memcmp_loop s1 s2 0 = 0"
| "memcmp_loop s1 s2 (Suc n) =
     (if s1 0 \<noteq> s2 0 then uint (s1 0) - uint (s2 0)
      else memcmp_loop (\<lambda>i. s1 (Suc i)) (\<lambda>i. s2 (Suc i)) n)"

definition memcmp :: "cptr \<Rightarrow> cptr \<Rightarrow> u32 \<Rightarrow> int" where
  "memcmp v1 v2 n = memcmp_loop v1 v2 (unat n)"

text \<open>The two loops of \<^verbatim>\<open>memmove\<close>: towards higher and towards lower addresses.\<close>

fun move_up :: "mem \<Rightarrow> u64 \<Rightarrow> u64 \<Rightarrow> nat \<Rightarrow> mem" where
  "move_up m d s 0 = m"
| "move_up m d s (Suc n) = move_up (m(d := m s)) (d + 1) (s + 1) n"

fun move_down :: "mem \<Rightarrow> u64 \<Rightarrow> u64 \<Rightarrow> nat \<Rightarrow> mem" where
  "move_down m d s 0 = m"
| "move_down m d s (Suc n) = move_down (m(d - 1 := m (s - 1))) (d - 1) (s - 1) n"

definition memmove :: "mem \<Rightarrow> u64 \<Rightarrow> u64 \<Rightarrow> u32 \<Rightarrow> mem" where
  "memmove m dst src n =
     (if n = 0 then m
      else if src < dst \<and> src + ucast n > dst
      then move_down m (dst + ucast n) (src + ucast n) (unat n)
      else move_up m dst src (unat n))"

text \<open>
  The forward loop of \<^verbatim>\<open>memmove\<close> when source and destination are different objects,
  which cannot overlap.
\<close>

fun move_obj :: "('a::semiring_1 \<Rightarrow> u8) \<Rightarrow> 'a \<Rightarrow> ('b::semiring_1 \<Rightarrow> u8) \<Rightarrow> 'b \<Rightarrow> nat \<Rightarrow> 'a \<Rightarrow> u8" where
  "move_obj m d src s 0 = m"
| "move_obj m d src s (Suc n) = move_obj (m(d := src s)) (d + 1) src (s + 1) n"

definition memcpy :: "mem \<Rightarrow> u64 \<Rightarrow> u64 \<Rightarrow> u32 \<Rightarrow> mem" where
  "memcpy m dst src n = memmove m dst src n"

fun strncmp_loop :: "cptr \<Rightarrow> cptr \<Rightarrow> nat \<Rightarrow> int" where
  "strncmp_loop p q 0 = 0"
| "strncmp_loop p q (Suc n) =
     (if p 0 \<noteq> 0 \<and> p 0 = q 0 then strncmp_loop (\<lambda>i. p (Suc i)) (\<lambda>i. q (Suc i)) n
      else uint (p 0) - uint (q 0))"

definition strncmp :: "cptr \<Rightarrow> cptr \<Rightarrow> u32 \<Rightarrow> int" where
  "strncmp p q n = strncmp_loop p q (unat n)"

fun zero_fill :: "('a::semiring_1 \<Rightarrow> u8) \<Rightarrow> 'a \<Rightarrow> nat \<Rightarrow> 'a \<Rightarrow> u8" where
  "zero_fill m s 0 = m"
| "zero_fill m s (Suc n) = zero_fill (m(s := 0)) (s + 1) n"

fun strncpy_loop :: "('a::semiring_1 \<Rightarrow> u8) \<Rightarrow> 'a \<Rightarrow> cptr \<Rightarrow> nat \<Rightarrow> 'a \<Rightarrow> u8" where
  "strncpy_loop m s t 0 = m"
| "strncpy_loop m s t (Suc n) =
     (let m' = m(s := t 0)
      in if t 0 \<noteq> 0 then strncpy_loop m' (s + 1) (\<lambda>i. t (Suc i)) n
         else zero_fill m' (s + 1) n)"

definition strncpy :: "('a::semiring_1 \<Rightarrow> u8) \<Rightarrow> 'a \<Rightarrow> cptr \<Rightarrow> i32 \<Rightarrow> 'a \<Rightarrow> u8" where
  "strncpy m s t n = strncpy_loop m s t (nat (sint n))"

text \<open>The counter of \<^verbatim>\<open>safestrcpy\<close>'s loop is the value \<^verbatim>\<open>--n\<close> tests.\<close>

fun safestrcpy_loop :: "('a::semiring_1 \<Rightarrow> u8) \<Rightarrow> 'a \<Rightarrow> cptr \<Rightarrow> nat \<Rightarrow> 'a \<Rightarrow> u8" where
  "safestrcpy_loop m s t 0 = m(s := 0)"
| "safestrcpy_loop m s t (Suc n) =
     (let m' = m(s := t 0)
      in if t 0 \<noteq> 0 then safestrcpy_loop m' (s + 1) (\<lambda>i. t (Suc i)) n
         else m'(s + 1 := 0))"

definition safestrcpy :: "('a::semiring_1 \<Rightarrow> u8) \<Rightarrow> 'a \<Rightarrow> cptr \<Rightarrow> i32 \<Rightarrow> 'a \<Rightarrow> u8" where
  "safestrcpy m s t n =
     (if sint n \<le> 0 then m else safestrcpy_loop m s t (nat (sint n) - 1))"

text \<open>
  \<^verbatim>\<open>strlen\<close> does not return on bytes that hold no NUL; the model then has no value.
\<close>

partial_function (option) strlen_loop :: "cptr \<Rightarrow> nat \<Rightarrow> nat option" where
  "strlen_loop s n = (if s n = 0 then Some n else strlen_loop s (Suc n))"

definition strlen :: "cptr \<Rightarrow> nat option" where
  "strlen s = strlen_loop s 0"

text \<open>
  The specification side: the C string held in the first \<open>n\<close> bytes of a buffer, and a source
  string continued by NUL bytes.
\<close>

fun cstr :: "nat \<Rightarrow> cptr \<Rightarrow> u8 list" where
  "cstr 0 p = []"
| "cstr (Suc n) p = (if p 0 = 0 then [] else p 0 # cstr n (\<lambda>i. p (Suc i)))"

definition pad0 :: "cptr \<Rightarrow> cptr" where
  "pad0 t i = (if \<exists>j\<le>i. t j = 0 then 0 else t i)"

section \<open>Closed forms\<close>

lemma fold_upd_apply:
  "fold (\<lambda>i m. m(f i := c)) xs m a = (if a \<in> f ` set xs then c else m a)"
  by (induction xs arbitrary: m) auto

lemma word_in_range_iff:
  "a \<in> (\<lambda>i. d + of_nat i) ` {..<n} \<longleftrightarrow> unat (a - d) < n"
  if "n \<le> 2 ^ LENGTH('a)" for a d :: "'a::len word"
proof
  assume "a \<in> (\<lambda>i. d + of_nat i) ` {..<n}"
  then obtain i where i: "i < n" "a = d + of_nat i" by auto
  have "unat (of_nat i :: 'a word) \<le> i"
    by (simp add: unsigned_of_nat take_bit_nat_eq_self_iff take_bit_nat_less_eq_self)
  with i show "unat (a - d) < n" by simp
next
  assume "unat (a - d) < n"
  then show "a \<in> (\<lambda>i. d + of_nat i) ` {..<n}"
    by (intro image_eqI [of _ _ "unat (a - d)"]) (auto simp: algebra_simps)
qed

lemma memset_word_apply:
  fixes m :: mem
  shows "memset m dst c n a = (if unat (a - dst) < unat n then ucast c else m a)"
proof -
  have "unat n \<le> 2 ^ LENGTH(64)"
    using unat_u32_lt [of n] by simp
  then show ?thesis
    using word_in_range_iff [of "unat n" a dst]
    by (simp add: memset_def fold_upd_apply atLeast0LessThan)
qed

lemma memset_nat_apply:
  fixes m :: "nat \<Rightarrow> u8"
  shows "memset m dst c n a = (if dst \<le> a \<and> a < dst + unat n then ucast c else m a)"
proof -
  have "a \<in> (\<lambda>i. dst + i) ` {..<unat n} \<longleftrightarrow> dst \<le> a \<and> a < dst + unat n"
    by (auto intro: image_eqI [of _ _ "a - dst"])
  then show ?thesis by (simp add: memset_def fold_upd_apply atLeast0LessThan)
qed

lemma memcmp_loop_zero_iff: "memcmp_loop p q n = 0 \<longleftrightarrow> (\<forall>i<n. p i = q i)"
  by (induction p q n rule: memcmp_loop.induct)
    (auto simp: less_Suc_eq_0_disj word_uint_eq_iff)

lemma zero_fill_nat_apply:
  fixes m :: "nat \<Rightarrow> u8"
  shows "zero_fill m s n a = (if s \<le> a \<and> a < s + n then 0 else m a)"
  by (induction n arbitrary: m s) auto

lemma move_up_apply:
  assumes "n \<le> 18446744073709551616"
    and "\<And>k j. k < n \<Longrightarrow> j < k \<Longrightarrow> s + of_nat k \<noteq> d + of_nat j"
  shows "move_up m d s n a = (if unat (a - d) < n then m (s + (a - d)) else m a)"
  using assms
proof (induction n arbitrary: m d s)
  case (Suc n)
  have IH: "move_up (m(d := m s)) (d + 1) (s + 1) n a =
      (if unat (a - (d + 1)) < n then (m(d := m s)) (s + 1 + (a - (d + 1))) else (m(d := m s)) a)"
  proof (rule Suc.IH)
    fix k j assume "k < n" "j < k"
    with Suc.prems(2) [of "Suc k" "Suc j"]
    show "s + 1 + of_nat k \<noteq> d + 1 + of_nat j" by (simp add: algebra_simps)
  qed (use Suc.prems in simp)
  show ?case
  proof (cases "a = d")
    case True
    have "unat (- 1 :: u64) = 18446744073709551615"
      by (simp add: unsigned_minus_1_eq_mask mask_numeral)
    with True Suc.prems(1) IH show ?thesis by simp
  next
    case False
    then have eq: "unat (a - d) = Suc (unat (a - (d + 1)))" by (rule unat_minus_Suc)
    have "s + (a - d) \<noteq> d" if "unat (a - (d + 1)) < n"
      using Suc.prems(2) [of "unat (a - d)" 0] that eq by auto
    with False show ?thesis by (simp add: IH eq)
  qed
qed simp

lemma move_down_apply:
  assumes "n \<le> 18446744073709551616"
    and "\<And>k j. k < j \<Longrightarrow> j < n \<Longrightarrow> s + of_nat k \<noteq> d + of_nat j"
  shows "move_down m (d + of_nat n) (s + of_nat n) n a =
    (if unat (a - d) < n then m (s + (a - d)) else m a)"
  using assms
proof (induction n arbitrary: m)
  case (Suc n)
  let ?m = "m(d + of_nat n := m (s + of_nat n))"
  have IH: "move_down ?m (d + of_nat n) (s + of_nat n) n a =
      (if unat (a - d) < n then ?m (s + (a - d)) else ?m a)"
    using Suc.prems by (intro Suc.IH) auto
  consider "unat (a - d) < n" | "unat (a - d) = n" | "n < unat (a - d)" by linarith
  then show ?case
  proof cases
    case 1
    with Suc.prems(2) [of "unat (a - d)" n] have "s + (a - d) \<noteq> d + of_nat n" by simp
    with 1 show ?thesis using IH by (simp add: algebra_simps)
  next
    case 2
    then have "a = d + of_nat n" by (rule word_eq_add_unat)
    with 2 show ?thesis using IH by (simp add: algebra_simps)
  next
    case 3
    have "a \<noteq> d + of_nat n"
      using 3 Suc.prems(1) unat_of_nat_64 [of n] by auto
    with 3 show ?thesis using IH by (simp add: algebra_simps)
  qed
qed simp

lemma memmove_apply:
  assumes "unat src + unat n < 2 ^ 64" and "unat dst + unat n < 2 ^ 64"
  shows "memmove m dst src n a =
    (if unat (a - dst) < unat n then m (src + (a - dst)) else m a)"
proof -
  have off: "unat (src + of_nat k) = unat src + k" "unat (dst + of_nat k) = unat dst + k"
    if "k \<le> unat n" for k
    using assms that by (simp_all add: unat_add_of_nat)
  have un: "(ucast n :: u64) = of_nat (unat n)" by simp
  have n: "unat n \<le> 18446744073709551616" using unat_u32_lt [of n] by simp
  have ne: "src + of_nat k \<noteq> dst + of_nat j"
    if "k \<le> unat n" "j \<le> unat n" "unat src + k \<noteq> unat dst + j" for k j
    using off that by metis
  consider "n = 0" | "n \<noteq> 0" "src < dst" "src + of_nat (unat n) > dst"
    | "n \<noteq> 0" "\<not> (src < dst \<and> src + of_nat (unat n) > dst)" by blast
  then show ?thesis
  proof cases
    case 2
    then have lt: "unat src < unat dst" by (simp add: word_less_nat_alt)
    have "move_down m (dst + of_nat (unat n)) (src + of_nat (unat n)) (unat n) a =
        (if unat (a - dst) < unat n then m (src + (a - dst)) else m a)"
      by (rule move_down_apply [OF n], rule ne) (use lt in linarith)+
    with 2 show ?thesis by (simp add: memmove_def un del: of_nat_unat)
  next
    case 3
    then have ge: "unat dst \<le> unat src \<or> unat src + unat n \<le> unat dst"
      using off(1) [of "unat n"] by (auto simp: word_less_nat_alt)
    have "move_up m dst src (unat n) a =
        (if unat (a - dst) < unat n then m (src + (a - dst)) else m a)"
      by (rule move_up_apply [OF n], rule ne) (use ge in linarith)+
    with 3 show ?thesis by (auto simp: memmove_def un simp del: of_nat_unat)
  qed (simp add: memmove_def)
qed

lemma length_cstr: "length (cstr n p) \<le> n"
  by (induction n p rule: cstr.induct) auto

lemma strncmp_loop_zero_iff: "strncmp_loop p q n = 0 \<longleftrightarrow> cstr n p = cstr n q"
  by (induction p q n rule: strncmp_loop.induct) (auto simp: word_uint_eq_iff)

lemma strncmp_zero_iff: "strncmp p q n = 0 \<longleftrightarrow> cstr (unat n) p = cstr (unat n) q"
  by (simp add: strncmp_def strncmp_loop_zero_iff)

lemma cstr_cong: "(\<And>i. i < n \<Longrightarrow> p i = q i) \<Longrightarrow> cstr n p = cstr n q"
proof (induction n arbitrary: p q)
  case (Suc n)
  have "p 0 = q 0" by (rule Suc.prems) simp
  moreover have "cstr n (\<lambda>i. p (Suc i)) = cstr n (\<lambda>i. q (Suc i))"
    by (rule Suc.IH) (simp add: Suc.prems)
  ultimately show ?case by simp
qed simp

lemma pad0_Suc: "pad0 t (Suc i) = (if t 0 = 0 then 0 else pad0 (\<lambda>i. t (Suc i)) i)"
proof -
  have "(\<exists>j\<le>Suc i. t j = 0) \<longleftrightarrow> t 0 = 0 \<or> (\<exists>j\<le>i. t (Suc j) = 0)"
    by (metis Suc_le_mono le0 not0_implies_Suc)
  then show ?thesis by (auto simp: pad0_def)
qed

lemma pad0_0 [simp]: "pad0 t 0 = t 0"
  by (simp add: pad0_def)

lemma strncpy_loop_apply:
  fixes m :: "nat \<Rightarrow> u8"
  shows "strncpy_loop m s t n a = (if s \<le> a \<and> a < s + n then pad0 t (a - s) else m a)"
proof (induction n arbitrary: m s t a)
  case (Suc n)
  show ?case
  proof (cases "a \<le> s")
    case True
    then show ?thesis by (auto simp: Suc.IH zero_fill_nat_apply Let_def)
  next
    case False
    then obtain i where "a = s + Suc i" by (metis add_Suc_right less_imp_Suc_add not_le)
    then show ?thesis by (auto simp: Suc.IH zero_fill_nat_apply pad0_Suc Let_def)
  qed
qed auto

lemma cstr_pad0: "cstr n (pad0 t) = cstr n t"
proof (induction n t rule: cstr.induct)
  case (2 n p)
  have "p 0 \<noteq> 0 \<Longrightarrow> (\<lambda>i. pad0 p (Suc i)) = pad0 (\<lambda>i. p (Suc i))"
    by (simp add: pad0_Suc fun_eq_iff)
  with 2 show ?case by simp
qed simp

lemma safestrcpy_loop_outside:
  fixes m :: "nat \<Rightarrow> u8"
  shows "a < s \<or> s + n < a \<Longrightarrow> safestrcpy_loop m s t n a = m a"
  by (induction n arbitrary: m s t) (auto simp: Let_def)

lemma safestrcpy_loop_cstr:
  fixes m :: "nat \<Rightarrow> u8"
  shows "cstr (Suc n) (\<lambda>i. safestrcpy_loop m s t n (s + i)) = cstr n t"
proof (induction n arbitrary: m s t)
  case (Suc n)
  show ?case
  proof (cases "t 0 = 0")
    case False
    let ?r = "safestrcpy_loop (m(s := t 0)) (s + 1) (\<lambda>i. t (Suc i)) n"
    have "?r s = t 0" by (simp add: safestrcpy_loop_outside)
    moreover have "cstr (Suc n) (\<lambda>i. ?r (s + Suc i)) = cstr n (\<lambda>i. t (Suc i))"
    proof -
      have "(\<lambda>i. ?r (s + Suc i)) = (\<lambda>i. ?r (s + 1 + i))" by simp
      then show ?thesis by (simp only: Suc.IH)
    qed
    ultimately show ?thesis
      using False by (simp del: cstr.simps add: cstr.simps(2) [of "Suc n"] cstr.simps(2) [of n t])
  qed simp
qed simp

lemma strlen_loop_Some: "s k = 0 \<Longrightarrow> (\<And>i. n \<le> i \<Longrightarrow> i < k \<Longrightarrow> s i \<noteq> 0) \<Longrightarrow> n \<le> k \<Longrightarrow> strlen_loop s n = Some k"
proof (induction "k - n" arbitrary: n)
  case 0
  then have "n = k" by simp
  with 0 show ?case by (subst strlen_loop.simps) simp
next
  case (Suc d)
  then have "n < k" by simp
  with Suc.prems have "s n \<noteq> 0" by simp
  moreover have "strlen_loop s (Suc n) = Some k"
    using Suc.hyps(2) \<open>n < k\<close> by (intro Suc.hyps(1) Suc.prems) auto
  ultimately show ?case by (subst strlen_loop.simps) simp
qed

lemma strlen_loop_SomeD:
  assumes "strlen_loop s n = Some k"
  shows "n \<le> k \<and> s k = 0 \<and> (\<forall>i. n \<le> i \<longrightarrow> i < k \<longrightarrow> s i \<noteq> 0)"
proof (rule strlen_loop.raw_induct
    [where P = "\<lambda>s n k. n \<le> k \<and> s k = 0 \<and> (\<forall>i. n \<le> i \<longrightarrow> i < k \<longrightarrow> s i \<noteq> 0)", OF _ assms])
  fix f :: "cptr \<Rightarrow> nat \<Rightarrow> nat option" and s n k
  assume IH: "\<And>s n k. f s n = Some k \<Longrightarrow> n \<le> k \<and> s k = 0 \<and> (\<forall>i. n \<le> i \<longrightarrow> i < k \<longrightarrow> s i \<noteq> 0)"
    and eq: "(if s n = 0 then Some n else f s (Suc n)) = Some k"
  show "n \<le> k \<and> s k = 0 \<and> (\<forall>i. n \<le> i \<longrightarrow> i < k \<longrightarrow> s i \<noteq> 0)"
  proof (cases "s n = 0")
    case True
    with eq show ?thesis by auto
  next
    case False
    with eq have "Suc n \<le> k \<and> s k = 0 \<and> (\<forall>i. Suc n \<le> i \<longrightarrow> i < k \<longrightarrow> s i \<noteq> 0)"
      using IH by simp
    moreover have "s i \<noteq> 0" if "n \<le> i" "i < k" for i
      using calculation False that by (cases "i = n") auto
    ultimately show ?thesis by auto
  qed
qed

lemma strlen_eq: "strlen s = Some k \<longleftrightarrow> s k = 0 \<and> (\<forall>i<k. s i \<noteq> 0)"
proof
  show "s k = 0 \<and> (\<forall>i<k. s i \<noteq> 0)" if "strlen s = Some k"
    using strlen_loop_SomeD [of s 0 k] that by (simp add: strlen_def)
  show "strlen s = Some k" if "s k = 0 \<and> (\<forall>i<k. s i \<noteq> 0)"
    unfolding strlen_def by (rule strlen_loop_Some) (use that in simp_all)
qed


section \<open>Properties\<close>

text \<open>
  C22: \<^verbatim>\<open>memmove\<close> copies correctly for every placement of the two ranges, overlapping
  or not: each destination byte gets the value its source byte had before the call, and no
  byte outside the destination changes.
\<close>

theorem memmove_correct:
  assumes "unat src + unat n < 2 ^ 64" and "unat dst + unat n < 2 ^ 64"
  shows "(\<forall>k<unat n. memmove m dst src n (dst + of_nat k) = m (src + of_nat k)) \<and>
    (\<forall>a. (\<forall>k<unat n. a \<noteq> dst + of_nat k) \<longrightarrow> memmove m dst src n a = m a)"
proof (intro conjI allI impI)
  fix k assume "k < unat n"
  then have "unat (of_nat k :: u64) = k"
    using unat_u32_lt [of n] by (intro unat_of_nat_64) linarith
  with \<open>k < unat n\<close> show "memmove m dst src n (dst + of_nat k) = m (src + of_nat k)"
    by (simp add: memmove_apply [OF assms])
next
  fix a assume "\<forall>k<unat n. a \<noteq> dst + of_nat k"
  then have "\<not> unat (a - dst) < unat n"
    using word_eq_add_unat [of a dst] by blast
  then show "memmove m dst src n a = m a" by (simp add: memmove_apply [OF assms])
qed

theorem memmove_correct_witness:
  "memmove (\<lambda>a. if a = 16 then 7 else if a = 17 then 9 else 0) 17 16 2 (17 + of_nat 1) = 9"
proof -
  let ?m = "\<lambda>a::u64. if a = 16 then 7 else if a = 17 then 9 else (0::u8)"
  have "unat (16::u64) + unat (2::u32) < 2 ^ 64" "unat (17::u64) + unat (2::u32) < 2 ^ 64"
    by simp_all
  from memmove_correct [OF this, of ?m, THEN conjunct1, rule_format, of 1]
  show ?thesis by simp
qed

text \<open>
  C23: \<^verbatim>\<open>safestrcpy\<close> always leaves a NUL-terminated string inside the \<open>n\<close> bytes of the
  destination: the source string, cut to \<open>n - 1\<close> characters; bytes outside those \<open>n\<close> are
  untouched.
\<close>

theorem safestrcpy_terminates:
  fixes m :: "nat \<Rightarrow> u8"
  assumes "0 < sint n"
  shows "cstr (nat (sint n)) (\<lambda>i. safestrcpy m s t n (s + i)) = cstr (nat (sint n) - 1) t \<and>
    length (cstr (nat (sint n)) (\<lambda>i. safestrcpy m s t n (s + i))) < nat (sint n) \<and>
    (\<forall>a. a < s \<or> s + nat (sint n) \<le> a \<longrightarrow> safestrcpy m s t n a = m a)"
proof -
  obtain k where k: "nat (sint n) = Suc k"
    using assms by (metis gr0_implies_Suc zero_less_nat_eq)
  have "safestrcpy m s t n = safestrcpy_loop m s t k"
    using assms k by (simp add: safestrcpy_def)
  moreover have "length (cstr k t) \<le> k" by (rule length_cstr)
  ultimately show ?thesis
    by (auto simp: k safestrcpy_loop_cstr safestrcpy_loop_outside simp del: cstr.simps)
qed

theorem safestrcpy_terminates_witness:
  "cstr (nat (sint (3::i32))) (\<lambda>i. safestrcpy (\<lambda>_. 1) 0 (\<lambda>_. 65) 3 (0 + i)) = [65, 65]"
proof -
  have "0 < sint (3::i32)" by simp
  moreover have "cstr (nat (sint (3::i32)) - 1) (\<lambda>_. 65) = [65, 65]" by code_simp
  ultimately show ?thesis
    using safestrcpy_terminates [of "3::i32" "\<lambda>_. 1" 0 "\<lambda>_. 65"] by (simp only:)
qed

end
