(* ===== verification/Pool.thy ===== *)
theory Pool
  imports KPrelude
begin

text \<open>
  The contract shared by the kernel's allocators of fixed resources (physical pages, file
  structures, process slots, disk blocks, inodes, virtio descriptors): allocation hands out
  a free resource and removes it from the free set, and giving back a resource its owner
  holds makes it free again.  Each allocator's theory interprets the locale on its own
  operations.
\<close>

fun alloc_many :: "('s \<Rightarrow> ('p \<times> 's) res) \<Rightarrow> nat \<Rightarrow> 's \<Rightarrow> ('p list \<times> 's) res" where
  "alloc_many alloc 0 s = Ok ([], s)"
| "alloc_many alloc (Suc n) s =
     bnd (alloc s) (\<lambda>(p, s). bnd (alloc_many alloc n s) (\<lambda>(ps, s). Ok (p # ps, s)))"

locale resource_pool =
  fixes alloc :: "'s \<Rightarrow> ('p \<times> 's) res"
    and release :: "'p \<Rightarrow> 's \<Rightarrow> 's res"
    and pool :: "'s \<Rightarrow> 'p set \<Rightarrow> bool"
    and owned :: "'s \<Rightarrow> 'p \<Rightarrow> bool"
  assumes alloc_free: "pool s P \<Longrightarrow> P \<noteq> {} \<Longrightarrow>
      \<exists>p s'. alloc s = Ok (p, s') \<and> p \<in> P \<and> pool s' (P - {p}) \<and> owned s' p"
    and alloc_owned: "pool s P \<Longrightarrow> P \<noteq> {} \<Longrightarrow> alloc s = Ok (p, s') \<Longrightarrow> owned s q \<Longrightarrow> owned s' q"
    and release_owned: "pool s P \<Longrightarrow> owned s p \<Longrightarrow> \<exists>s'. release p s = Ok s' \<and> pool s' (insert p P)"
    and release_frame: "pool s P \<Longrightarrow> owned s p \<Longrightarrow> release p s = Ok s' \<Longrightarrow> owned s q \<Longrightarrow> q \<noteq> p \<Longrightarrow> owned s' q"
    and owned_not_free: "pool s P \<Longrightarrow> owned s p \<Longrightarrow> p \<notin> P"
begin

lemma alloc_many_distinct:
  assumes "pool s P" and "finite P" and "n \<le> card P" and "Q \<inter> P = {}" and "\<And>q. q \<in> Q \<Longrightarrow> owned s q"
  shows "\<exists>ps s'. alloc_many alloc n s = Ok (ps, s') \<and> length ps = n \<and> distinct ps \<and>
    set ps \<subseteq> P \<and> pool s' (P - set ps) \<and> (\<forall>q \<in> Q \<union> set ps. owned s' q)"
  using assms
proof (induction n arbitrary: s P Q)
  case (Suc n)
  then have ne: "P \<noteq> {}" by auto
  from alloc_free [OF Suc.prems(1) ne] obtain p t where
    t: "alloc s = Ok (p, t)" "p \<in> P" "pool t (P - {p})" "owned t p" by blast
  have "\<exists>ps s'. alloc_many alloc n t = Ok (ps, s') \<and> length ps = n \<and> distinct ps \<and>
      set ps \<subseteq> P - {p} \<and> pool s' (P - {p} - set ps) \<and> (\<forall>q \<in> insert p Q \<union> set ps. owned s' q)"
  proof (rule Suc.IH [OF t(3)])
    show "n \<le> card (P - {p})" using Suc.prems(2,3) t(2) by simp
    show "owned t q" if "q \<in> insert p Q" for q
      using that t(4) alloc_owned [OF Suc.prems(1) ne t(1)] Suc.prems(5) by auto
  qed (use Suc.prems in auto)
  then obtain ps s' where ps: "alloc_many alloc n t = Ok (ps, s')" "length ps = n" "distinct ps"
    "set ps \<subseteq> P - {p}" "pool s' (P - {p} - set ps)" "\<forall>q \<in> insert p Q \<union> set ps. owned s' q"
    by blast
  have "P - {p} - set ps = P - set (p # ps)" by auto
  with ps t show ?case
    by (intro exI [of _ "p # ps"] exI [of _ s']) auto
qed auto

lemma release_many:
  assumes "pool s P" and "distinct ps" and "\<And>p. p \<in> set ps \<Longrightarrow> owned s p"
  shows "\<exists>s'. fold_res release ps s = Ok s' \<and> pool s' (P \<union> set ps)"
  using assms
proof (induction ps arbitrary: s P)
  case (Cons p ps)
  then obtain t where t: "release p s = Ok t" "pool t (insert p P)"
    using release_owned [OF Cons.prems(1), of p] by auto
  have "\<exists>s'. fold_res release ps t = Ok s' \<and> pool s' (insert p P \<union> set ps)"
    using Cons.prems release_frame [OF Cons.prems(1) _ t(1)] by (intro Cons.IH [OF t(2)]) auto
  with t show ?case by auto
qed simp

text \<open>Allocating \<open>n\<close> resources and giving them all back restores the free set.\<close>

lemma alloc_release_restores:
  assumes "pool s P" and "finite P" and "n \<le> card P"
  shows "\<exists>ps s' s''. alloc_many alloc n s = Ok (ps, s') \<and> distinct ps \<and> length ps = n \<and>
    set ps \<subseteq> P \<and> fold_res release ps s' = Ok s'' \<and> pool s'' P"
proof -
  obtain ps s' where ps: "alloc_many alloc n s = Ok (ps, s')" "length ps = n" "distinct ps"
    "set ps \<subseteq> P" "pool s' (P - set ps)" "\<forall>q \<in> set ps. owned s' q"
    using alloc_many_distinct [OF assms, of "{}"] by auto
  then obtain s'' where "fold_res release ps s' = Ok s''" "pool s'' (P - set ps \<union> set ps)"
    using release_many by metis
  with ps show ?thesis by (metis Un_Diff_cancel2 sup.absorb1)
qed

end

end
