(* ===== verification/Kalloc.thy ===== *)
theory Kalloc
  imports Kstring Pool
begin

text \<open>
  The physical page allocator, \<^verbatim>\<open>kernel/kalloc.c\<close>: the free list threaded through
  the free pages themselves, and the reference counts of all pages.  The section on
  representation gives the invariant \<open>kmem_inv s fl\<close>, which says that the pages linked from
  \<^verbatim>\<open>kmem.freelist\<close> are exactly the list \<open>fl\<close>; the operations are then shown to be
  operations on that list.  Each critical section of \<^verbatim>\<open>kmem.lock\<close> is one step.
\<close>

section \<open>Page arithmetic\<close>

abbreviation (input) PGSIZE :: u64 where "PGSIZE \<equiv> 4096"
abbreviation (input) KERNBASE :: u64 where "KERNBASE \<equiv> 0x80000000"
abbreviation (input) PHYSTOP :: u64 where "PHYSTOP \<equiv> 0x88000000"

definition PGROUNDUP :: "u64 \<Rightarrow> u64" where
  "PGROUNDUP sz = (sz + PGSIZE - 1) AND NOT (PGSIZE - 1)"

definition PGROUNDDOWN :: "u64 \<Rightarrow> u64" where
  "PGROUNDDOWN a = a AND NOT (PGSIZE - 1)"

section \<open>State and operations\<close>

text \<open>
  \<open>kend\<close> is the linker's symbol \<^verbatim>\<open>end\<close>, the first address after the kernel; no
  operation writes it.  The array \<^verbatim>\<open>refcount[PHYSTOP / PGSIZE]\<close> is indexed by page
  number.
\<close>

record kmem_state =
  kend :: u64
  ram :: mem
  freelist :: u64
  refcount :: "nat \<Rightarrow> i32"

definition incref :: "u64 \<Rightarrow> 'a kmem_state_scheme \<Rightarrow> 'a kmem_state_scheme res" where
  "incref pa s =
     (let pn = unat (pa div PGSIZE)
      in if pa \<ge> PHYSTOP \<or> sint (refcount s pn) < 1 then Panic ''incref''
         else Ok (s\<lparr>refcount := (refcount s)(pn := refcount s pn + 1)\<rparr>))"

text \<open>
  \<^verbatim>\<open>kfree\<close> takes the lock twice: to decrement the count, and to link the page.  The
  test of the count between them is made without the lock.
\<close>

definition kfree_dec :: "u64 \<Rightarrow> 'a kmem_state_scheme \<Rightarrow> 'a kmem_state_scheme res" where
  "kfree_dec pa s =
     (if pa mod PGSIZE \<noteq> 0 \<or> pa < kend s \<or> pa \<ge> PHYSTOP then Panic ''kfree''
      else let pn = unat (pa div PGSIZE)
           in if sint (refcount s pn) < 1 then Panic ''kfree cow''
              else Ok (s\<lparr>refcount := (refcount s)(pn := refcount s pn - 1)\<rparr>))"

definition kfree_put :: "u64 \<Rightarrow> 'a kmem_state_scheme \<Rightarrow> 'a kmem_state_scheme" where
  "kfree_put pa s =
     (let pn = unat (pa div PGSIZE)
      in if sint (refcount s pn) > 0 then s
         else let m = memset (ram s) pa 1 4096
              in s\<lparr>ram := store64 m pa (freelist s), freelist := pa\<rparr>)"

definition kfree :: "u64 \<Rightarrow> 'a kmem_state_scheme \<Rightarrow> 'a kmem_state_scheme res" where
  "kfree pa s = bnd (kfree_dec pa s) (\<lambda>s. Ok (kfree_put pa s))"

definition kalloc :: "'a kmem_state_scheme \<Rightarrow> (u64 \<times> 'a kmem_state_scheme) res" where
  "kalloc s =
     (let r = freelist s
      in if r \<noteq> 0
         then let s = s\<lparr>freelist := load64 (ram s) r\<rparr>;
                  pn = unat (r div PGSIZE)
              in if refcount s pn \<noteq> 0 then Panic ''kalloc: ref''
                 else let s = s\<lparr>refcount := (refcount s)(pn := 1)\<rparr>
                      in Ok (r, s\<lparr>ram := memset (ram s) r 5 4096\<rparr>)
         else Ok (r, s))"

text \<open>
  The loop of \<^verbatim>\<open>freerange\<close>; its guard \<^verbatim>\<open>p + PGSIZE <= pa_end\<close> compares
  pointers, whose overflow C leaves undefined, so it is read without wrap-around.
\<close>

function freerange_loop ::
  "u64 \<Rightarrow> u64 \<Rightarrow> 'a kmem_state_scheme \<Rightarrow> 'a kmem_state_scheme res" where
  "freerange_loop p pa_end s =
     (if unat p + 4096 \<le> unat pa_end
      then let s = s\<lparr>refcount := (refcount s)(unat (p div PGSIZE) := 1)\<rparr>
           in bnd (kfree p s) (freerange_loop (p + PGSIZE) pa_end)
      else Ok s)"
  by pat_completeness auto
termination
proof (relation "measure (\<lambda>(p, pa_end, s). unat pa_end - unat p)")
  fix p pa_end :: u64 and s s' t :: "'a kmem_state_scheme"
  assume le: "unat p + 4096 \<le> unat pa_end"
  then have "unat (p + PGSIZE) = unat p + 4096"
    using unat_add_of_nat [of p 4096] unat_u64_lt [of pa_end] by simp
  with le show "((p + PGSIZE, pa_end, t), p, pa_end, s)
      \<in> measure (\<lambda>(p, pa_end, s). unat pa_end - unat p)"
    by simp
qed simp

declare freerange_loop.simps [simp del]

definition freerange ::
  "u64 \<Rightarrow> u64 \<Rightarrow> 'a kmem_state_scheme \<Rightarrow> 'a kmem_state_scheme res" where
  "freerange pa_start pa_end s = freerange_loop (PGROUNDUP pa_start) pa_end s"

definition kinit :: "'a kmem_state_scheme \<Rightarrow> 'a kmem_state_scheme res" where
  "kinit s = freerange (kend s) PHYSTOP s"

text \<open>
  \<^verbatim>\<open>kmemamount\<close> follows the links without the lock and does not return on a cyclic
  list.
\<close>

partial_function (option) kmemamount_loop :: "mem \<Rightarrow> u64 \<Rightarrow> i32 \<Rightarrow> i32 option" where
  "kmemamount_loop m r amount =
     (if r \<noteq> 0 then kmemamount_loop m (load64 m r) (amount + 4096) else Some amount)"

definition kmemamount :: "'a kmem_state_scheme \<Rightarrow> i32 option" where
  "kmemamount s = kmemamount_loop (ram s) (freelist s) 0"

section \<open>Pages\<close>

definition pgno :: "u64 \<Rightarrow> nat" where
  "pgno a = unat a div 4096"

definition aligned :: "u64 \<Rightarrow> bool" where
  "aligned a \<longleftrightarrow> a mod 4096 = 0"

lemma unat_div_4096 [simp]: "unat (a div 4096) = pgno a"
  by (simp add: pgno_def unat_div)

lemma aligned_unat: "aligned a \<longleftrightarrow> unat a mod 4096 = 0"
  by (simp add: aligned_def word_unat_eq_iff unat_mod)

lemma aligned_unat_eq: "aligned a \<Longrightarrow> unat a = 4096 * pgno a"
  by (auto simp: aligned_unat pgno_def)

lemma alignedE:
  assumes "aligned a" obtains k where "unat a = 4096 * k" and "pgno a = k"
  using aligned_unat_eq [OF assms] by blast

lemma aligned_less_page:
  assumes "aligned p" and "aligned q" and "unat q < unat p + 4096"
  shows "unat q \<le> unat p"
proof -
  obtain k j where "unat p = 4096 * k" "unat q = 4096 * j"
    using assms(1,2) by (elim alignedE)
  moreover from this assms(3) have "4096 * j < 4096 * (k + 1)" by simp
  then have "j \<le> k" by (subst (asm) mult_less_cancel1) simp
  ultimately show ?thesis by simp
qed

lemma aligned_pgno_inj: "aligned a \<Longrightarrow> aligned b \<Longrightarrow> pgno a = pgno b \<Longrightarrow> a = b"
  by (simp add: word_unat_eq_iff aligned_unat_eq)

lemma div_4096_eq_iff: "(x::nat) div 4096 = k \<longleftrightarrow> 4096 * k \<le> x \<and> x < 4096 * k + 4096"
  by linarith

lemma in_page_iff:
  assumes "aligned p" shows "unat (a - p) < 4096 \<longleftrightarrow> pgno a = pgno p"
proof -
  obtain k where k: "pgno p = k" "unat p = 4096 * k" using aligned_unat_eq [OF assms] by blast
  then have "k < 4503599627370496" using unat_u64_lt [of p] by linarith
  then have bound: "4096 * k + 4096 \<le> 18446744073709551616" by linarith
  have "unat (a - p) < 4096 \<longleftrightarrow> 4096 * k \<le> unat a \<and> unat a < 4096 * k + 4096"
  proof
    assume lt: "unat (a - p) < 4096"
    have "a = p + of_nat (unat (a - p))" by simp
    moreover have "unat (p + of_nat (unat (a - p))) = unat p + unat (a - p)"
      by (rule unat_add_of_nat) (use lt bound k(2) in simp)
    ultimately have "unat a = unat p + unat (a - p)" by metis
    then show "4096 * k \<le> unat a \<and> unat a < 4096 * k + 4096" using lt k(2) by linarith
  next
    assume a: "4096 * k \<le> unat a \<and> unat a < 4096 * k + 4096"
    then have "p \<le> a" using k(2) by (simp add: word_le_nat_alt)
    then have "unat (a - p) = unat a - unat p" by (rule unat_sub)
    then show "unat (a - p) < 4096" using a k(2) by linarith
  qed
  then show ?thesis by (simp only: k(1) pgno_def [of a] div_4096_eq_iff)
qed

lemma memset_page_apply:
  "aligned p \<Longrightarrow> memset m p c 4096 a = (if pgno a = pgno p then ucast c else m a)"
  by (simp add: memset_word_apply in_page_iff)

lemma div_4096_add: "k < 8 \<Longrightarrow> (8 * q + k) div 4096 = (8 * q) div (4096::nat)"
proof -
  assume "k < 8"
  have "(8 * q + k) div (8 * 512) = q div 512" "(8 * q) div (8 * 512) = q div 512"
    unfolding div_mult2_eq using \<open>k < 8\<close> by simp_all
  then show ?thesis by simp
qed

lemma pgno_cell64:
  assumes "unat a mod 8 = 0" and "b \<in> cell64 a" shows "pgno b = pgno a"
proof -
  obtain k where k: "k < 8" "b = a + of_nat k" using assms(2) by (auto simp: cell64_def)
  obtain q where q: "unat a = 8 * q" using assms(1) by (metis mod_0_imp_dvd dvdE)
  then have "q < 2305843009213693952" using unat_u64_lt [of a] by linarith
  then have "unat a + k < 2 ^ LENGTH(64)" using k(1) q by simp
  then have "unat b = unat a + k" unfolding k(2) by (rule unat_add_of_nat)
  then show ?thesis by (simp add: pgno_def q div_4096_add [OF k(1)])
qed

lemma aligned_mod8: "aligned a \<Longrightarrow> unat a mod 8 = 0"
proof -
  assume "aligned a"
  then have "unat a = 8 * (512 * pgno a)" by (simp add: aligned_unat_eq)
  then show ?thesis by (metis mod_mult_self1_is_0)
qed

lemma and_minus_4096: "a AND - 4096 = push_bit 12 (drop_bit 12 a)" for a :: u64
proof -
  have "(- 4096 :: u64) = NOT (mask 12)" by (simp add: mask_numeral)
  moreover have "a AND NOT (mask 12) = push_bit 12 (drop_bit 12 a)"
    by (rule bit_word_eqI) (auto simp: bit_simps)
  ultimately show ?thesis by simp
qed

lemma unat_PGROUNDDOWN: "unat (PGROUNDDOWN a) = 4096 * pgno a"
proof -
  have "PGROUNDDOWN a = a div 4096 * 4096"
    by (simp add: PGROUNDDOWN_def and_minus_4096 push_bit_eq_mult drop_bit_eq_div mult.commute)
  moreover have "pgno a * 4096 < 2 ^ LENGTH(64)"
    using unat_u64_lt [of a] by (simp add: pgno_def)
  ultimately show ?thesis by (simp add: unat_word_ariths(2))
qed

lemma unat_PGROUNDUP:
  "unat a + 4095 < 2 ^ 64 \<Longrightarrow> unat (PGROUNDUP a) = 4096 * ((unat a + 4095) div 4096)"
proof -
  assume "unat a + 4095 < 2 ^ 64"
  then have "unat (a + 4095) = unat a + 4095" using unat_add_of_nat [of a 4095] by simp
  moreover have "PGROUNDUP a = PGROUNDDOWN (a + 4095)"
    by (simp add: PGROUNDUP_def PGROUNDDOWN_def add.commute)
  ultimately show ?thesis by (simp only: unat_PGROUNDDOWN pgno_def)
qed

lemma aligned_PGROUNDDOWN [simp]: "aligned (PGROUNDDOWN a)"
  by (simp add: aligned_unat unat_PGROUNDDOWN)

lemma aligned_PGROUNDUP [simp]: "aligned (PGROUNDUP a)"
proof -
  have "PGROUNDUP a = PGROUNDDOWN (a + 4095)"
    by (simp add: PGROUNDUP_def PGROUNDDOWN_def add.commute)
  then show ?thesis by simp
qed

lemma pgno_PGROUNDDOWN [simp]: "pgno (PGROUNDDOWN a) = pgno a"
  by (simp add: pgno_def [of "PGROUNDDOWN a"] unat_PGROUNDDOWN)

lemma aligned_add_page: "aligned p \<Longrightarrow> aligned (p + 4096)"
  by (simp add: aligned_unat unat_word_ariths mod_mod_cancel)

section \<open>Representation\<close>

text \<open>The free list, read through the link word at the start of each free page.\<close>

primrec flist :: "mem \<Rightarrow> u64 \<Rightarrow> u64 list \<Rightarrow> bool" where
  "flist m r [] \<longleftrightarrow> r = 0"
| "flist m r (p # ps) \<longleftrightarrow> r = p \<and> p \<noteq> 0 \<and> flist m (load64 m p) ps"

definition page_ok :: "u64 \<Rightarrow> u64 \<Rightarrow> bool" where
  "page_ok e pa \<longleftrightarrow> aligned pa \<and> e \<le> pa \<and> pa < PHYSTOP"

text \<open>
  The invariant over a set \<open>A\<close> of managed pages (which grows while \<^verbatim>\<open>kinit\<close> runs),
  and over all pages of RAM above the kernel.
\<close>

definition kmem_inv_on :: "u64 set \<Rightarrow> 'a kmem_state_scheme \<Rightarrow> u64 list \<Rightarrow> bool" where
  "kmem_inv_on A s fl \<longleftrightarrow> 0 < kend s \<and> flist (ram s) (freelist s) fl \<and> distinct fl \<and>
     set fl \<subseteq> A \<and>
     (\<forall>p\<in>A. page_ok (kend s) p \<and>
        (refcount s (pgno p) = 0 \<longleftrightarrow> p \<in> set fl) \<and> 0 \<le> sint (refcount s (pgno p)))"

definition kmem_inv :: "'a kmem_state_scheme \<Rightarrow> u64 list \<Rightarrow> bool" where
  "kmem_inv s fl \<longleftrightarrow> kmem_inv_on {p. page_ok (kend s) p} s fl"

lemma load64_page_cong:
  assumes "unat a mod 8 = 0" and "\<And>b. pgno b = pgno a \<Longrightarrow> m b = m' b"
  shows "load64 m a = load64 m' a"
  by (rule load64_cong) (rule assms(2), rule pgno_cell64 [OF assms(1)])

lemma flist_cong:
  assumes "flist m r fl" and "\<And>p. p \<in> set fl \<Longrightarrow> aligned p"
    and "\<And>p b. p \<in> set fl \<Longrightarrow> pgno b = pgno p \<Longrightarrow> m' b = m b"
  shows "flist m' r fl"
  using assms
proof (induction fl arbitrary: r)
  case (Cons p ps)
  have "load64 m' p = load64 m p"
    by (rule load64_page_cong) (use Cons.prems aligned_mod8 in auto)
  with Cons show ?case by auto
qed simp

lemma flist_memset:
  assumes "flist m r fl" and "\<And>q. q \<in> set fl \<Longrightarrow> aligned q" and "aligned p" and "p \<notin> set fl"
  shows "flist (memset m p c 4096) r fl"
  using assms(1,2)
proof (rule flist_cong)
  fix q b assume "q \<in> set fl" "pgno b = pgno q"
  with assms(2-4) aligned_pgno_inj show "memset m p c 4096 b = m b"
    by (auto simp: memset_page_apply)
qed

lemma store64_other_page:
  "aligned p \<Longrightarrow> pgno b \<noteq> pgno p \<Longrightarrow> store64 m p v b = m b"
  by (rule store64_outside) (auto dest: pgno_cell64 [OF aligned_mod8])

lemma kmem_invD:
  assumes "kmem_inv s fl"
  shows "0 < kend s" and "flist (ram s) (freelist s) fl" and "distinct fl"
    and "\<And>p. p \<in> set fl \<Longrightarrow> page_ok (kend s) p" and "\<And>p. p \<in> set fl \<Longrightarrow> aligned p"
    and "\<And>p. page_ok (kend s) p \<Longrightarrow> refcount s (pgno p) = 0 \<longleftrightarrow> p \<in> set fl"
    and "\<And>p. page_ok (kend s) p \<Longrightarrow> 0 \<le> sint (refcount s (pgno p))"
  using assms by (auto simp: kmem_inv_def kmem_inv_on_def page_ok_def)

lemma page_ok_pgno_inj: "page_ok e p \<Longrightarrow> page_ok e q \<Longrightarrow> pgno p = pgno q \<longleftrightarrow> p = q"
  by (auto simp: page_ok_def intro: aligned_pgno_inj)

section \<open>The operations on the free list\<close>

lemma kalloc_empty: "kmem_inv s [] \<Longrightarrow> kalloc s = Ok (0, s)"
  by (simp add: kmem_inv_def kmem_inv_on_def kalloc_def)

lemma kalloc_cons:
  assumes "kmem_inv s (p # fl)"
  defines "s' \<equiv> s\<lparr>freelist := load64 (ram s) p, refcount := (refcount s)(pgno p := 1),
    ram := memset (ram s) p 5 4096\<rparr>"
  shows "kalloc s = Ok (p, s')" and "kmem_inv s' fl"
proof -
  note inv = kmem_invD [OF assms(1)]
  have p: "page_ok (kend s) p" "p \<noteq> 0" "freelist s = p" "p \<notin> set fl" "aligned p"
    and fl: "flist (ram s) (load64 (ram s) p) fl"
    using inv by auto
  have "refcount s (pgno p) = 0" using inv(6) p(1) by simp
  then show "kalloc s = Ok (p, s')"
    using p by (simp add: kalloc_def s'_def Let_def)
  have "flist (memset (ram s) p 5 4096) (load64 (ram s) p) fl"
    by (rule flist_memset) (use fl inv(5) p in auto)
  moreover have "refcount s' (pgno q) = 0 \<longleftrightarrow> q \<in> set fl" "0 \<le> sint (refcount s' (pgno q))"
    if "page_ok (kend s) q" for q
    using inv(6,7) [OF that] page_ok_pgno_inj [OF that p(1)] p(4)
    by (auto simp: s'_def)
  ultimately show "kmem_inv s' fl"
    using inv p by (auto simp: kmem_inv_def kmem_inv_on_def s'_def)
qed

lemma kfree_last_on:
  assumes "kmem_inv_on A s fl" and "page_ok (kend s) p" and "refcount s (pgno p) = 1"
    and "p \<notin> set fl"
  defines "s' \<equiv> s\<lparr>refcount := (refcount s)(pgno p := 0),
    ram := store64 (memset (ram s) p 1 4096) p (freelist s), freelist := p\<rparr>"
  shows "kfree p s = Ok s'" and "kmem_inv_on (insert p A) s' (p # fl)"
proof -
  have A: "0 < kend s" "flist (ram s) (freelist s) fl" "distinct fl" "set fl \<subseteq> A"
    "\<And>q. q \<in> set fl \<Longrightarrow> aligned q" "\<And>q. q \<in> A \<Longrightarrow> page_ok (kend s) q"
    "\<And>q. q \<in> A \<Longrightarrow> refcount s (pgno q) = 0 \<longleftrightarrow> q \<in> set fl"
    "\<And>q. q \<in> A \<Longrightarrow> 0 \<le> sint (refcount s (pgno q))"
    using assms(1) by (auto simp: kmem_inv_on_def page_ok_def)
  have p: "aligned p" "kend s \<le> p" "p < PHYSTOP" using assms(2) by (auto simp: page_ok_def)
  show "kfree p s = Ok s'"
    using p assms(3) by (simp add: kfree_def kfree_dec_def kfree_put_def s'_def aligned_def not_less)
  let ?m = "store64 (memset (ram s) p 1 4096) p (freelist s)"
  have "flist ?m (freelist s) fl"
  proof (rule flist_cong [OF flist_memset [OF A(2,5)]])
    fix q b assume "q \<in> set fl" "pgno b = pgno q"
    with assms(4) p(1) A(5) aligned_pgno_inj have "pgno b \<noteq> pgno p" by metis
    with p(1) show "?m b = memset (ram s) p 1 4096 b" by (rule store64_other_page)
  qed (use A(5) p(1) assms(4) in auto)
  moreover have "refcount s' (pgno q) = 0 \<longleftrightarrow> q \<in> set (p # fl)" "0 \<le> sint (refcount s' (pgno q))"
    if "q \<in> insert p A" for q
    using that A(6-8) [of q] page_ok_pgno_inj [OF _ assms(2), of q] by (auto simp: s'_def)
  moreover have "p \<noteq> 0" using p(2) A(1) by auto
  ultimately show "kmem_inv_on (insert p A) s' (p # fl)"
    using A assms(2,4) by (auto simp: kmem_inv_on_def s'_def)
qed

lemma kfree_last:
  assumes "kmem_inv s fl" and "page_ok (kend s) p" and "refcount s (pgno p) = 1"
  defines "s' \<equiv> s\<lparr>refcount := (refcount s)(pgno p := 0),
    ram := store64 (memset (ram s) p 1 4096) p (freelist s), freelist := p\<rparr>"
  shows "kfree p s = Ok s'" and "kmem_inv s' (p # fl)"
proof -
  have "p \<notin> set fl" using kmem_invD(6) [OF assms(1,2)] assms(3) by simp
  note on = kfree_last_on [OF assms(1) [unfolded kmem_inv_def] assms(2,3) this, folded s'_def]
  show "kfree p s = Ok s'" by (rule on(1))
  have "insert p {q. page_ok (kend s) q} = {q. page_ok (kend s') q}"
    using assms(2) by (auto simp: s'_def)
  with on(2) show "kmem_inv s' (p # fl)" by (simp add: kmem_inv_def)
qed

lemma kfree_shared:
  assumes "kmem_inv s fl" and "page_ok (kend s) p" and "1 < sint (refcount s (pgno p))"
  defines "s' \<equiv> s\<lparr>refcount := (refcount s)(pgno p := refcount s (pgno p) - 1)\<rparr>"
  shows "kfree p s = Ok s'" and "kmem_inv s' fl"
proof -
  note inv = kmem_invD [OF assms(1)]
  have p: "aligned p" "kend s \<le> p" "p < PHYSTOP" using assms(2) by (auto simp: page_ok_def)
  have dec: "sint (refcount s (pgno p) - 1) = sint (refcount s (pgno p)) - 1"
    using assms(3) sint_lt [of "refcount s (pgno p)"]
    by (simp add: sint_word_ariths signed_take_bit_int_eq_self)
  then show "kfree p s = Ok s'"
    using p assms(3) by (simp add: kfree_def kfree_dec_def kfree_put_def s'_def aligned_def Let_def not_le not_less)
  have "refcount s (pgno p) - 1 \<noteq> 0" using dec assms(3) by auto
  moreover have "refcount s (pgno p) \<noteq> 0" using assms(3) by auto
  ultimately have "refcount s' (pgno q) = 0 \<longleftrightarrow> q \<in> set fl" "0 \<le> sint (refcount s' (pgno q))"
    if "page_ok (kend s) q" for q
    using inv(6,7) [OF that] page_ok_pgno_inj [OF that assms(2)] dec assms(3)
    by (auto simp: s'_def)
  then show "kmem_inv s' fl" using inv by (auto simp: kmem_inv_def kmem_inv_on_def s'_def)
qed

lemma kfree_free_panics:
  assumes "kmem_inv s fl" and "p \<in> set fl"
  shows "kfree p s = Panic ''kfree cow''"
proof -
  note inv = kmem_invD [OF assms(1)]
  have "page_ok (kend s) p" by (rule inv(4) [OF assms(2)])
  moreover have "refcount s (pgno p) = 0" using inv(6) [OF calculation] assms(2) by simp
  ultimately show ?thesis
    by (simp add: kfree_def kfree_dec_def page_ok_def aligned_def not_le not_less)
qed

section \<open>Initialisation\<close>

lemma freerange_loop_inv:
  assumes "aligned p" and "kend s \<le> p" and "p \<le> PHYSTOP"
    and "kmem_inv_on {q. page_ok (kend s) q \<and> q < p} s fl"
    and "set fl = {q. page_ok (kend s) q \<and> q < p}"
  shows "\<exists>s' fl'. freerange_loop p PHYSTOP s = Ok s' \<and> kend s' = kend s \<and> kmem_inv s' fl' \<and>
    set fl' = {q. page_ok (kend s) q}"
  using assms
proof (induction "unat PHYSTOP - unat p" arbitrary: p s fl rule: less_induct)
  case less
  show ?case
  proof (cases "unat p + 4096 \<le> unat PHYSTOP")
    case True
    let ?t = "s\<lparr>refcount := (refcount s)(pgno p := 1)\<rparr>"
    let ?A = "{q. page_ok (kend s) q \<and> q < p}"
    have up: "unat (p + 4096) = unat p + 4096"
      using True unat_add_of_nat [of p 4096] by simp
    have p: "page_ok (kend s) p"
      using True less.prems(1,2) by (simp add: page_ok_def word_less_nat_alt)
    have A: "kmem_inv_on ?A ?t fl"
      using less.prems(4) page_ok_pgno_inj [OF _ p] by (auto simp: kmem_inv_on_def)
    have notin: "p \<notin> set fl" using less.prems(5) by simp
    note free = kfree_last_on [OF A, of p, simplified, OF p notin]
    have set: "insert p ?A = {q. page_ok (kend s) q \<and> q < p + 4096}"
    proof (intro set_eqI iffI)
      fix q assume "q \<in> {q. page_ok (kend s) q \<and> q < p + 4096}"
      then have q: "page_ok (kend s) q" "unat q < unat p + 4096"
        using up by (auto simp: word_less_nat_alt)
      then have "unat q \<le> unat p"
        using aligned_less_page [OF less.prems(1)] by (simp add: page_ok_def)
      with q show "q \<in> insert p ?A"
        by (auto simp: word_less_nat_alt word_unat_eq_iff)
    qed (use p up in \<open>auto simp: word_less_nat_alt\<close>)
    let ?u = "?t\<lparr>refcount := (refcount ?t)(pgno p := 0),
      ram := store64 (memset (ram s) p 1 4096) p (freelist s), freelist := p\<rparr>"
    have "\<exists>s' fl'. freerange_loop (p + 4096) PHYSTOP ?u = Ok s' \<and> kend s' = kend ?u \<and>
        kmem_inv s' fl' \<and> set fl' = {q. page_ok (kend ?u) q}"
    proof (rule less.hyps)
      show "kmem_inv_on {q. page_ok (kend ?u) q \<and> q < p + 4096} ?u (p # fl)"
        using free(2) set by simp
      show "set (p # fl) = {q. page_ok (kend ?u) q \<and> q < p + 4096}"
        using less.prems(5) set by simp
      show "kend ?u \<le> p + 4096" using less.prems(2) up by (simp add: word_le_nat_alt)
    qed (use True up less.prems in \<open>simp_all add: aligned_add_page word_le_nat_alt\<close>)
    with True free(1) show ?thesis by (simp add: freerange_loop.simps [of p])
  next
    case False
    have "aligned PHYSTOP" by (simp add: aligned_unat)
    with False less.prems(1) have "unat PHYSTOP \<le> unat p"
      by (intro aligned_less_page) simp_all
    then have "{q. page_ok (kend s) q \<and> q < p} = {q. page_ok (kend s) q}"
      by (auto simp: page_ok_def word_less_nat_alt)
    with False less.prems show ?thesis
      by (auto simp: freerange_loop.simps [of p] kmem_inv_def)
  qed
qed

lemma PGROUNDUP_bounds:
  assumes "e \<le> PHYSTOP"
  shows "e \<le> PGROUNDUP e" and "PGROUNDUP e \<le> PHYSTOP"
    and "\<And>q. aligned q \<Longrightarrow> e \<le> q \<Longrightarrow> PGROUNDUP e \<le> q"
proof -
  have e: "unat e \<le> 2281701376" using assms by (simp add: word_le_nat_alt)
  then have up: "unat (PGROUNDUP e) = 4096 * ((unat e + 4095) div 4096)"
    by (intro unat_PGROUNDUP) simp
  show "e \<le> PGROUNDUP e" "PGROUNDUP e \<le> PHYSTOP"
    using e by (simp_all add: word_le_nat_alt up)
  show "PGROUNDUP e \<le> q" if "aligned q" "e \<le> q" for q
    using that by (elim alignedE) (simp add: word_le_nat_alt up)
qed

lemma kmemamount_flist:
  "flist m r fl \<Longrightarrow> kmemamount_loop m r n = Some (n + of_nat (4096 * length fl))"
proof (induction fl arbitrary: r n)
  case (Cons p ps)
  then have "kmemamount_loop m (load64 m p) (n + 4096) = Some (n + 4096 + of_nat (4096 * length ps))"
    by simp
  with Cons.prems show ?case
    by (subst kmemamount_loop.simps) (simp add: algebra_simps)
qed (simp add: kmemamount_loop.simps)

section \<open>The allocator as a resource pool\<close>

definition free_pages :: "'a kmem_state_scheme \<Rightarrow> u64 set \<Rightarrow> bool" where
  "free_pages s P \<longleftrightarrow> (\<exists>fl. kmem_inv s fl \<and> set fl = P)"

definition sole_owner :: "'a kmem_state_scheme \<Rightarrow> u64 \<Rightarrow> bool" where
  "sole_owner s p \<longleftrightarrow> page_ok (kend s) p \<and> refcount s (pgno p) = 1"

interpretation pages: resource_pool kalloc kfree free_pages sole_owner
proof
  fix s :: "'a kmem_state_scheme" and P
  assume pool: "free_pages s P" and "P \<noteq> {}"
  then obtain fl' where "kmem_inv s fl'" "P = set fl'" "fl' \<noteq> []"
    by (auto simp: free_pages_def)
  then obtain p fl where fl: "kmem_inv s (p # fl)" "P = set (p # fl)" by (metis neq_Nil_conv)
  note al = kalloc_cons [OF fl(1)]
  have "p \<notin> set fl" using kmem_invD(3) [OF fl(1)] by simp
  with al fl kmem_invD(4) [OF fl(1), of p]
  show "\<exists>p s'. kalloc s = Ok (p, s') \<and> p \<in> P \<and> free_pages s' (P - {p}) \<and> sole_owner s' p"
    by (auto simp: free_pages_def sole_owner_def intro!: exI)
  fix q r s' assume "kalloc s = Ok (r, s')" and "sole_owner s q"
  then show "sole_owner s' q" using al(1) by (auto simp: sole_owner_def)
next
  fix s :: "'a kmem_state_scheme" and P p
  assume pool: "free_pages s P" and own: "sole_owner s p"
  then obtain fl where fl: "kmem_inv s fl" "P = set fl" by (auto simp: free_pages_def)
  have p: "page_ok (kend s) p" "refcount s (pgno p) = 1" using own by (auto simp: sole_owner_def)
  note free = kfree_last [OF fl(1) p]
  from free fl(2) show "\<exists>s'. kfree p s = Ok s' \<and> free_pages s' (insert p P)"
    by (auto simp: free_pages_def intro!: exI)
  show "p \<notin> P" using kmem_invD(6) [OF fl(1) p(1)] p(2) fl(2) by simp
  fix s' q assume "kfree p s = Ok s'" "sole_owner s q" "q \<noteq> p"
  with free(1) page_ok_pgno_inj [OF _ p(1), of q] show "sole_owner s' q"
    by (auto simp: sole_owner_def)
qed

section \<open>Properties\<close>

text \<open>A machine with a single page of free memory, for the witnesses.\<close>

definition one_page :: kmem_state where
  "one_page = \<lparr>kend = 0x87fff000, ram = (\<lambda>_. 0), freelist = 0x87fff000, refcount = (\<lambda>_. 0)\<rparr>"

lemma page_ok_last: "page_ok 0x87fff000 p \<longleftrightarrow> p = 0x87fff000"
proof
  assume ok: "page_ok 0x87fff000 p"
  then obtain k where "unat p = 4096 * k" by (auto simp: page_ok_def elim: alignedE)
  with ok have "unat p = 2281697280" by (auto simp: page_ok_def word_le_nat_alt word_less_nat_alt)
  then show "p = 0x87fff000" by (simp add: word_unat_eq_iff)
qed (simp add: page_ok_def aligned_unat)

lemma kmem_inv_one_page: "kmem_inv one_page [0x87fff000]"
proof -
  have "load64 (\<lambda>_. 0) 0x87fff000 = 0" by (simp add: load64_def bytes8_def le_cons_def)
  then show ?thesis by (simp add: kmem_inv_def kmem_inv_on_def one_page_def page_ok_last)
qed

text \<open>
  C6: \<^verbatim>\<open>kinit\<close> succeeds and builds a well-formed free list of exactly the pages between
  the end of the kernel and \<^verbatim>\<open>PHYSTOP\<close>, each with reference count 0; and
  \<^verbatim>\<open>kmemamount\<close> then returns their total size.
\<close>

theorem kinit_frees_all:
  fixes s :: "'a kmem_state_scheme"
  assumes "freelist s = 0" and "0 < kend s" and "kend s \<le> PHYSTOP"
  shows "\<exists>s' fl. kinit s = Ok s' \<and> kmem_inv s' fl \<and> set fl = {p. page_ok (kend s) p} \<and>
    (\<forall>p \<in> set fl. refcount s' (pgno p) = 0) \<and> kmemamount s' = Some (of_nat (4096 * length fl))"
proof -
  let ?p = "PGROUNDUP (kend s)"
  note round = PGROUNDUP_bounds [OF assms(3)]
  have none: "{q. page_ok (kend s) q \<and> q < ?p} = {}"
    using round(3) by (force simp: page_ok_def)
  have "kmem_inv_on {} s []" using assms by (simp add: kmem_inv_on_def)
  then obtain s' fl where s': "freerange_loop ?p PHYSTOP s = Ok s'" "kend s' = kend s"
    "kmem_inv s' fl" "set fl = {q. page_ok (kend s) q}"
    using freerange_loop_inv [of ?p s "[]"] round(1,2) none by auto
  have "kmemamount s' = Some (of_nat (4096 * length fl))"
    unfolding kmemamount_def using kmemamount_flist [OF kmem_invD(2) [OF s'(3)], of 0] by simp
  moreover have "\<forall>p \<in> set fl. refcount s' (pgno p) = 0"
    using kmem_invD(4,6) [OF s'(3)] by blast
  ultimately show ?thesis using s' by (auto simp: kinit_def freerange_def)
qed

theorem kinit_frees_all_witness:
  "\<exists>s' fl. kinit (one_page\<lparr>freelist := 0\<rparr>) = Ok s' \<and> kmem_inv s' fl \<and> set fl = {0x87fff000}"
  using kinit_frees_all [of "one_page\<lparr>freelist := 0\<rparr>"]
  by (auto simp: one_page_def page_ok_last)

text \<open>
  C7: \<^verbatim>\<open>kalloc\<close> hands out the first free page: its count was 0 and becomes 1, its bytes
  are filled with 5, it leaves the free list, and neither the bytes nor the counts of any
  other page change.  It returns the null pointer, changing nothing, exactly when no page is
  free.
\<close>

theorem kalloc_fresh_page:
  fixes s :: "'a kmem_state_scheme"
  assumes "kmem_inv s fl"
  shows "if fl = [] then kalloc s = Ok (0, s)
    else \<exists>s'. kalloc s = Ok (hd fl, s') \<and> kmem_inv s' (tl fl) \<and> hd fl \<noteq> 0 \<and>
      refcount s (pgno (hd fl)) = 0 \<and> refcount s' (pgno (hd fl)) = 1 \<and>
      (\<forall>a. ram s' a = (if pgno a = pgno (hd fl) then 5 else ram s a)) \<and>
      (\<forall>n. n \<noteq> pgno (hd fl) \<longrightarrow> refcount s' n = refcount s n)"
proof (cases fl)
  case Nil
  with assms show ?thesis by (simp add: kalloc_empty)
next
  case (Cons p ps)
  with assms have inv: "kmem_inv s (p # ps)" by simp
  note facts = kmem_invD [OF inv]
  have "aligned p" "p \<noteq> 0" "refcount s (pgno p) = 0" using facts by auto
  with Cons kalloc_cons [OF inv] show ?thesis by (auto simp: memset_page_apply)
qed

theorem kalloc_fresh_page_witness:
  "\<exists>s'. kalloc one_page = Ok (0x87fff000, s') \<and> kmem_inv s' []"
  using kalloc_fresh_page [OF kmem_inv_one_page] by auto

text \<open>
  C19: \<^verbatim>\<open>kfree\<close> on every branch.  An address that is unaligned, below the end of the
  kernel or above RAM panics; freeing a page that is already free panics; giving up one of
  several references only decrements the count; giving up the last puts the page at the
  head of the free list, so that the next \<^verbatim>\<open>kalloc\<close> returns it.
\<close>

theorem kfree_cases:
  fixes s :: "'a kmem_state_scheme"
  assumes "kmem_inv s fl"
  shows "(\<not> page_ok (kend s) p \<longrightarrow> kfree p s = Panic ''kfree'') \<and>
    (p \<in> set fl \<longrightarrow> kfree p s = Panic ''kfree cow'') \<and>
    (page_ok (kend s) p \<and> 1 < sint (refcount s (pgno p)) \<longrightarrow>
       kfree p s = Ok (s\<lparr>refcount := (refcount s)(pgno p := refcount s (pgno p) - 1)\<rparr>)) \<and>
    (page_ok (kend s) p \<and> refcount s (pgno p) = 1 \<longrightarrow>
       (\<exists>s' s''. kfree p s = Ok s' \<and> kmem_inv s' (p # fl) \<and>
          kalloc s' = Ok (p, s'') \<and> kmem_inv s'' fl))"
proof (intro conjI impI)
  show "kfree p s = Panic ''kfree''" if "\<not> page_ok (kend s) p"
  proof -
    have "p mod PGSIZE \<noteq> 0 \<or> p < kend s \<or> PHYSTOP \<le> p"
      using that unfolding page_ok_def aligned_def by (metis not_less)
    then show ?thesis by (simp only: kfree_def kfree_dec_def if_True bnd_Panic)
  qed
  show "kfree p s = Panic ''kfree cow''" if "p \<in> set fl"
    using assms that by (rule kfree_free_panics)
  show "kfree p s = Ok (s\<lparr>refcount := (refcount s)(pgno p := refcount s (pgno p) - 1)\<rparr>)"
    if "page_ok (kend s) p \<and> 1 < sint (refcount s (pgno p))"
    using kfree_shared(1) [OF assms] that by blast
  show "\<exists>s' s''. kfree p s = Ok s' \<and> kmem_inv s' (p # fl) \<and> kalloc s' = Ok (p, s'') \<and> kmem_inv s'' fl"
    if "page_ok (kend s) p \<and> refcount s (pgno p) = 1"
    using kfree_last [OF assms] kalloc_cons that by blast
qed

theorem kfree_cases_witness: "kfree 0x87fff000 one_page = Panic ''kfree cow''"
  using kfree_cases [OF kmem_inv_one_page, of "0x87fff000"] by simp

text \<open>
  C20: Any \<open>n\<close> successive allocations, with \<open>n\<close> at most the number of free pages, return \<open>n\<close>
  distinct pages, and freeing them all leaves exactly the same pages free.
\<close>

theorem kalloc_many_distinct:
  fixes s :: "'a kmem_state_scheme"
  assumes "kmem_inv s fl" and "n \<le> length fl"
  shows "\<exists>ps s' s''. alloc_many kalloc n s = Ok (ps, s') \<and> distinct ps \<and> length ps = n \<and>
    set ps \<subseteq> set fl \<and> fold_res kfree ps s' = Ok s'' \<and> free_pages s'' (set fl)"
proof -
  have "free_pages s (set fl)" using assms(1) by (auto simp: free_pages_def)
  moreover have "n \<le> card (set fl)"
    using assms(2) kmem_invD(3) [OF assms(1)] by (simp add: distinct_card)
  ultimately show ?thesis by (intro pages.alloc_release_restores) auto
qed

theorem kalloc_many_distinct_witness:
  "\<exists>ps s' s''. alloc_many kalloc 1 one_page = Ok (ps, s') \<and> length ps = 1 \<and>
    fold_res kfree ps s' = Ok s'' \<and> free_pages s'' {0x87fff000}"
  using kalloc_many_distinct [OF kmem_inv_one_page, of 1] by auto

text \<open>
  C21: The test of the count in \<^verbatim>\<open>kfree\<close> is outside the lock.  When two owners of a page
  with count 2 free it and both decrements come before both tests, the page is linked twice:
  the free list points from the page to itself, and after one allocation of the page the
  next one panics.
\<close>

theorem kfree_race_links_twice:
  fixes s :: "'a kmem_state_scheme"
  assumes "kmem_inv s fl" and "page_ok (kend s) p" and "refcount s (pgno p) = 2"
  shows "\<exists>s1 s2 s3 s4. kfree_dec p s = Ok s1 \<and> kfree_dec p s1 = Ok s2 \<and>
    s3 = kfree_put p (kfree_put p s2) \<and> freelist s3 = p \<and> load64 (ram s3) p = p \<and>
    kalloc s3 = Ok (p, s4) \<and> kalloc s4 = Panic ''kalloc: ref''"
proof -
  have p: "aligned p" "kend s \<le> p" "p < PHYSTOP" using assms(2) by (auto simp: page_ok_def)
  have "p \<noteq> 0" using p(2) kmem_invD(1) [OF assms(1)] by auto
  with p assms(3) show ?thesis
    by (simp add: kfree_dec_def kfree_put_def kalloc_def Let_def aligned_def not_le not_less)
qed

theorem kfree_race_links_twice_witness:
  "\<exists>s1 s2 s4. kfree_dec 0x87fff000 (one_page\<lparr>freelist := 0, refcount := (\<lambda>_. 2)\<rparr>) = Ok s1 \<and>
    kfree_dec 0x87fff000 s1 = Ok s2 \<and>
    kalloc (kfree_put 0x87fff000 (kfree_put 0x87fff000 s2)) = Ok (0x87fff000, s4) \<and>
    kalloc s4 = Panic ''kalloc: ref''"
proof -
  let ?s = "one_page\<lparr>freelist := 0, refcount := (\<lambda>_. 2)\<rparr>"
  have "kmem_inv ?s []"
    by (simp add: kmem_inv_def kmem_inv_on_def one_page_def)
  moreover have "page_ok (kend ?s) 0x87fff000" by (simp add: one_page_def page_ok_last)
  ultimately show ?thesis using kfree_race_links_twice [of ?s "[]" "0x87fff000"] by auto
qed

end
