(* ===== verification/Kstate.thy ===== *)
theory Kstate
  imports Kalloc
begin

text \<open>
  The structures of \<^verbatim>\<open>kernel/include/proc.h\<close> and the part of the machine state they
  live in: the process table, the per-CPU structures and the page-table roots, as an
  extension of the page allocator's state.  Pointers into static tables are indices with
  \<open>None\<close> for the null pointer; a trapframe is a page of RAM and its registers are read and
  written at the byte offsets of the structure.
\<close>

section \<open>Structures\<close>

datatype procstate = UNUSED | USED | SLEEPING | RUNNABLE | RUNNING | ZOMBIE

text \<open>
  Sleep channels are addresses of kernel objects, which are only compared for equality; each
  object that is used as a channel has its own constructor.
\<close>

datatype chan = Null_chan | Ticks_chan | Proc_chan nat | Pipe_nread u64 | Pipe_nwrite u64
  | Log_chan | Inode_lock nat | Buf_lock nat | Buf_disk nat | Cons_r | Uart_tx_r | Disk_free

record spinlock =
  lk_locked :: u32
  lk_name :: string
  lk_cpu :: "nat option"

record swcontext =
  ctx_ra :: u64
  ctx_sp :: u64
  ctx_s :: "u64 list"

record trapalarm =
  ta_interval :: i32
  ta_ticks :: i32
  ta_state :: i32
  ta_handler :: u64
  ta_trapframe_cp :: "nat \<Rightarrow> u8"

record proc =
  p_lock :: spinlock
  p_state :: procstate
  p_chan :: chan
  p_killed :: i32
  p_xstate :: i32
  p_pid :: i32
  p_parent :: "nat option"
  p_kstack :: u64
  p_sz :: u64
  p_pagetable :: u64
  p_trapframe :: u64
  p_context :: swcontext
  p_ofile :: "nat \<Rightarrow> nat option"
  p_cwd :: "nat option"
  p_name :: "nat \<Rightarrow> u8"
  p_mask :: i32
  p_kerntable :: u64
  p_trapalarm :: trapalarm

record cpu =
  c_proc :: "nat option"
  c_context :: swcontext
  c_noff :: i32
  c_intena :: i32

text \<open>
  \<open>etext\<close> and \<open>trampoline\<close> are symbols of the linker script, \<open>hart\<close> is the register
  \<^verbatim>\<open>tp\<close> of the hart that executes the operation, \<open>sie\<close> the interrupt-enable bit and
  \<open>regs\<close> the callee-saved registers and \<open>satp\<close> the page-table register of each hart, and \<open>ptable\<close> is the array \<^verbatim>\<open>proc\<close>.
\<close>

record kernel_state = kmem_state +
  etext :: u64
  trampoline :: u64
  kernel_pagetable :: u64
  ptable :: "nat \<Rightarrow> proc"
  cpus :: "nat \<Rightarrow> cpu"
  hart :: nat
  sie :: "nat \<Rightarrow> bool"
  regs :: "nat \<Rightarrow> swcontext"
  satp :: "nat \<Rightarrow> u64"
  initproc :: "nat option"
  nextpid :: i32
  ticks :: u32

abbreviation (input) NPROC :: nat where "NPROC \<equiv> 64"
abbreviation (input) NCPU :: nat where "NCPU \<equiv> 8"
abbreviation (input) NOFILE :: nat where "NOFILE \<equiv> 16"

section \<open>The current process\<close>

definition cpuid :: "'a kernel_state_scheme \<Rightarrow> nat" where
  "cpuid s = hart s"

definition mycpu :: "'a kernel_state_scheme \<Rightarrow> cpu" where
  "mycpu s = cpus s (cpuid s)"

text \<open>
  \<^verbatim>\<open>myproc\<close> reads the process between \<^verbatim>\<open>push_off\<close> and \<^verbatim>\<open>pop_off\<close>, which
  leave the state as it was.
\<close>

definition myproc :: "'a kernel_state_scheme \<Rightarrow> nat option" where
  "myproc s = c_proc (mycpu s)"

text \<open>A load or store through the null pointer traps in the kernel, which panics.\<close>

definition deref :: "'p option \<Rightarrow> ('p \<Rightarrow> 'b res) \<Rightarrow> 'b res" where
  "deref p k = (case p of None \<Rightarrow> Panic ''kerneltrap'' | Some q \<Rightarrow> k q)"

definition deref_pa :: "u64 \<Rightarrow> 'b res \<Rightarrow> 'b res" where
  "deref_pa p k = (if p = 0 then Panic ''kerneltrap'' else k)"

lemma deref_Some [simp, res_simps]: "deref (Some p) k = k p"
  by (simp add: deref_def)

lemma deref_None [simp, res_simps]: "deref None k = Panic ''kerneltrap''"
  by (simp add: deref_def)

lemma deref_eq_OkE:
  assumes "deref p k = Ok x"
  obtains q where "p = Some q" and "k q = Ok x"
  using assms by (auto simp: deref_def split: option.splits)

lemma deref_pa_simps [simp, res_simps]:
  "deref_pa 0 k = Panic ''kerneltrap''"
  "p \<noteq> 0 \<Longrightarrow> deref_pa p k = k"
  by (simp_all add: deref_pa_def)

definition upd_proc :: "nat \<Rightarrow> (proc \<Rightarrow> proc) \<Rightarrow> 'a kernel_state_scheme \<Rightarrow> 'a kernel_state_scheme" where
  "upd_proc i f s = s\<lparr>ptable := (ptable s)(i := f (ptable s i))\<rparr>"

lemma upd_proc_simps [simp]:
  "ptable (upd_proc i f s) = (ptable s)(i := f (ptable s i))"
  "cpus (upd_proc i f s) = cpus s" "hart (upd_proc i f s) = hart s"
  "sie (upd_proc i f s) = sie s" "regs (upd_proc i f s) = regs s"
  "satp (upd_proc i f s) = satp s"
  "initproc (upd_proc i f s) = initproc s" "nextpid (upd_proc i f s) = nextpid s"
  "ticks (upd_proc i f s) = ticks s" "ram (upd_proc i f s) = ram s"
  "kend (upd_proc i f s) = kend s" "freelist (upd_proc i f s) = freelist s"
  "refcount (upd_proc i f s) = refcount s" "etext (upd_proc i f s) = etext s"
  "trampoline (upd_proc i f s) = trampoline s"
  "kernel_pagetable (upd_proc i f s) = kernel_pagetable s"
  "kernel_state.more (upd_proc i f s) = kernel_state.more s"
  "myproc (upd_proc i f s) = myproc s"
  by (simp_all add: upd_proc_def myproc_def mycpu_def cpuid_def)

section \<open>The trapframe\<close>

text \<open>The offsets of the registers that the kernel's C code uses.\<close>

abbreviation (input) TF_kernel_satp :: u64 where "TF_kernel_satp \<equiv> 0"
abbreviation (input) TF_kernel_sp :: u64 where "TF_kernel_sp \<equiv> 8"
abbreviation (input) TF_kernel_trap :: u64 where "TF_kernel_trap \<equiv> 16"
abbreviation (input) TF_epc :: u64 where "TF_epc \<equiv> 24"
abbreviation (input) TF_kernel_hartid :: u64 where "TF_kernel_hartid \<equiv> 32"
abbreviation (input) TF_sp :: u64 where "TF_sp \<equiv> 48"
abbreviation (input) TF_a0 :: u64 where "TF_a0 \<equiv> 112"
abbreviation (input) TF_a1 :: u64 where "TF_a1 \<equiv> 120"
abbreviation (input) TF_a2 :: u64 where "TF_a2 \<equiv> 128"
abbreviation (input) TF_a3 :: u64 where "TF_a3 \<equiv> 136"
abbreviation (input) TF_a4 :: u64 where "TF_a4 \<equiv> 144"
abbreviation (input) TF_a5 :: u64 where "TF_a5 \<equiv> 152"
abbreviation (input) TF_a7 :: u64 where "TF_a7 \<equiv> 168"
abbreviation (input) TF_size :: nat where "TF_size \<equiv> 288"

definition tf_get :: "u64 \<Rightarrow> nat \<Rightarrow> 'a kernel_state_scheme \<Rightarrow> u64" where
  "tf_get off i s = load64 (ram s) (p_trapframe (ptable s i) + off)"

definition tf_set :: "u64 \<Rightarrow> u64 \<Rightarrow> nat \<Rightarrow> 'a kernel_state_scheme \<Rightarrow> 'a kernel_state_scheme" where
  "tf_set off v i s = s\<lparr>ram := store64 (ram s) (p_trapframe (ptable s i) + off) v\<rparr>"

end
