(* ===== verification/Spinlock.thy ===== *)
theory Spinlock
  imports Kstate
begin

text \<open>
  Spin locks, \<^verbatim>\<open>kernel/spinlock.c\<close>: the interrupt nesting of \<^verbatim>\<open>push_off\<close> and
  \<^verbatim>\<open>pop_off\<close>, the lock operations, and the system of harts that compete for one lock, as
  interleaved steps.
\<close>

section \<open>Interrupts\<close>

definition intr_get :: "'a kernel_state_scheme \<Rightarrow> bool" where
  "intr_get s = sie s (cpuid s)"

definition intr_on :: "'a kernel_state_scheme \<Rightarrow> 'a kernel_state_scheme" where
  "intr_on s = s\<lparr>sie := (sie s)(cpuid s := True)\<rparr>"

definition intr_off :: "'a kernel_state_scheme \<Rightarrow> 'a kernel_state_scheme" where
  "intr_off s = s\<lparr>sie := (sie s)(cpuid s := False)\<rparr>"

definition set_mycpu :: "cpu \<Rightarrow> 'a kernel_state_scheme \<Rightarrow> 'a kernel_state_scheme" where
  "set_mycpu c s = s\<lparr>cpus := (cpus s)(cpuid s := c)\<rparr>"

definition push_off :: "'a kernel_state_scheme \<Rightarrow> 'a kernel_state_scheme" where
  "push_off s =
     (let old = intr_get s;
          s = intr_off s;
          s = (if c_noff (mycpu s) = 0 then set_mycpu ((mycpu s)\<lparr>c_intena := of_bool old\<rparr>) s else s)
      in set_mycpu ((mycpu s)\<lparr>c_noff := c_noff (mycpu s) + 1\<rparr>) s)"

definition pop_off :: "'a kernel_state_scheme \<Rightarrow> 'a kernel_state_scheme res" where
  "pop_off s =
     (if intr_get s then Panic ''pop_off - interruptible''
      else if sint (c_noff (mycpu s)) < 1 then Panic ''pop_off''
      else let s = set_mycpu ((mycpu s)\<lparr>c_noff := c_noff (mycpu s) - 1\<rparr>) s
           in Ok (if c_noff (mycpu s) = 0 \<and> c_intena (mycpu s) \<noteq> 0 then intr_on s else s))"

section \<open>The lock\<close>

definition initlock :: "string \<Rightarrow> spinlock" where
  "initlock name = \<lparr>lk_locked = 0, lk_name = name, lk_cpu = None\<rparr>"

definition holding :: "spinlock \<Rightarrow> 'a kernel_state_scheme \<Rightarrow> bool" where
  "holding lk s \<longleftrightarrow> lk_locked lk \<noteq> 0 \<and> lk_cpu lk = Some (cpuid s)"

text \<open>The atomic swap of \<^verbatim>\<open>__sync_lock_test_and_set\<close>: the old value and the lock set.\<close>

definition test_and_set :: "spinlock \<Rightarrow> u32 \<times> spinlock" where
  "test_and_set lk = (lk_locked lk, lk\<lparr>lk_locked := 1\<rparr>)"

text \<open>The lock as seen by one hart: it spins as long as the lock is held elsewhere.\<close>

definition acquire :: "spinlock \<Rightarrow> 'a kernel_state_scheme \<Rightarrow> (spinlock \<times> 'a kernel_state_scheme) res" where
  "acquire lk s =
     (let s = push_off s
      in if holding lk s then Panic ''acquire''
         else case test_and_set lk of (old, lk) \<Rightarrow>
           if old \<noteq> 0 then Waits ''spinlock'' else Ok (lk\<lparr>lk_cpu := Some (cpuid s)\<rparr>, s))"

definition release :: "spinlock \<Rightarrow> 'a kernel_state_scheme \<Rightarrow> (spinlock \<times> 'a kernel_state_scheme) res" where
  "release lk s =
     (if \<not> holding lk s then Panic ''release''
      else let lk = lk\<lparr>lk_cpu := None\<rparr>; lk = lk\<lparr>lk_locked := 0\<rparr>
           in bnd (pop_off s) (\<lambda>s. Ok (lk, s)))"

section \<open>Nesting of interrupt-disabled sections\<close>

text \<open>
  A hart's nesting depth is between 0 and the largest the counter can still grow from, and
  interrupts are off inside a section.
\<close>

definition nest_ok :: "nat \<Rightarrow> 'a kernel_state_scheme \<Rightarrow> bool" where
  "nest_ok k s \<longleftrightarrow> 0 \<le> sint (c_noff (mycpu s)) \<and> sint (c_noff (mycpu s)) + int k < 2147483648 \<and>
     (0 < sint (c_noff (mycpu s)) \<longrightarrow> \<not> intr_get s)"

text \<open>What a matched section leaves behind: the saved enable bit of the outermost section.\<close>

definition saved_intena :: "'a kernel_state_scheme \<Rightarrow> 'a kernel_state_scheme" where
  "saved_intena s =
     (if c_noff (mycpu s) = 0 then set_mycpu ((mycpu s)\<lparr>c_intena := of_bool (intr_get s)\<rparr>) s else s)"

lemmas cpu_defs = intr_get_def intr_on_def intr_off_def set_mycpu_def mycpu_def cpuid_def

lemma sint_inc: "sint x < 2147483647 \<Longrightarrow> sint (x + 1) = sint x + 1" for x :: i32
proof -
  assume lt: "sint x < 2147483647"
  have "- 2147483648 \<le> sint x" using sint_ge [of x] by simp
  with lt show ?thesis by (simp add: sint_word_ariths(1) signed_take_bit_int_eq_self)
qed

lemma sint_0_iff: "sint x = 0 \<longleftrightarrow> x = 0" for x :: i32
  by (metis signed_0 signed_word_eqI)

lemma push_off_eq:
  "push_off s = s\<lparr>sie := (sie s)(hart s := False),
     cpus := (cpus s)(hart s := (cpus s (hart s))\<lparr>
       c_intena := (if c_noff (cpus s (hart s)) = 0 then of_bool (sie s (hart s))
                    else c_intena (cpus s (hart s))),
       c_noff := c_noff (cpus s (hart s)) + 1\<rparr>)\<rparr>"
  by (simp add: push_off_def Let_def cpu_defs)

lemma saved_intena_eq:
  "saved_intena s = s\<lparr>cpus := (cpus s)(hart s := (cpus s (hart s))\<lparr>
       c_intena := (if c_noff (cpus s (hart s)) = 0 then of_bool (sie s (hart s))
                    else c_intena (cpus s (hart s)))\<rparr>)\<rparr>"
  by (simp add: saved_intena_def cpu_defs)

lemma push_off_fields:
  assumes "nest_ok (Suc k) s"
  shows "nest_ok k (push_off s)" and "\<not> intr_get (push_off s)" and "cpuid (push_off s) = cpuid s"
    and "sint (c_noff (mycpu (push_off s))) = sint (c_noff (mycpu s)) + 1"
proof -
  have noff: "c_noff (mycpu (push_off s)) = c_noff (mycpu s) + 1"
    by (simp add: push_off_eq cpu_defs)
  show off: "\<not> intr_get (push_off s)" by (simp add: push_off_eq cpu_defs)
  show "cpuid (push_off s) = cpuid s" by (simp add: push_off_eq cpu_defs)
  show one: "sint (c_noff (mycpu (push_off s))) = sint (c_noff (mycpu s)) + 1"
    using assms noff by (simp add: nest_ok_def sint_inc)
  show "nest_ok k (push_off s)" using assms off one by (simp add: nest_ok_def)
qed

lemma noff_unchanged: "c_noff c = n \<Longrightarrow> c\<lparr>c_intena := x, c_noff := n\<rparr> = c\<lparr>c_intena := x\<rparr>" for c :: cpu
  by (cases c) simp

lemma pop_push:
  assumes ok: "nest_ok 1 s"
  shows "pop_off (push_off s) = Ok (saved_intena s)"
proof -
  let ?c = "cpus s (hart s)"
  have "\<not> sint (c_noff ?c + 1) < 1" using ok by (simp add: nest_ok_def cpu_defs sint_inc)
  moreover have off: "sie s (hart s) \<Longrightarrow> c_noff ?c = 0"
    using ok by (auto simp: nest_ok_def cpu_defs order_le_less simp flip: sint_0_iff)
  moreover have "(sie s)(hart s := sie s (hart s)) = sie s" by simp
  ultimately show ?thesis
    by (cases "sie s (hart s)") (simp_all add: pop_off_def push_off_eq saved_intena_eq Let_def cpu_defs noff_unchanged)
qed

fun nested_off :: "nat \<Rightarrow> 'a kernel_state_scheme \<Rightarrow> 'a kernel_state_scheme" where
  "nested_off 0 s = s"
| "nested_off (Suc k) s = nested_off k (push_off s)"

fun nested_pop :: "nat \<Rightarrow> 'a kernel_state_scheme \<Rightarrow> 'a kernel_state_scheme res" where
  "nested_pop 0 s = Ok s"
| "nested_pop (Suc k) s = bnd (pop_off s) (nested_pop k)"

lemma nested_pop_Suc: "nested_pop (Suc k) s = bnd (nested_pop k s) pop_off"
proof (induction k arbitrary: s)
  case (Suc k)
  have "nested_pop (Suc (Suc k)) s = bnd (pop_off s) (nested_pop (Suc k))" by simp
  also have "\<dots> = bnd (pop_off s) (\<lambda>t. bnd (nested_pop k t) pop_off)"
    using Suc by (intro bnd_cong) simp_all
  finally show ?case by (simp add: bnd_assoc)
next
  case 0
  show ?case by (cases "pop_off s") simp_all
qed

lemma saved_intena_push: "nest_ok 1 s \<Longrightarrow> saved_intena (push_off s) = push_off s"
proof -
  assume "nest_ok 1 s"
  then have "0 < sint (c_noff (mycpu (push_off s)))"
    using push_off_fields(4) [of 0 s] by (simp add: nest_ok_def)
  then have "c_noff (mycpu (push_off s)) \<noteq> 0" by auto
  then show ?thesis by (simp add: saved_intena_def)
qed

lemma nest_ok_mono: "nest_ok k s \<Longrightarrow> j \<le> k \<Longrightarrow> nest_ok j s"
  by (auto simp: nest_ok_def)

lemma nested_restores:
  "nest_ok (Suc k) s \<Longrightarrow> nested_pop (Suc k) (nested_off (Suc k) s) = Ok (saved_intena s)"
proof (induction k arbitrary: s)
  case 0
  then show ?case using pop_push [of s] by simp
next
  case (Suc k)
  have p: "nest_ok (Suc k) (push_off s)" by (rule push_off_fields(1) [OF Suc.prems])
  have one: "nest_ok 1 s" by (rule nest_ok_mono [OF Suc.prems]) simp
  have "nested_pop (Suc (Suc k)) (nested_off (Suc (Suc k)) s) =
      bnd (nested_pop (Suc k) (nested_off (Suc k) (push_off s))) pop_off"
    by (subst nested_pop_Suc) simp
  also have "\<dots> = Ok (saved_intena s)"
    using Suc.IH [OF p] saved_intena_push [OF one] pop_push [OF one] by simp
  finally show ?case .
qed

section \<open>Harts competing for a lock\<close>

text \<open>
  Each hart calls \<^verbatim>\<open>acquire\<close> and \<^verbatim>\<open>release\<close> alternately; the steps of different harts
  interleave.  The program counter tells how far the hart is in the two functions: after
  \<^verbatim>\<open>push_off\<close> and the check (\<open>Spin\<close>), after the successful swap (\<open>Got\<close>), in the critical
  section (\<open>Crit\<close>), and after clearing \<^verbatim>\<open>lk->cpu\<close> in \<^verbatim>\<open>release\<close> (\<open>Rel\<close>).  \<open>Stuck\<close> is a
  panic.
\<close>

datatype pc = Out | Spin | Got | Crit | Rel | Stuck

record lock_sys =
  sys_lk :: spinlock
  sys_pc :: "nat \<Rightarrow> pc"
  sys_k :: kernel_state

definition at_hart :: "nat \<Rightarrow> lock_sys \<Rightarrow> kernel_state" where
  "at_hart h S = (sys_k S)\<lparr>hart := h\<rparr>"

definition goto :: "nat \<Rightarrow> pc \<Rightarrow> lock_sys \<Rightarrow> lock_sys" where
  "goto h p S = S\<lparr>sys_pc := (sys_pc S)(h := p)\<rparr>"

definition acquire_enter :: "nat \<Rightarrow> lock_sys \<Rightarrow> lock_sys" where
  "acquire_enter h S =
     (let k = push_off (at_hart h S)
      in goto h (if holding (sys_lk S) k then Stuck else Spin) (S\<lparr>sys_k := k\<rparr>))"

definition acquire_swap :: "nat \<Rightarrow> lock_sys \<Rightarrow> lock_sys" where
  "acquire_swap h S =
     (case test_and_set (sys_lk S) of (old, lk) \<Rightarrow>
        goto h (if old \<noteq> 0 then Spin else Got) (S\<lparr>sys_lk := lk\<rparr>))"

definition acquire_done :: "nat \<Rightarrow> lock_sys \<Rightarrow> lock_sys" where
  "acquire_done h S = goto h Crit (S\<lparr>sys_lk := (sys_lk S)\<lparr>lk_cpu := Some (cpuid (at_hart h S))\<rparr>\<rparr>)"

definition release_enter :: "nat \<Rightarrow> lock_sys \<Rightarrow> lock_sys" where
  "release_enter h S =
     (if \<not> holding (sys_lk S) (at_hart h S) then goto h Stuck S
      else goto h Rel (S\<lparr>sys_lk := (sys_lk S)\<lparr>lk_cpu := None\<rparr>\<rparr>))"

definition release_done :: "nat \<Rightarrow> lock_sys \<Rightarrow> lock_sys" where
  "release_done h S =
     (let S = S\<lparr>sys_lk := (sys_lk S)\<lparr>lk_locked := 0\<rparr>\<rparr>
      in case pop_off (at_hart h S) of Ok k \<Rightarrow> goto h Out (S\<lparr>sys_k := k\<rparr>) | _ \<Rightarrow> goto h Stuck S)"

inductive lock_step :: "lock_sys \<Rightarrow> lock_sys \<Rightarrow> bool" where
  enter: "sys_pc S h = Out \<Longrightarrow> lock_step S (acquire_enter h S)"
| swap: "sys_pc S h = Spin \<Longrightarrow> lock_step S (acquire_swap h S)"
| got: "sys_pc S h = Got \<Longrightarrow> lock_step S (acquire_done h S)"
| leave: "sys_pc S h = Crit \<Longrightarrow> lock_step S (release_enter h S)"
| unlock: "sys_pc S h = Rel \<Longrightarrow> lock_step S (release_done h S)"

definition owner :: "pc \<Rightarrow> bool" where
  "owner p \<longleftrightarrow> p = Got \<or> p = Crit \<or> p = Rel"

definition lock_inv :: "lock_sys \<Rightarrow> bool" where
  "lock_inv S \<longleftrightarrow>
     (\<forall>h h'. owner (sys_pc S h) \<longrightarrow> owner (sys_pc S h') \<longrightarrow> h = h') \<and>
     (lk_locked (sys_lk S) \<noteq> 0 \<longleftrightarrow> (\<exists>h. owner (sys_pc S h))) \<and>
     (\<forall>h. lk_cpu (sys_lk S) = Some h \<longleftrightarrow> sys_pc S h = Crit) \<and>
     (\<forall>h. sys_pc S h \<noteq> Stuck) \<and>
     (\<forall>h. c_noff (cpus (sys_k S) h) = (if sys_pc S h = Out then 0 else 1)) \<and>
     (\<forall>h. sys_pc S h \<noteq> Out \<longrightarrow> \<not> sie (sys_k S) h)"

inductive lock_reach :: "lock_sys \<Rightarrow> lock_sys \<Rightarrow> bool" for S0 where
  init: "lock_reach S0 S0"
| step: "lock_reach S0 S \<Longrightarrow> lock_step S S' \<Longrightarrow> lock_reach S0 S'"

lemma lock_invD:
  assumes "lock_inv S"
  shows "\<And>h h'. owner (sys_pc S h) \<Longrightarrow> owner (sys_pc S h') \<Longrightarrow> h = h'"
    and "lk_locked (sys_lk S) \<noteq> 0 \<longleftrightarrow> (\<exists>h. owner (sys_pc S h))"
    and "\<And>h. lk_cpu (sys_lk S) = Some h \<longleftrightarrow> sys_pc S h = Crit"
    and "\<And>h. sys_pc S h \<noteq> Stuck"
    and "\<And>h. c_noff (cpus (sys_k S) h) = (if sys_pc S h = Out then 0 else 1)"
    and "\<And>h. sys_pc S h \<noteq> Out \<Longrightarrow> \<not> sie (sys_k S) h"
  using assms unfolding lock_inv_def by blast+

lemmas lock_step_defs = acquire_enter_def acquire_swap_def acquire_done_def release_enter_def
  release_done_def goto_def at_hart_def test_and_set_def holding_def Let_def cpuid_def

lemma enter_inv:
  assumes "lock_inv S" and "sys_pc S h = Out"
  shows "lock_inv (acquire_enter h S)"
proof -
  note inv = lock_invD [OF assms(1)]
  have "lk_cpu (sys_lk S) \<noteq> Some h" using inv(3) assms(2) by simp
  then have S: "acquire_enter h S = goto h Spin (S\<lparr>sys_k := push_off (at_hart h S)\<rparr>)"
    by (simp add: acquire_enter_def holding_def push_off_eq at_hart_def cpuid_def Let_def)
  have "owner (sys_pc (acquire_enter h S) h') \<longleftrightarrow> owner (sys_pc S h')" for h'
    using assms(2) by (simp add: S goto_def owner_def)
  then show ?thesis using inv assms(2)
    unfolding lock_inv_def by (auto simp: S goto_def at_hart_def push_off_eq split: if_splits)
qed

lemma swap_inv:
  assumes "lock_inv S" and "sys_pc S h = Spin"
  shows "lock_inv (acquire_swap h S)"
proof -
  note inv = lock_invD [OF assms(1)]
  show ?thesis
  proof (cases "lk_locked (sys_lk S) = 0")
    case True
    then have "\<not> owner (sys_pc S h')" for h' using inv(2) by blast
    then show ?thesis using inv assms(2) True unfolding lock_inv_def
      by (auto simp: acquire_swap_def test_and_set_def goto_def owner_def)
  next
    case False
    then have "acquire_swap h S = S\<lparr>sys_lk := (sys_lk S)\<lparr>lk_locked := 1\<rparr>\<rparr>"
      using assms(2) by (simp add: acquire_swap_def test_and_set_def goto_def fun_upd_idem)
    then show ?thesis using inv False unfolding lock_inv_def by auto
  qed
qed

lemma got_inv:
  assumes "lock_inv S" and "sys_pc S h = Got"
  shows "lock_inv (acquire_done h S)"
proof -
  note inv = lock_invD [OF assms(1)]
  have S: "acquire_done h S = goto h Crit (S\<lparr>sys_lk := (sys_lk S)\<lparr>lk_cpu := Some h\<rparr>\<rparr>)"
    by (simp add: acquire_done_def at_hart_def cpuid_def)
  have "sys_pc S h' \<noteq> Crit" for h' using inv(1) [of h h'] assms(2) by (auto simp: owner_def)
  moreover have "owner (sys_pc (acquire_done h S) h') \<longleftrightarrow> owner (sys_pc S h')" for h'
    using assms(2) by (simp add: S goto_def owner_def)
  ultimately show ?thesis using inv assms(2) unfolding lock_inv_def
    by (auto simp: S goto_def split: if_splits)
qed

lemma lock_invI:
  assumes "\<And>h h'. owner (sys_pc S h) \<Longrightarrow> owner (sys_pc S h') \<Longrightarrow> h = h'"
    and "lk_locked (sys_lk S) \<noteq> 0 \<longleftrightarrow> (\<exists>h. owner (sys_pc S h))"
    and "\<And>h. lk_cpu (sys_lk S) = Some h \<longleftrightarrow> sys_pc S h = Crit"
    and "\<And>h. sys_pc S h \<noteq> Stuck"
    and "\<And>h. c_noff (cpus (sys_k S) h) = (if sys_pc S h = Out then 0 else 1)"
    and "\<And>h. sys_pc S h \<noteq> Out \<Longrightarrow> \<not> sie (sys_k S) h"
  shows "lock_inv S"
  using assms unfolding lock_inv_def by blast

lemma leave_inv:
  assumes "lock_inv S" and "sys_pc S h = Crit"
  shows "lock_inv (release_enter h S)"
proof -
  let ?S = "release_enter h S"
  note inv = lock_invD [OF assms(1)]
  have "lk_locked (sys_lk S) \<noteq> 0" "lk_cpu (sys_lk S) = Some h"
    using inv(2,3) assms(2) by (auto simp: owner_def)
  then have S: "?S = goto h Rel (S\<lparr>sys_lk := (sys_lk S)\<lparr>lk_cpu := None\<rparr>\<rparr>)"
    by (simp add: release_enter_def holding_def at_hart_def cpuid_def)
  have only: "h' = h" if "sys_pc S h' = Crit" for h'
    using inv(1) [of h h'] assms(2) that by (auto simp: owner_def)
  have pc: "sys_pc ?S h' = (if h' = h then Rel else sys_pc S h')" for h'
    by (simp add: S goto_def)
  have own: "owner (sys_pc ?S h') \<longleftrightarrow> owner (sys_pc S h')" for h'
    using assms(2) by (simp add: pc owner_def)
  have same: "sys_k ?S = sys_k S" "lk_cpu (sys_lk ?S) = None" "lk_locked (sys_lk ?S) = lk_locked (sys_lk S)"
    by (simp_all add: S goto_def)
  show ?thesis
  proof (rule lock_invI, unfold own same)
    show "None = Some h' \<longleftrightarrow> sys_pc ?S h' = Crit" for h' using only [of h'] by (auto simp: pc)
    show "sys_pc ?S h' \<noteq> Stuck" for h' using inv(4) by (simp add: pc)
    show "c_noff (cpus (sys_k S) h') = (if sys_pc ?S h' = Out then 0 else 1)" for h'
      using inv(5) [of h'] assms(2) by (simp add: pc)
    show "\<not> sie (sys_k S) h'" if "sys_pc ?S h' \<noteq> Out" for h'
      using inv(6) [of h'] assms(2) that by (cases "h' = h") (simp_all add: pc)
  qed (rule inv(1), assumption+, rule inv(2))
qed

lemma unlock_inv:
  assumes "lock_inv S" and "sys_pc S h = Rel"
  shows "lock_inv (release_done h S)"
proof -
  let ?S = "release_done h S"
  note inv = lock_invD [OF assms(1)]
  have noff: "c_noff (cpus (sys_k S) h) = 1" "\<not> sie (sys_k S) h" using inv(5,6) [of h] assms(2) by auto
  obtain k where k: "pop_off (at_hart h (S\<lparr>sys_lk := (sys_lk S)\<lparr>lk_locked := 0\<rparr>\<rparr>)) = Ok k"
    "\<And>h'. c_noff (cpus k h') = (if h' = h then 0 else c_noff (cpus (sys_k S) h'))"
    "\<And>h'. h' \<noteq> h \<Longrightarrow> sie k h' = sie (sys_k S) h'"
    using noff by (auto simp: pop_off_def at_hart_def cpu_defs Let_def)
  then have S: "?S = goto h Out (S\<lparr>sys_lk := (sys_lk S)\<lparr>lk_locked := 0\<rparr>, sys_k := k\<rparr>)"
    by (simp add: release_done_def Let_def)
  have pc: "sys_pc ?S h' = (if h' = h then Out else sys_pc S h')" for h' by (simp add: S goto_def)
  have own: "\<not> owner (sys_pc ?S h')" for h'
    using inv(1) [of h h'] assms(2) by (auto simp: pc owner_def)
  have same: "sys_k ?S = k" "lk_cpu (sys_lk ?S) = lk_cpu (sys_lk S)" "lk_locked (sys_lk ?S) = 0"
    by (simp_all add: S goto_def)
  show ?thesis
  proof (rule lock_invI, unfold same)
    show "lk_cpu (sys_lk S) = Some h' \<longleftrightarrow> sys_pc ?S h' = Crit" for h'
      using inv(3) [of h'] assms(2) by (simp add: pc)
    show "sys_pc ?S h' \<noteq> Stuck" for h' using inv(4) by (simp add: pc)
    show "c_noff (cpus k h') = (if sys_pc ?S h' = Out then 0 else 1)" for h'
      using inv(5) [of h'] k(2) by (simp add: pc)
    show "\<not> sie k h'" if "sys_pc ?S h' \<noteq> Out" for h'
      using inv(6) [of h'] k(3) that by (cases "h' = h") (simp_all add: pc)
  qed (use own in auto)
qed

lemma lock_step_inv: "lock_step S S' \<Longrightarrow> lock_inv S \<Longrightarrow> lock_inv S'"
  by (induction rule: lock_step.induct) (auto intro: enter_inv swap_inv got_inv leave_inv unlock_inv)

lemma lock_reach_inv: "lock_reach S0 S \<Longrightarrow> lock_inv S0 \<Longrightarrow> lock_inv S"
  by (induction rule: lock_reach.induct) (auto intro: lock_step_inv)

section \<open>Properties\<close>

text \<open>The locked section as one step: acquiring a free lock and releasing it.\<close>

lemma acquire_release:
  assumes "lk_locked lk = 0" and "lk_cpu lk = None" and "nest_ok 1 s"
  shows "\<exists>lk' s'. acquire lk s = Ok (lk', s') \<and> release lk' s' = Ok (lk, saved_intena s)"
proof -
  have "release (lk\<lparr>lk_locked := 1, lk_cpu := Some (cpuid (push_off s))\<rparr>) (push_off s) =
      Ok (lk\<lparr>lk_cpu := None, lk_locked := 0\<rparr>, saved_intena s)"
    using pop_push [OF assms(3)] by (simp add: release_def holding_def Let_def)
  moreover have "lk\<lparr>lk_cpu := None, lk_locked := 0\<rparr> = lk" using assms by (cases lk) simp
  ultimately show ?thesis
    using assms by (simp add: acquire_def holding_def test_and_set_def Let_def)
qed

text \<open>
  C24: Any number of nested interrupt-disabled sections: after \<open>n\<close> calls of
  \<^verbatim>\<open>push_off\<close> and \<open>n\<close> calls of \<^verbatim>\<open>pop_off\<close> no call has panicked, and the enable bit and
  the nesting depth of the hart are what they were.
\<close>

theorem push_off_pop_off_matched:
  fixes s :: "'a kernel_state_scheme"
  assumes "nest_ok (Suc k) s"
  shows "\<exists>s'. nested_pop (Suc k) (nested_off (Suc k) s) = Ok s' \<and> sie s' = sie s \<and>
    (\<forall>h. c_noff (cpus s' h) = c_noff (cpus s h))"
  using nested_restores [OF assms] by (simp add: saved_intena_def set_mycpu_def mycpu_def)

definition idle_cpu :: cpu where
  "idle_cpu = \<lparr>c_proc = None, c_context = \<lparr>ctx_ra = 0, ctx_sp = 0, ctx_s = []\<rparr>, c_noff = 0, c_intena = 0\<rparr>"

definition idle_proc :: proc where
  "idle_proc = \<lparr>p_lock = initlock ''proc'', p_state = UNUSED, p_chan = Null_chan, p_killed = 0, p_xstate = 0,
     p_pid = 0, p_parent = None, p_kstack = 0, p_sz = 0, p_pagetable = 0, p_trapframe = 0,
     p_context = \<lparr>ctx_ra = 0, ctx_sp = 0, ctx_s = []\<rparr>, p_ofile = (\<lambda>_. None), p_cwd = None, p_name = (\<lambda>_. 0),
     p_mask = 0, p_kerntable = 0,
     p_trapalarm = \<lparr>ta_interval = 0, ta_ticks = 0, ta_state = 0, ta_handler = 0, ta_trapframe_cp = (\<lambda>_. 0)\<rparr>\<rparr>"

text \<open>The machine before the first process, for the witnesses.\<close>

definition boot_state :: kernel_state where
  "boot_state = \<lparr>kend = 0x87fff000, ram = (\<lambda>_. 0), freelist = 0, refcount = (\<lambda>_. 0),
     etext = 0x80008000, trampoline = 0x80007000, kernel_pagetable = 0, ptable = (\<lambda>_. idle_proc),
     cpus = (\<lambda>_. idle_cpu), hart = 0, sie = (\<lambda>_. True), regs = (\<lambda>_. \<lparr>ctx_ra = 0, ctx_sp = 0, ctx_s = []\<rparr>),
     satp = (\<lambda>_. 0), initproc = None, nextpid = 1, ticks = 0\<rparr>"

lemmas boot_state_zero [zero_simps] = boot_state_def idle_proc_def idle_cpu_def

lemma nest_ok_boot: "nest_ok 5 boot_state"
  by (simp add: nest_ok_def boot_state_def mycpu_def idle_cpu_def)

theorem push_off_pop_off_matched_witness:
  "\<exists>s'. nested_pop 5 (nested_off 5 boot_state) = Ok s' \<and> sie s' = sie boot_state"
  using push_off_pop_off_matched [of 4 boot_state] nest_ok_boot by auto


definition boot_locks :: lock_sys where
  "boot_locks = \<lparr>sys_lk = initlock ''kmem'', sys_pc = (\<lambda>_. Out), sys_k = boot_state\<rparr>"


end
