(* ===== verification/Vm.thy ===== *)
theory Vm
  imports Kstate
begin

text \<open>
  Virtual memory, \<^verbatim>\<open>kernel/vm.c\<close>: the three-level Sv39 page tables in RAM, the
  operations that build, copy and tear down address spaces, and the copies between kernel
  and user memory.
\<close>

section \<open>Page-table entries\<close>

abbreviation (input) PTE_V :: u64 where "PTE_V \<equiv> 1"
abbreviation (input) PTE_R :: u64 where "PTE_R \<equiv> 2"
abbreviation (input) PTE_W :: u64 where "PTE_W \<equiv> 4"
abbreviation (input) PTE_X :: u64 where "PTE_X \<equiv> 8"
abbreviation (input) PTE_U :: u64 where "PTE_U \<equiv> 16"
abbreviation (input) MAXVA :: u64 where "MAXVA \<equiv> 0x4000000000"
abbreviation (input) TRAMPOLINE :: u64 where "TRAMPOLINE \<equiv> 0x3ffffff000"
abbreviation (input) TRAPFRAME :: u64 where "TRAPFRAME \<equiv> 0x3fffffe000"
abbreviation (input) UART0 :: u64 where "UART0 \<equiv> 0x10000000"
abbreviation (input) VIRTIO0 :: u64 where "VIRTIO0 \<equiv> 0x10001000"
abbreviation (input) PLIC :: u64 where "PLIC \<equiv> 0x0c000000"
abbreviation (input) CLINT :: u64 where "CLINT \<equiv> 0x2000000"

definition KSTACK :: "nat \<Rightarrow> u64" where
  "KSTACK p = TRAMPOLINE - (of_nat p + 1) * 2 * PGSIZE"

definition PA2PTE :: "u64 \<Rightarrow> u64" where
  "PA2PTE pa = push_bit 10 (drop_bit 12 pa)"

definition PTE2PA :: "u64 \<Rightarrow> u64" where
  "PTE2PA pte = push_bit 12 (drop_bit 10 pte)"

definition PTE_FLAGS :: "u64 \<Rightarrow> u64" where
  "PTE_FLAGS pte = pte AND 0x3FF"

definition PX :: "nat \<Rightarrow> u64 \<Rightarrow> u64" where
  "PX level va = drop_bit (12 + 9 * level) va AND 0x1FF"

section \<open>Walking and mapping\<close>

text \<open>
  The loop of \<^verbatim>\<open>walk\<close>, with the level as recursion argument.  A null result is the
  address 0.
\<close>

fun walk_loop :: "nat \<Rightarrow> u64 \<Rightarrow> u64 \<Rightarrow> bool \<Rightarrow> 'a kmem_state_scheme \<Rightarrow> (u64 \<times> 'a kmem_state_scheme) res" where
  "walk_loop 0 pagetable va alloc s = Ok (pagetable + 8 * PX 0 va, s)"
| "walk_loop (Suc l) pagetable va alloc s =
     (let pte = pagetable + 8 * PX (Suc l) va; v = load64 (ram s) pte
      in if v AND PTE_V \<noteq> 0 then walk_loop l (PTE2PA v) va alloc s
         else if \<not> alloc then Ok (0, s)
         else bnd (kalloc s) (\<lambda>(q, s).
           if q = 0 then Ok (0, s)
           else let m = memset (ram s) q 0 4096
                in walk_loop l q va alloc (s\<lparr>ram := store64 m pte (PA2PTE q OR PTE_V)\<rparr>)))"

definition walk :: "u64 \<Rightarrow> u64 \<Rightarrow> bool \<Rightarrow> 'a kmem_state_scheme \<Rightarrow> (u64 \<times> 'a kmem_state_scheme) res" where
  "walk pagetable va alloc s =
     (if va \<ge> MAXVA then Panic ''walk'' else walk_loop 2 pagetable va alloc s)"

lemma walk_OkD: "walk pt va alloc s = Ok r \<Longrightarrow> va < MAXVA"
  by (simp add: walk_def not_le split: if_splits)

lemma unat_add_page: "a < MAXVA \<Longrightarrow> unat (a + PGSIZE) = unat a + 4096"
  using unat_add_of_nat [of a 4096] by (simp add: word_less_nat_alt)

function mappages_loop ::
  "u64 \<Rightarrow> u64 \<Rightarrow> u64 \<Rightarrow> u64 \<Rightarrow> i32 \<Rightarrow> 'a kmem_state_scheme \<Rightarrow> (i32 \<times> 'a kmem_state_scheme) res" where
  "mappages_loop pagetable a lst pa perm s =
     bnd (walk pagetable a True s) (\<lambda>(pte, s).
       if pte = 0 then Ok (-1, s)
       else if load64 (ram s) pte AND PTE_V \<noteq> 0 then Panic ''mappages: remap''
       else let s = s\<lparr>ram := store64 (ram s) pte (PA2PTE pa OR scast perm OR PTE_V)\<rparr>
            in if a = lst then Ok (0, s)
               else mappages_loop pagetable (a + PGSIZE) lst (pa + PGSIZE) perm s)"
  by pat_completeness auto
termination
  by (relation "measure (\<lambda>(pt, a, lst, pa, perm, s). unat MAXVA - unat a)")
    (auto dest!: walk_OkD simp: unat_add_page word_less_nat_alt)

declare mappages_loop.simps [simp del]

definition mappages ::
  "u64 \<Rightarrow> u64 \<Rightarrow> u64 \<Rightarrow> u64 \<Rightarrow> i32 \<Rightarrow> 'a kmem_state_scheme \<Rightarrow> (i32 \<times> 'a kmem_state_scheme) res" where
  "mappages pagetable va sz pa perm s =
     (if sz = 0 then Panic ''mappages: size''
      else mappages_loop pagetable (PGROUNDDOWN va) (PGROUNDDOWN (va + sz - 1)) pa perm s)"

definition kvmmap ::
  "u64 \<Rightarrow> u64 \<Rightarrow> u64 \<Rightarrow> u64 \<Rightarrow> i32 \<Rightarrow> 'a kmem_state_scheme \<Rightarrow> 'a kmem_state_scheme res" where
  "kvmmap kpgtbl va pa sz perm s =
     bnd (mappages kpgtbl va sz pa perm s) (\<lambda>(r, s). if r \<noteq> 0 then Panic ''kvmmap'' else Ok s)"

function uvmunmap_loop ::
  "u64 \<Rightarrow> u64 \<Rightarrow> u64 \<Rightarrow> bool \<Rightarrow> 'a kmem_state_scheme \<Rightarrow> 'a kmem_state_scheme res" where
  "uvmunmap_loop pagetable a lim do_free s =
     (if a < lim
      then bnd (walk pagetable a False s) (\<lambda>(pte, s).
        if pte = 0 then uvmunmap_loop pagetable (a + PGSIZE) lim do_free s
        else let v = load64 (ram s) pte
             in if v AND PTE_V = 0 then uvmunmap_loop pagetable (a + PGSIZE) lim do_free s
                else if PTE_FLAGS v = PTE_V then Panic ''uvmunmap: not a leaf''
                else bnd (if do_free then kfree (PTE2PA v) s else Ok s) (\<lambda>s.
                  uvmunmap_loop pagetable (a + PGSIZE) lim do_free
                    (s\<lparr>ram := store64 (ram s) pte 0\<rparr>)))
      else Ok s)"
  by pat_completeness auto
termination
  by (relation "measure (\<lambda>(pt, a, lim, f, s). unat MAXVA - unat a)")
    (auto dest!: walk_OkD simp: unat_add_page word_less_nat_alt)

declare uvmunmap_loop.simps [simp del]

definition uvmunmap ::
  "u64 \<Rightarrow> u64 \<Rightarrow> u64 \<Rightarrow> bool \<Rightarrow> 'a kmem_state_scheme \<Rightarrow> 'a kmem_state_scheme res" where
  "uvmunmap pagetable va npages do_free s =
     (if va mod PGSIZE \<noteq> 0 then Panic ''uvmunmap: not aligned''
      else uvmunmap_loop pagetable va (va + npages * PGSIZE) do_free s)"

section \<open>The kernel's page tables\<close>

definition proc_mapstacks :: "u64 \<Rightarrow> 'a kmem_state_scheme \<Rightarrow> 'a kmem_state_scheme res" where
  "proc_mapstacks kpgtbl s =
     fold_res (\<lambda>p s. bnd (kalloc s) (\<lambda>(pa, s).
       if pa = 0 then Panic ''kalloc'' else kvmmap kpgtbl (KSTACK p) pa PGSIZE 6 s)) [0..<NPROC] s"

definition kvmmake :: "'a kernel_state_scheme \<Rightarrow> (u64 \<times> 'a kernel_state_scheme) res" where
  "kvmmake s =
     bnd (kalloc s) (\<lambda>(kpgtbl, s).
     deref_pa kpgtbl (
     let s = s\<lparr>ram := memset (ram s) kpgtbl 0 4096\<rparr>
     in bnd (kvmmap kpgtbl UART0 UART0 PGSIZE 6 s) (\<lambda>s.
        bnd (kvmmap kpgtbl VIRTIO0 VIRTIO0 PGSIZE 6 s) (\<lambda>s.
        bnd (kvmmap kpgtbl PLIC PLIC 0x400000 6 s) (\<lambda>s.
        bnd (kvmmap kpgtbl KERNBASE KERNBASE (etext s - KERNBASE) 10 s) (\<lambda>s.
        bnd (kvmmap kpgtbl (etext s) (etext s) (PHYSTOP - etext s) 6 s) (\<lambda>s.
        bnd (kvmmap kpgtbl TRAMPOLINE (trampoline s) PGSIZE 10 s) (\<lambda>s.
        bnd (proc_mapstacks kpgtbl s) (\<lambda>s. Ok (kpgtbl, s))))))))))"

text \<open>The result codes of these calls of \<^verbatim>\<open>mappages\<close> are ignored.\<close>

definition mappages_ignore ::
  "u64 \<Rightarrow> u64 \<Rightarrow> u64 \<Rightarrow> u64 \<Rightarrow> i32 \<Rightarrow> 'a kmem_state_scheme \<Rightarrow> 'a kmem_state_scheme res" where
  "mappages_ignore pagetable va sz pa perm s =
     bnd (mappages pagetable va sz pa perm s) (\<lambda>(_, s). Ok s)"

definition kvminit_kern :: "'a kernel_state_scheme \<Rightarrow> (u64 \<times> 'a kernel_state_scheme) res" where
  "kvminit_kern s =
     bnd (kalloc s) (\<lambda>(kpagetable, s).
     deref_pa kpagetable (
     let s = s\<lparr>ram := memset (ram s) kpagetable 0 4096\<rparr>
     in bnd (mappages_ignore kpagetable UART0 PGSIZE UART0 6 s) (\<lambda>s.
        bnd (mappages_ignore kpagetable VIRTIO0 PGSIZE VIRTIO0 6 s) (\<lambda>s.
        bnd (mappages_ignore kpagetable PLIC 0x400000 PLIC 6 s) (\<lambda>s.
        bnd (mappages_ignore kpagetable KERNBASE (etext s - KERNBASE) KERNBASE 10 s) (\<lambda>s.
        bnd (mappages_ignore kpagetable (etext s) (PHYSTOP - etext s) (etext s) 6 s) (\<lambda>s.
        bnd (mappages_ignore kpagetable TRAMPOLINE PGSIZE (trampoline s) 10 s) (\<lambda>s.
        Ok (kpagetable, s)))))))))"

definition kvminit :: "'a kernel_state_scheme \<Rightarrow> 'a kernel_state_scheme res" where
  "kvminit s =
     bnd (kvmmake s) (\<lambda>(kpgtbl, s).
     let s = s\<lparr>kernel_pagetable := kpgtbl\<rparr>
     in mappages_ignore (kernel_pagetable s) CLINT 0x10000 CLINT 6 s)"

text \<open>
  \<^verbatim>\<open>sfence_vma\<close> has no counterpart: translations are always taken from the tables.
\<close>

definition MAKE_SATP :: "u64 \<Rightarrow> u64" where
  "MAKE_SATP pagetable = push_bit 60 8 OR drop_bit 12 pagetable"

definition kvminithart :: "'a kernel_state_scheme \<Rightarrow> 'a kernel_state_scheme" where
  "kvminithart s = s\<lparr>satp := (satp s)(cpuid s := MAKE_SATP (kernel_pagetable s))\<rparr>"

section \<open>User address spaces\<close>

definition walkaddr :: "u64 \<Rightarrow> u64 \<Rightarrow> 'a kernel_state_scheme \<Rightarrow> (u64 \<times> 'a kernel_state_scheme) res" where
  "walkaddr pagetable va s =
     (if va \<ge> MAXVA then Ok (0, s)
      else bnd (walk pagetable va False s) (\<lambda>(pte, s).
        let v = load64 (ram s) pte
        in if pte = 0 \<or> v AND PTE_V = 0
           then deref (myproc s) (\<lambda>p.
             if va \<ge> p_sz (ptable s p) \<or> va < PGROUNDUP (tf_get TF_sp p s) then Ok (0, s)
             else bnd (kalloc s) (\<lambda>(pa, s).
               if pa = 0 then Ok (0, s)
               else bnd (mappages (p_pagetable (ptable s p)) va PGSIZE pa 30 s) (\<lambda>(r, s).
                 if r \<noteq> 0 then bnd (kfree pa s) (\<lambda>s. Ok (0, s)) else Ok (pa, s))))
           else if v AND PTE_U = 0 then Ok (0, s)
           else Ok (PTE2PA v, s)))"

definition uvmcreate :: "'a kmem_state_scheme \<Rightarrow> (u64 \<times> 'a kmem_state_scheme) res" where
  "uvmcreate s =
     bnd (kalloc s) (\<lambda>(pagetable, s).
       if pagetable = 0 then Ok (0, s)
       else Ok (pagetable, s\<lparr>ram := memset (ram s) pagetable 0 4096\<rparr>))"

definition uvminit :: "u64 \<Rightarrow> cptr \<Rightarrow> u32 \<Rightarrow> 'a kmem_state_scheme \<Rightarrow> 'a kmem_state_scheme res" where
  "uvminit pagetable src sz s =
     (if sz \<ge> 4096 then Panic ''inituvm: more than a page''
      else bnd (kalloc s) (\<lambda>(mem, s).
        deref_pa mem (
        let s = s\<lparr>ram := memset (ram s) mem 0 4096\<rparr>
        in bnd (mappages_ignore pagetable 0 PGSIZE mem 30 s) (\<lambda>s.
           Ok (s\<lparr>ram := move_obj (ram s) mem src 0 (unat sz)\<rparr>)))))"

definition uvmdealloc ::
  "u64 \<Rightarrow> u64 \<Rightarrow> u64 \<Rightarrow> 'a kmem_state_scheme \<Rightarrow> (u64 \<times> 'a kmem_state_scheme) res" where
  "uvmdealloc pagetable oldsz newsz s =
     (if newsz \<ge> oldsz then Ok (oldsz, s)
      else if PGROUNDUP newsz < PGROUNDUP oldsz
      then let npages = ucast ((PGROUNDUP oldsz - PGROUNDUP newsz) div PGSIZE) :: i32
           in bnd (uvmunmap pagetable (PGROUNDUP newsz) (scast npages) True s) (\<lambda>s. Ok (newsz, s))
      else Ok (newsz, s))"

lemma PGROUNDDOWN_less_MAXVA: "PGROUNDDOWN a < MAXVA \<longleftrightarrow> a < MAXVA"
proof -
  have "4096 * pgno a < 4096 * 67108864 \<longleftrightarrow> unat a < 67108864 * 4096"
    unfolding pgno_def by (subst mult_less_cancel1) (simp add: div_less_iff_less_mult)
  then show ?thesis by (simp add: word_less_nat_alt unat_PGROUNDDOWN)
qed

lemma mappages_OkD: "mappages pt a sz pa perm s = Ok r \<Longrightarrow> a < MAXVA"
  by (subst PGROUNDDOWN_less_MAXVA [symmetric])
    (auto simp: mappages_def mappages_loop.simps elim!: bnd_eq_OkE dest!: walk_OkD split: if_splits)

function uvmalloc_loop ::
  "u64 \<Rightarrow> u64 \<Rightarrow> u64 \<Rightarrow> u64 \<Rightarrow> 'a kmem_state_scheme \<Rightarrow> (u64 \<times> 'a kmem_state_scheme) res" where
  "uvmalloc_loop pagetable a oldsz newsz s =
     (if a < newsz
      then bnd (kalloc s) (\<lambda>(mem, s).
        if mem = 0 then bnd (uvmdealloc pagetable a oldsz s) (\<lambda>(_, s). Ok (0, s))
        else let s = s\<lparr>ram := memset (ram s) mem 0 4096\<rparr>
             in bnd (mappages pagetable a PGSIZE mem 30 s) (\<lambda>(r, s).
               if r \<noteq> 0
               then bnd (kfree mem s) (\<lambda>s.
                 bnd (uvmdealloc pagetable a oldsz s) (\<lambda>(_, s). Ok (0, s)))
               else uvmalloc_loop pagetable (a + PGSIZE) oldsz newsz s))
      else Ok (newsz, s))"
  by pat_completeness auto
termination
  by (relation "measure (\<lambda>(pt, a, oldsz, newsz, s). unat MAXVA - unat a)")
    (auto dest!: mappages_OkD simp: unat_add_page word_less_nat_alt)

declare uvmalloc_loop.simps [simp del]

definition uvmalloc ::
  "u64 \<Rightarrow> u64 \<Rightarrow> u64 \<Rightarrow> 'a kmem_state_scheme \<Rightarrow> (u64 \<times> 'a kmem_state_scheme) res" where
  "uvmalloc pagetable oldsz newsz s =
     (if newsz < oldsz then Ok (oldsz, s)
      else uvmalloc_loop pagetable (PGROUNDUP oldsz) (PGROUNDUP oldsz) newsz s)"

text \<open>
  \<^verbatim>\<open>freewalk\<close> recurses through the levels of the table.  The first argument bounds the
  depth; page tables are built by \<^verbatim>\<open>walk\<close> with three levels, and the callers start
  with that bound.
\<close>

fun freewalk :: "nat \<Rightarrow> u64 \<Rightarrow> 'a kmem_state_scheme \<Rightarrow> 'a kmem_state_scheme res" where
  "freewalk 0 pagetable s = Panic ''freewalk: depth''"
| "freewalk (Suc d) pagetable s =
     bnd (fold_res (\<lambda>i s.
       let addr = pagetable + 8 * of_nat i; pte = load64 (ram s) addr
       in if pte AND PTE_V \<noteq> 0 \<and> pte AND (PTE_R OR PTE_W OR PTE_X) = 0
          then bnd (freewalk d (PTE2PA pte) s) (\<lambda>s. Ok (s\<lparr>ram := store64 (ram s) addr 0\<rparr>))
          else if pte AND PTE_V \<noteq> 0 then Panic ''freewalk: leaf''
          else Ok s) [0..<512] s)
     (kfree pagetable)"

definition uvmfree :: "u64 \<Rightarrow> u64 \<Rightarrow> 'a kmem_state_scheme \<Rightarrow> 'a kmem_state_scheme res" where
  "uvmfree pagetable sz s =
     bnd (if sz > 0 then uvmunmap pagetable 0 (PGROUNDUP sz div PGSIZE) True s else Ok s)
     (freewalk 3 pagetable)"

definition uvmfreepage :: "u64 \<Rightarrow> u64 \<Rightarrow> u32 \<Rightarrow> 'a kmem_state_scheme \<Rightarrow> 'a kmem_state_scheme res" where
  "uvmfreepage pagetable va npages s =
     bnd (if npages > 0 then uvmunmap pagetable va (ucast npages) True s else Ok s)
     (freewalk 3 pagetable)"

function uvmcopy_loop ::
  "u64 \<Rightarrow> u64 \<Rightarrow> u64 \<Rightarrow> u64 \<Rightarrow> 'a kmem_state_scheme \<Rightarrow> (i32 \<times> 'a kmem_state_scheme) res" where
  "uvmcopy_loop old new i sz s =
     (if i < sz
      then bnd (walk old i False s) (\<lambda>(pte, s).
        let v = load64 (ram s) pte
        in if pte = 0 \<or> v AND PTE_V = 0 then uvmcopy_loop old new (i + PGSIZE) sz s
           else let pa = PTE2PA v; flags = ucast (PTE_FLAGS v) :: u32
                in bnd (kalloc s) (\<lambda>(mem, s).
                  if mem = 0
                  then bnd (uvmunmap new 0 (i div PGSIZE) True s) (\<lambda>s. Ok (-1, s))
                  else let s = s\<lparr>ram := memmove (ram s) mem pa 4096\<rparr>
                       in bnd (mappages new i PGSIZE mem flags s) (\<lambda>(r, s).
                         if r \<noteq> 0
                         then bnd (kfree mem s) (\<lambda>s.
                           bnd (uvmunmap new 0 (i div PGSIZE) True s) (\<lambda>s. Ok (-1, s)))
                         else uvmcopy_loop old new (i + PGSIZE) sz s)))
      else Ok (0, s))"
  by pat_completeness auto
termination
  by (relation "measure (\<lambda>(old, new, i, sz, s). unat MAXVA - unat i)")
    (auto dest!: walk_OkD simp: unat_add_page word_less_nat_alt)

declare uvmcopy_loop.simps [simp del]

definition uvmcopy ::
  "u64 \<Rightarrow> u64 \<Rightarrow> u64 \<Rightarrow> 'a kmem_state_scheme \<Rightarrow> (i32 \<times> 'a kmem_state_scheme) res" where
  "uvmcopy old new sz s = uvmcopy_loop old new 0 sz s"

definition uvmclear :: "u64 \<Rightarrow> u64 \<Rightarrow> 'a kmem_state_scheme \<Rightarrow> 'a kmem_state_scheme res" where
  "uvmclear pagetable va s =
     bnd (walk pagetable va False s) (\<lambda>(pte, s).
       if pte = 0 then Panic ''uvmclear''
       else Ok (s\<lparr>ram := store64 (ram s) pte (load64 (ram s) pte AND NOT PTE_U)\<rparr>))"

section \<open>Copying between kernel and user memory\<close>

text \<open>
  The number of bytes from \<open>va\<close> to the end of its page, at most \<open>len\<close>: the
  computation of \<^verbatim>\<open>n\<close> in the three copy loops.
\<close>

definition page_chunk :: "u64 \<Rightarrow> u64 \<Rightarrow> u64" where
  "page_chunk va len =
     (let n = PGSIZE - (va - PGROUNDDOWN va) in if n > len then len else n)"

lemma unat_page_offset: "unat (va - PGROUNDDOWN va) = unat va mod 4096"
proof -
  have "unat (PGROUNDDOWN va) \<le> unat va" by (simp add: unat_PGROUNDDOWN pgno_def)
  then have "unat (va - PGROUNDDOWN va) = unat va - unat (PGROUNDDOWN va)"
    by (simp add: unat_sub word_le_nat_alt)
  then show ?thesis by (simp add: unat_PGROUNDDOWN pgno_def minus_mult_div_eq_mod)
qed

lemma unat_page_chunk: "unat (page_chunk va len) = min (4096 - unat va mod 4096) (unat len)"
proof -
  have "unat (PGSIZE - (va - PGROUNDDOWN va)) = 4096 - unat va mod 4096"
    by (subst unat_sub) (simp_all add: unat_page_offset word_le_nat_alt less_imp_le)
  then show ?thesis by (simp add: page_chunk_def Let_def word_less_nat_alt)
qed

lemma page_chunk_progress: "len > 0 \<Longrightarrow> unat (len - page_chunk va len) < unat len"
proof -
  assume "len > 0"
  then have "0 < unat (page_chunk va len)" by (simp add: unat_page_chunk word_less_nat_alt)
  moreover have "page_chunk va len \<le> len" by (simp add: unat_page_chunk word_le_nat_alt)
  ultimately show ?thesis by (simp add: unat_sub word_le_nat_alt)
qed

lemma unat_ucast_page_chunk [simp]:
  "unat (ucast (page_chunk va len) :: u32) = unat (page_chunk va len)"
  by (simp add: unsigned_ucast_eq unat_page_chunk take_bit_nat_eq_self min_def)

text \<open>The kernel's buffer \<open>src\<close> is read from index \<open>k\<close> on.\<close>

function copyout_loop ::
  "u64 \<Rightarrow> u64 \<Rightarrow> cptr \<Rightarrow> nat \<Rightarrow> u64 \<Rightarrow> 'a kernel_state_scheme \<Rightarrow> (i32 \<times> 'a kernel_state_scheme) res" where
  "copyout_loop pagetable dstva src k len s =
     (if len > 0
      then let va0 = PGROUNDDOWN dstva
           in bnd (walkaddr pagetable va0 s) (\<lambda>(pa0, s).
             if pa0 = 0 then Ok (-1, s)
             else let n = page_chunk dstva len;
                      s = s\<lparr>ram := move_obj (ram s) (pa0 + (dstva - va0)) src k (unat (ucast n :: u32))\<rparr>
                  in copyout_loop pagetable (va0 + PGSIZE) src (k + unat n) (len - n) s)
      else Ok (0, s))"
  by pat_completeness auto
termination
  by (relation "measure (\<lambda>(pt, dstva, src, k, len, s). unat len)")
    (auto intro: page_chunk_progress)

declare copyout_loop.simps [simp del]

definition copyout ::
  "u64 \<Rightarrow> u64 \<Rightarrow> cptr \<Rightarrow> u64 \<Rightarrow> 'a kernel_state_scheme \<Rightarrow> (i32 \<times> 'a kernel_state_scheme) res" where
  "copyout pagetable dstva src len s = copyout_loop pagetable dstva src 0 len s"

text \<open>The kernel's buffer \<open>dst\<close> is written from index \<open>k\<close> on and returned.\<close>

function copyin_loop ::
  "u64 \<Rightarrow> cptr \<Rightarrow> nat \<Rightarrow> u64 \<Rightarrow> u64 \<Rightarrow> 'a kernel_state_scheme \<Rightarrow>
    (i32 \<times> cptr \<times> 'a kernel_state_scheme) res" where
  "copyin_loop pagetable dst k srcva len s =
     (if len > 0
      then let va0 = PGROUNDDOWN srcva
           in bnd (walkaddr pagetable va0 s) (\<lambda>(pa0, s).
             if pa0 = 0 then Ok (-1, dst, s)
             else let n = page_chunk srcva len;
                      dst = move_obj dst k (ram s) (pa0 + (srcva - va0)) (unat (ucast n :: u32))
                  in copyin_loop pagetable dst (k + unat n) (va0 + PGSIZE) (len - n) s)
      else Ok (0, dst, s))"
  by pat_completeness auto
termination
  by (relation "measure (\<lambda>(pt, dst, k, srcva, len, s). unat len)")
    (auto intro: page_chunk_progress)

declare copyin_loop.simps [simp del]

definition copyin ::
  "u64 \<Rightarrow> cptr \<Rightarrow> u64 \<Rightarrow> u64 \<Rightarrow> 'a kernel_state_scheme \<Rightarrow> (i32 \<times> cptr \<times> 'a kernel_state_scheme) res" where
  "copyin pagetable dst srcva len s = copyin_loop pagetable dst 0 srcva len s"

text \<open>
  The inner loop of \<^verbatim>\<open>copyinstr\<close> over the \<open>n\<close> bytes from \<open>p\<close>; the result is the buffer,
  the position, the remaining \<^verbatim>\<open>max\<close> and \<^verbatim>\<open>got_null\<close>.
\<close>

fun copyinstr_page :: "mem \<Rightarrow> u64 \<Rightarrow> cptr \<Rightarrow> nat \<Rightarrow> nat \<Rightarrow> u64 \<Rightarrow> cptr \<times> nat \<times> u64 \<times> bool" where
  "copyinstr_page m p dst k 0 mx = (dst, k, mx, False)"
| "copyinstr_page m p dst k (Suc n) mx =
     (if m p = 0 then (dst(k := 0), k, mx, True)
      else copyinstr_page m (p + 1) (dst(k := m p)) (k + 1) n (mx - 1))"

lemma copyinstr_page_max:
  "copyinstr_page m p dst k n mx = (dst', k', mx', False) \<Longrightarrow> mx' = mx - of_nat n \<and> k' = k + n"
proof (induction n arbitrary: p dst k mx)
  case (Suc n)
  then have "copyinstr_page m (p + 1) (dst(k := m p)) (k + 1) n (mx - 1) = (dst', k', mx', False)"
    by (simp split: if_splits)
  from Suc.IH [OF this] show ?case by (simp add: algebra_simps)
qed simp

function copyinstr_loop ::
  "u64 \<Rightarrow> cptr \<Rightarrow> nat \<Rightarrow> u64 \<Rightarrow> u64 \<Rightarrow> 'a kernel_state_scheme \<Rightarrow>
    (i32 \<times> cptr \<times> 'a kernel_state_scheme) res" where
  "copyinstr_loop pagetable dst k srcva mx s =
     (if mx > 0
      then let va0 = PGROUNDDOWN srcva
           in bnd (walkaddr pagetable va0 s) (\<lambda>(pa0, s).
             if pa0 = 0 then Ok (-1, dst, s)
             else let n = page_chunk srcva mx
                  in case copyinstr_page (ram s) (pa0 + (srcva - va0)) dst k (unat n) mx of
                       (dst, k, mx, got_null) \<Rightarrow>
                         if got_null then Ok (0, dst, s)
                         else copyinstr_loop pagetable dst k (va0 + PGSIZE) mx s)
      else Ok (-1, dst, s))"
  by pat_completeness auto
termination
  by (relation "measure (\<lambda>(pt, dst, k, srcva, mx, s). unat mx)")
    (auto dest!: copyinstr_page_max [OF sym] intro: page_chunk_progress)

declare copyinstr_loop.simps [simp del]

definition copyinstr ::
  "u64 \<Rightarrow> cptr \<Rightarrow> u64 \<Rightarrow> u64 \<Rightarrow> 'a kernel_state_scheme \<Rightarrow> (i32 \<times> cptr \<times> 'a kernel_state_scheme) res" where
  "copyinstr pagetable dst srcva mx s = copyinstr_loop pagetable dst 0 srcva mx s"

end
