(* ===== verification/Sched.thy ===== *)
theory Sched
  imports Spinlock Vm
begin

text \<open>
  Scheduling, sleeping and waking, from \<^verbatim>\<open>kernel/proc.c\<close>: the hand-over of a CPU
  between the scheduler and a process through \<^verbatim>\<open>swtch\<close>, with the process lock held
  across it; \<^verbatim>\<open>sleep\<close> and \<^verbatim>\<open>wakeup\<close>; and the small operations on the process table.
\<close>

section \<open>Operations\<close>

definition wakeup :: "chan \<Rightarrow> 'a kernel_state_scheme \<Rightarrow> 'a kernel_state_scheme" where
  "wakeup c s =
     fold (\<lambda>i s. if Some i \<noteq> myproc s \<and> p_state (ptable s i) = SLEEPING \<and> p_chan (ptable s i) = c
                 then upd_proc i (\<lambda>p. p\<lparr>p_state := RUNNABLE\<rparr>) s else s) [0..<NPROC] s"

definition kill :: "i32 \<Rightarrow> 'a kernel_state_scheme \<Rightarrow> i32 \<times> 'a kernel_state_scheme" where
  "kill pid s =
     (case first_slot (\<lambda>i. p_pid (ptable s i) = pid) NPROC of
        None \<Rightarrow> (-1, s)
      | Some i \<Rightarrow>
          let s = upd_proc i (\<lambda>p. p\<lparr>p_killed := 1\<rparr>) s
          in (0, if p_state (ptable s i) = SLEEPING
                 then upd_proc i (\<lambda>p. p\<lparr>p_state := RUNNABLE\<rparr>) s else s))"

definition procamount :: "'a kernel_state_scheme \<Rightarrow> i32" where
  "procamount s =
     fold (\<lambda>i amount. if p_state (ptable s i) \<noteq> UNUSED then amount + 1 else amount) [0..<NPROC] 0"

definition allocpid :: "'a kernel_state_scheme \<Rightarrow> i32 \<times> 'a kernel_state_scheme" where
  "allocpid s = (nextpid s, s\<lparr>nextpid := nextpid s + 1\<rparr>)"

definition procinit :: "'a kernel_state_scheme \<Rightarrow> 'a kernel_state_scheme" where
  "procinit s = fold (\<lambda>i s. upd_proc i (\<lambda>p. p\<lparr>p_lock := initlock ''proc''\<rparr>) s) [0..<NPROC] s"

subsection \<open>Switching\<close>

definition acquire_proc :: "nat \<Rightarrow> 'a kernel_state_scheme \<Rightarrow> 'a kernel_state_scheme res" where
  "acquire_proc i s =
     bnd (acquire (p_lock (ptable s i)) s) (\<lambda>(lk, s). Ok (upd_proc i (\<lambda>p. p\<lparr>p_lock := lk\<rparr>) s))"

definition release_proc :: "nat \<Rightarrow> 'a kernel_state_scheme \<Rightarrow> 'a kernel_state_scheme res" where
  "release_proc i s =
     bnd (release (p_lock (ptable s i)) s) (\<lambda>(lk, s). Ok (upd_proc i (\<lambda>p. p\<lparr>p_lock := lk\<rparr>) s))"

text \<open>\<^verbatim>\<open>swtch(old, new)\<close> saves the registers in \<open>old\<close> and loads them from \<open>new\<close>.\<close>

definition swtch :: "swcontext \<Rightarrow> swcontext \<Rightarrow> swcontext \<times> swcontext" where
  "swtch current new = (current, new)"

definition swtch_to_scheduler :: "nat \<Rightarrow> 'a kernel_state_scheme \<Rightarrow> 'a kernel_state_scheme" where
  "swtch_to_scheduler p s =
     (case swtch (regs s (cpuid s)) (c_context (mycpu s)) of (saved, loaded) \<Rightarrow>
        (upd_proc p (\<lambda>p. p\<lparr>p_context := saved\<rparr>) s)\<lparr>regs := (regs s)(cpuid s := loaded)\<rparr>)"

definition swtch_to_proc :: "nat \<Rightarrow> 'a kernel_state_scheme \<Rightarrow> 'a kernel_state_scheme" where
  "swtch_to_proc p s =
     (case swtch (regs s (cpuid s)) (p_context (ptable s p)) of (saved, loaded) \<Rightarrow>
        (set_mycpu ((mycpu s)\<lparr>c_context := saved\<rparr>) s)\<lparr>regs := (regs s)(cpuid s := loaded)\<rparr>)"

text \<open>
  \<^verbatim>\<open>sched\<close> up to the switch, returning the local variable \<^verbatim>\<open>intena\<close>, and from the switch
  back.
\<close>

definition sched_enter :: "'a kernel_state_scheme \<Rightarrow> (i32 \<times> 'a kernel_state_scheme) res" where
  "sched_enter s = deref (myproc s) (\<lambda>p.
     if \<not> holding (p_lock (ptable s p)) s then Panic ''sched p->lock''
     else if c_noff (mycpu s) \<noteq> 1 then Panic ''sched locks''
     else if p_state (ptable s p) = RUNNING then Panic ''sched running''
     else if intr_get s then Panic ''sched interruptible''
     else Ok (c_intena (mycpu s), swtch_to_scheduler p s))"

definition sched_return :: "i32 \<Rightarrow> 'a kernel_state_scheme \<Rightarrow> 'a kernel_state_scheme" where
  "sched_return intena s = set_mycpu ((mycpu s)\<lparr>c_intena := intena\<rparr>) s"

text \<open>
  One iteration of the scheduler's loop: up to the switch to a runnable process (\<open>True\<close>) or
  past a process that is not runnable, and from the switch back.
\<close>

definition scheduler_pick :: "nat \<Rightarrow> 'a kernel_state_scheme \<Rightarrow> (bool \<times> 'a kernel_state_scheme) res" where
  "scheduler_pick p s =
     bnd (acquire_proc p s) (\<lambda>s.
       if p_state (ptable s p) = RUNNABLE
       then let s = upd_proc p (\<lambda>q. q\<lparr>p_state := RUNNING\<rparr>) s;
                s = set_mycpu ((mycpu s)\<lparr>c_proc := Some p\<rparr>) s;
                s = s\<lparr>satp := (satp s)(cpuid s := MAKE_SATP (p_kerntable (ptable s p)))\<rparr>
            in Ok (True, swtch_to_proc p s)
       else bnd (release_proc p s) (\<lambda>s. Ok (False, s)))"

definition scheduler_back :: "nat \<Rightarrow> 'a kernel_state_scheme \<Rightarrow> 'a kernel_state_scheme res" where
  "scheduler_back p s =
     (let s = kvminithart s; s = set_mycpu ((mycpu s)\<lparr>c_proc := None\<rparr>) s in release_proc p s)"

text \<open>\<^verbatim>\<open>yield\<close> and \<^verbatim>\<open>sleep\<close>, each up to the switch and from the switch back.\<close>

definition yield_enter :: "'a kernel_state_scheme \<Rightarrow> (i32 \<times> 'a kernel_state_scheme) res" where
  "yield_enter s = deref (myproc s) (\<lambda>p.
     bnd (acquire_proc p s) (\<lambda>s. sched_enter (upd_proc p (\<lambda>q. q\<lparr>p_state := RUNNABLE\<rparr>) s)))"

definition yield_back :: "i32 \<Rightarrow> 'a kernel_state_scheme \<Rightarrow> 'a kernel_state_scheme res" where
  "yield_back intena s = deref (myproc s) (\<lambda>p. release_proc p (sched_return intena s))"

definition sleep_enter ::
  "chan \<Rightarrow> spinlock \<Rightarrow> 'a kernel_state_scheme \<Rightarrow> (spinlock \<times> i32 \<times> 'a kernel_state_scheme) res" where
  "sleep_enter c lk s = deref (myproc s) (\<lambda>p.
     bnd (acquire_proc p s) (\<lambda>s.
     bnd (release lk s) (\<lambda>(lk, s).
     bnd (sched_enter (upd_proc p (\<lambda>q. q\<lparr>p_chan := c, p_state := SLEEPING\<rparr>) s)) (\<lambda>(intena, s).
       Ok (lk, intena, s)))))"

definition sleep_back ::
  "spinlock \<Rightarrow> i32 \<Rightarrow> 'a kernel_state_scheme \<Rightarrow> (spinlock \<times> 'a kernel_state_scheme) res" where
  "sleep_back lk intena s = deref (myproc s) (\<lambda>p.
     let s = sched_return intena s; s = upd_proc p (\<lambda>q. q\<lparr>p_chan := Null_chan\<rparr>) s
     in bnd (release_proc p s) (acquire lk))"

text \<open>
  Operations that sleep in the middle run from one sleep to the next: a turn ends with the
  operation's result or asleep on a channel, with the local variables it goes on with.  The
  lock that the operation holds is released and taken again by \<^verbatim>\<open>sleep\<close>, so a turn is
  one critical section.
\<close>

datatype ('r, 'l, 's) turn = Return 'r 's | Sleep 'l 's

definition sleep_on :: "chan \<Rightarrow> 'a kernel_state_scheme \<Rightarrow> 'a kernel_state_scheme res" where
  "sleep_on c s = deref (myproc s) (\<lambda>p. Ok (upd_proc p (\<lambda>q. q\<lparr>p_chan := c, p_state := SLEEPING\<rparr>) s))"

definition sleep_resume :: "'a kernel_state_scheme \<Rightarrow> 'a kernel_state_scheme res" where
  "sleep_resume s = deref (myproc s) (\<lambda>p. Ok (upd_proc p (\<lambda>q. q\<lparr>p_chan := Null_chan\<rparr>) s))"

text \<open>A call that returns in its first turn; otherwise the caller waits.\<close>

definition one_turn :: "('r, 'l, 's) turn res \<Rightarrow> ('r \<times> 's) res" where
  "one_turn m = bnd m (\<lambda>t. case t of Return r s \<Rightarrow> Ok (r, s) | Sleep l s \<Rightarrow> Waits ''sleep'')"

text \<open>
  Copies whose other end is a user address or a kernel object.  A kernel location is a byte
  of RAM or a byte of the caller's local object.
\<close>

datatype loc = User u64 | Kram u64 | Kobj nat

fun loc_add :: "loc \<Rightarrow> nat \<Rightarrow> loc" where
  "loc_add (User a) n = User (a + of_nat n)"
| "loc_add (Kram a) n = Kram (a + of_nat n)"
| "loc_add (Kobj k) n = Kobj (k + n)"

text \<open>The local object \<open>obj\<close> is passed and returned; \<open>src\<close> is read from index \<open>k\<close>.\<close>

definition either_copyout ::
  "loc \<Rightarrow> cptr \<Rightarrow> nat \<Rightarrow> u64 \<Rightarrow> cptr \<Rightarrow> 'a kernel_state_scheme \<Rightarrow> (i32 \<times> cptr \<times> 'a kernel_state_scheme) res" where
  "either_copyout dst src k len obj s =
     (case dst of
        User a \<Rightarrow> deref (myproc s) (\<lambda>p.
          bnd (copyout (p_pagetable (ptable s p)) a (\<lambda>i. src (k + i)) len s) (\<lambda>(r, s). Ok (r, obj, s)))
      | Kram a \<Rightarrow> Ok (0, obj, s\<lparr>ram := move_obj (ram s) a src k (unat (ucast len :: u32))\<rparr>)
      | Kobj j \<Rightarrow> Ok (0, move_obj obj j src k (unat (ucast len :: u32)), s))"

text \<open>The buffer \<open>dst\<close> is written from index \<open>k\<close> on and returned.\<close>

definition either_copyin ::
  "cptr \<Rightarrow> nat \<Rightarrow> loc \<Rightarrow> u64 \<Rightarrow> cptr \<Rightarrow> 'a kernel_state_scheme \<Rightarrow> (i32 \<times> cptr \<times> 'a kernel_state_scheme) res" where
  "either_copyin dst k src len obj s =
     (case src of
        User a \<Rightarrow> deref (myproc s) (\<lambda>p. copyin_loop (p_pagetable (ptable s p)) dst k a len s)
      | Kram a \<Rightarrow> Ok (0, move_obj dst k (ram s) a (unat (ucast len :: u32)), s)
      | Kobj j \<Rightarrow> Ok (0, move_obj dst k obj j (unat (ucast len :: u32)), s))"

section \<open>Waking\<close>

definition woken :: "chan \<Rightarrow> nat option \<Rightarrow> nat set \<Rightarrow> (nat \<Rightarrow> proc) \<Rightarrow> nat \<Rightarrow> proc" where
  "woken c me A t = (\<lambda>i. if i \<in> A \<and> Some i \<noteq> me \<and> p_state (t i) = SLEEPING \<and> p_chan (t i) = c
     then (t i)\<lparr>p_state := RUNNABLE\<rparr> else t i)"

lemma fold_wakeup:
  "fold (\<lambda>i s. if Some i \<noteq> myproc s \<and> p_state (ptable s i) = SLEEPING \<and> p_chan (ptable s i) = c
     then upd_proc i (\<lambda>p. p\<lparr>p_state := RUNNABLE\<rparr>) s else s) xs s =
   s\<lparr>ptable := woken c (myproc s) (set xs) (ptable s)\<rparr>"
proof (induction xs arbitrary: s)
  case Nil
  show ?case by (simp add: woken_def)
next
  case (Cons x xs)
  let ?hit = "Some x \<noteq> myproc s \<and> p_state (ptable s x) = SLEEPING \<and> p_chan (ptable s x) = c"
  let ?s = "if ?hit then upd_proc x (\<lambda>p. p\<lparr>p_state := RUNNABLE\<rparr>) s else s"
  have "woken c (myproc s) (set xs) (ptable ?s) = woken c (myproc s) (set (x # xs)) (ptable s)"
    by (auto simp: woken_def upd_proc_def)
  moreover have "?s\<lparr>ptable := t\<rparr> = s\<lparr>ptable := t\<rparr>" "myproc ?s = myproc s" for t
    by (simp_all add: upd_proc_def myproc_def mycpu_def cpuid_def)
  ultimately show ?case using Cons [of ?s] by (simp only: fold.simps comp_apply)
qed

lemma wakeup_eq:
  "wakeup c s = s\<lparr>ptable := (\<lambda>i. if i < NPROC \<and> Some i \<noteq> myproc s \<and> p_state (ptable s i) = SLEEPING \<and>
     p_chan (ptable s i) = c then (ptable s i)\<lparr>p_state := RUNNABLE\<rparr> else ptable s i)\<rparr>"
  unfolding wakeup_def by (subst fold_wakeup) (simp add: woken_def atLeast0LessThan)

lemma wakeup_fields [simp]:
  "ram (wakeup c s) = ram s" "freelist (wakeup c s) = freelist s" "refcount (wakeup c s) = refcount s"
  "kend (wakeup c s) = kend s" "cpus (wakeup c s) = cpus s" "hart (wakeup c s) = hart s"
  "myproc (wakeup c s) = myproc s" "p_pagetable (ptable (wakeup c s) i) = p_pagetable (ptable s i)"
  "p_killed (ptable (wakeup c s) i) = p_killed (ptable s i)" "p_pid (ptable (wakeup c s) i) = p_pid (ptable s i)"
  "kernel_state.more (wakeup c s) = kernel_state.more s"
  by (simp_all add: wakeup_eq myproc_def mycpu_def cpuid_def)

end
