(* ===== verification/Asm.thy ===== *)
theory Asm
  imports Sched
begin

text \<open>
  The assembly of the kernel: \<^verbatim>\<open>swtch.S\<close>, the trampoline \<^verbatim>\<open>trampoline.S\<close>, the kernel trap
  vector and the machine-mode timer vector of \<^verbatim>\<open>kernelvec.S\<close>, and the entry point
  \<^verbatim>\<open>entry.S\<close>.  The programs are lists of instructions, executed by an interpreter for the
  instructions they use.  Memory is what the executing mode sees at its virtual addresses;
  \<^verbatim>\<open>sfence.vma\<close> has no effect in the model, and the final jump or return is left out.
\<close>

section \<open>The machine\<close>

datatype reg = RA | SP | GP | TP | T0 | T1 | T2 | S0 | S1 | A0 | A1 | A2 | A3 | A4 | A5 | A6 | A7
  | S2 | S3 | S4 | S5 | S6 | S7 | S8 | S9 | S10 | S11 | T3 | T4 | T5 | T6

datatype csr = Sscratch | Satp | Mscratch | Sip | Mhartid

record machine =
  xr :: "reg \<Rightarrow> u64"
  csrs :: "csr \<Rightarrow> u64"
  vmem :: mem

datatype instr = Sd reg u64 reg | Ld reg u64 reg | Csrrw reg csr reg | Csrr reg csr | Csrw csr reg
  | Addi reg reg u64 | Li reg u64 | Add reg reg reg | Mul reg reg reg

fun exec_instr :: "instr \<Rightarrow> machine \<Rightarrow> machine" where
  "exec_instr (Sd r off b) m = m\<lparr>vmem := store64 (vmem m) (xr m b + off) (xr m r)\<rparr>"
| "exec_instr (Ld r off b) m = m\<lparr>xr := (xr m)(r := load64 (vmem m) (xr m b + off))\<rparr>"
| "exec_instr (Csrrw r c r') m = m\<lparr>xr := (xr m)(r := csrs m c), csrs := (csrs m)(c := xr m r')\<rparr>"
| "exec_instr (Csrr r c) m = m\<lparr>xr := (xr m)(r := csrs m c)\<rparr>"
| "exec_instr (Csrw c r) m = m\<lparr>csrs := (csrs m)(c := xr m r)\<rparr>"
| "exec_instr (Addi r r' i) m = m\<lparr>xr := (xr m)(r := xr m r' + i)\<rparr>"
| "exec_instr (Li r i) m = m\<lparr>xr := (xr m)(r := i)\<rparr>"
| "exec_instr (Add r a b) m = m\<lparr>xr := (xr m)(r := xr m a + xr m b)\<rparr>"
| "exec_instr (Mul r a b) m = m\<lparr>xr := (xr m)(r := xr m a * xr m b)\<rparr>"

definition run :: "instr list \<Rightarrow> machine \<Rightarrow> machine" where
  "run prog m = fold exec_instr prog m"

section \<open>Programs\<close>

definition swtch_code :: "instr list" where
  "swtch_code =
    [Sd RA 0 A0, Sd SP 8 A0, Sd S0 16 A0, Sd S1 24 A0, Sd S2 32 A0, Sd S3 40 A0, Sd S4 48 A0,
     Sd S5 56 A0, Sd S6 64 A0, Sd S7 72 A0, Sd S8 80 A0, Sd S9 88 A0, Sd S10 96 A0, Sd S11 104 A0,
     Ld RA 0 A1, Ld SP 8 A1, Ld S0 16 A1, Ld S1 24 A1, Ld S2 32 A1, Ld S3 40 A1, Ld S4 48 A1,
     Ld S5 56 A1, Ld S6 64 A1, Ld S7 72 A1, Ld S8 80 A1, Ld S9 88 A1, Ld S10 96 A1, Ld S11 104 A1]"

definition uservec_code :: "instr list" where
  "uservec_code =
    [Csrrw A0 Sscratch A0,
     Sd RA 40 A0, Sd SP 48 A0, Sd GP 56 A0, Sd TP 64 A0, Sd T0 72 A0, Sd T1 80 A0, Sd T2 88 A0,
     Sd S0 96 A0, Sd S1 104 A0, Sd A1 120 A0, Sd A2 128 A0, Sd A3 136 A0, Sd A4 144 A0,
     Sd A5 152 A0, Sd A6 160 A0, Sd A7 168 A0, Sd S2 176 A0, Sd S3 184 A0, Sd S4 192 A0,
     Sd S5 200 A0, Sd S6 208 A0, Sd S7 216 A0, Sd S8 224 A0, Sd S9 232 A0, Sd S10 240 A0,
     Sd S11 248 A0, Sd T3 256 A0, Sd T4 264 A0, Sd T5 272 A0, Sd T6 280 A0,
     Csrr T0 Sscratch, Sd T0 112 A0,
     Ld SP 8 A0, Ld TP 32 A0, Ld T0 16 A0, Ld T1 0 A0, Csrw Satp T1]"

definition userret_code :: "instr list" where
  "userret_code =
    [Csrw Satp A1, Ld T0 112 A0, Csrw Sscratch T0,
     Ld RA 40 A0, Ld SP 48 A0, Ld GP 56 A0, Ld TP 64 A0, Ld T0 72 A0, Ld T1 80 A0, Ld T2 88 A0,
     Ld S0 96 A0, Ld S1 104 A0, Ld A1 120 A0, Ld A2 128 A0, Ld A3 136 A0, Ld A4 144 A0,
     Ld A5 152 A0, Ld A6 160 A0, Ld A7 168 A0, Ld S2 176 A0, Ld S3 184 A0, Ld S4 192 A0,
     Ld S5 200 A0, Ld S6 208 A0, Ld S7 216 A0, Ld S8 224 A0, Ld S9 232 A0, Ld S10 240 A0,
     Ld S11 248 A0, Ld T3 256 A0, Ld T4 264 A0, Ld T5 272 A0, Ld T6 280 A0,
     Csrrw A0 Sscratch A0]"

text \<open>The kernel trap vector before and after its call of \<^verbatim>\<open>kerneltrap\<close>.\<close>

definition kernelvec_save :: "instr list" where
  "kernelvec_save =
    [Addi SP SP (- 256),
     Sd RA 0 SP, Sd SP 8 SP, Sd GP 16 SP, Sd TP 24 SP, Sd T0 32 SP, Sd T1 40 SP, Sd T2 48 SP,
     Sd S0 56 SP, Sd S1 64 SP, Sd A0 72 SP, Sd A1 80 SP, Sd A2 88 SP, Sd A3 96 SP, Sd A4 104 SP,
     Sd A5 112 SP, Sd A6 120 SP, Sd A7 128 SP, Sd S2 136 SP, Sd S3 144 SP, Sd S4 152 SP,
     Sd S5 160 SP, Sd S6 168 SP, Sd S7 176 SP, Sd S8 184 SP, Sd S9 192 SP, Sd S10 200 SP,
     Sd S11 208 SP, Sd T3 216 SP, Sd T4 224 SP, Sd T5 232 SP, Sd T6 240 SP]"

definition kernelvec_restore :: "instr list" where
  "kernelvec_restore =
    [Ld RA 0 SP, Ld SP 8 SP, Ld GP 16 SP, Ld T0 32 SP, Ld T1 40 SP, Ld T2 48 SP,
     Ld S0 56 SP, Ld S1 64 SP, Ld A0 72 SP, Ld A1 80 SP, Ld A2 88 SP, Ld A3 96 SP, Ld A4 104 SP,
     Ld A5 112 SP, Ld A6 120 SP, Ld A7 128 SP, Ld S2 136 SP, Ld S3 144 SP, Ld S4 152 SP,
     Ld S5 160 SP, Ld S6 168 SP, Ld S7 176 SP, Ld S8 184 SP, Ld S9 192 SP, Ld S10 200 SP,
     Ld S11 208 SP, Ld T3 216 SP, Ld T4 224 SP, Ld T5 232 SP, Ld T6 240 SP,
     Addi SP SP 256]"

definition timervec_code :: "instr list" where
  "timervec_code =
    [Csrrw A0 Mscratch A0, Sd A1 0 A0, Sd A2 8 A0, Sd A3 16 A0,
     Ld A1 24 A0, Ld A2 32 A0, Ld A3 0 A1, Add A3 A3 A2, Sd A3 0 A1,
     Li A1 2, Csrw Sip A1,
     Ld A3 16 A0, Ld A2 8 A0, Ld A1 0 A0, Csrrw A0 Mscratch A0]"

definition entry_code :: "u64 \<Rightarrow> instr list" where
  "entry_code stack0 =
    [Li SP stack0, Li A0 4096, Csrr A1 Mhartid, Addi A1 A1 1, Mul A0 A0 A1, Add SP SP A0]"

section \<open>Loads and stores at offsets of one base\<close>

lemma cell64_far:
  assumes far: "8 \<le> unat (a - b)" "8 \<le> unat (b - a)"
  shows "cell64 a \<inter> cell64 b = {}"
proof (rule ccontr)
  assume "cell64 a \<inter> cell64 b \<noteq> {}"
  then obtain i j where ij: "i < 8" "j < 8" and "a + of_nat i = b + of_nat j"
    by (auto simp: cell64_def)
  then have e: "a - b = of_nat j - of_nat i" "b - a = of_nat i - of_nat j"
    by (simp_all add: algebra_simps)
  show False
  proof (cases "i \<le> j")
    case True
    then have "a - b = of_nat (j - i)" using e by (simp add: of_nat_diff)
    then show False using far ij by (simp add: unat_of_nat_64)
  next
    case False
    then have "b - a = of_nat (i - j)" using e by (simp add: of_nat_diff)
    then show False using far ij by (simp add: unat_of_nat_64)
  qed
qed

text \<open>
  Runs of stores and of loads at multiples of eight from one base register, given by tables
  of registers and slots.
\<close>

definition saves :: "reg \<Rightarrow> (reg \<times> nat) list \<Rightarrow> instr list" where
  "saves b tab = map (\<lambda>(r, k). Sd r (8 * of_nat k) b) tab"

definition loads :: "reg \<Rightarrow> (reg \<times> nat) list \<Rightarrow> instr list" where
  "loads b tab = map (\<lambda>(r, k). Ld r (8 * of_nat k) b) tab"

lemma run_simps [simp]:
  "run [] m = m" "run (i # is) m = run is (exec_instr i m)" "run (is @ js) m = run js (run is m)"
  by (simp_all add: run_def)

lemma slot_diff:
  assumes "i < j" and "j < 1024"
  shows "8 \<le> unat (8 * of_nat i - 8 * of_nat j :: u64)" "8 \<le> unat (8 * of_nat j - 8 * of_nat i :: u64)"
proof -
  have e: "8 * of_nat k = (of_nat (8 * k) :: u64)" for k by simp
  have u: "unat (8 * of_nat k :: u64) = 8 * k" if "k < 1024" for k
    unfolding e using that by (subst unat_of_nat_64) auto
  show "8 \<le> unat (8 * of_nat i - 8 * of_nat j :: u64)" "8 \<le> unat (8 * of_nat j - 8 * of_nat i :: u64)"
    using assms by (simp_all add: unat_sub_if_size word_size u)
qed

lemma load64_store64_slot:
  assumes "i < 1024" and "j < 1024"
  shows "load64 (store64 m (a + 8 * of_nat j) v) (a + 8 * of_nat i) =
    (if i = j then v else load64 m (a + 8 * of_nat i))"
proof (cases i j rule: linorder_cases)
  case less
  then show ?thesis using slot_diff [OF less] assms by (auto intro!: load64_store64_disjoint cell64_far)
next
  case greater
  then show ?thesis using slot_diff [OF greater] assms by (auto intro!: load64_store64_disjoint cell64_far)
qed simp

lemma run_saves_Cons:
  "run (saves b ((r, j) # tab)) m =
   run (saves b tab) (m\<lparr>vmem := store64 (vmem m) (xr m b + 8 * of_nat j) (xr m r)\<rparr>)"
  by (simp add: saves_def)

lemma run_loads_Cons:
  "run (loads b ((r, j) # tab)) m =
   run (loads b tab) (m\<lparr>xr := (xr m)(r := load64 (vmem m) (xr m b + 8 * of_nat j))\<rparr>)"
  by (simp add: loads_def)

lemma run_saves_regs [simp]:
  "xr (run (saves b tab) m) = xr m" "csrs (run (saves b tab) m) = csrs m"
  by (induction tab arbitrary: m) (auto simp: run_saves_Cons, auto simp: saves_def)

lemma run_loads_mem [simp]:
  "vmem (run (loads b tab) m) = vmem m" "csrs (run (loads b tab) m) = csrs m"
  by (induction tab arbitrary: m) (auto simp: run_loads_Cons, auto simp: loads_def)

lemma run_saves_slot:
  assumes "\<forall>e \<in> set tab. snd e < 1024" and "distinct (map snd tab)" and "i < 1024"
  shows "load64 (vmem (run (saves b tab) m)) (xr m b + 8 * of_nat i) =
    (case map_of (map (\<lambda>(r, j). (j, r)) tab) i of Some r \<Rightarrow> xr m r | None \<Rightarrow> load64 (vmem m) (xr m b + 8 * of_nat i))"
  using assms
proof (induction tab arbitrary: m)
  case (Cons e tab)
  obtain r j where e: "e = (r, j)" by (cases e)
  let ?m = "m\<lparr>vmem := store64 (vmem m) (xr m b + 8 * of_nat j) (xr m r)\<rparr>"
  have j: "j \<notin> snd ` set tab" "j < 1024" using Cons.prems by (auto simp: e)
  then have "map_of (map (\<lambda>(r, j). (j, r)) tab) j = None" by (force simp: map_of_eq_None_iff)
  with j Cons.prems Cons.IH [of ?m] show ?case
    by (auto simp: e run_saves_Cons load64_store64_slot split: option.splits)
qed (simp add: saves_def)

lemma run_loads_reg:
  assumes "\<forall>e \<in> set tab. fst e = b \<longrightarrow> load64 (vmem m) (xr m b + 8 * of_nat (snd e)) = xr m b"
    and "distinct (map fst tab)"
  shows "xr (run (loads b tab) m) r =
    (case map_of tab r of Some j \<Rightarrow> load64 (vmem m) (xr m b + 8 * of_nat j) | None \<Rightarrow> xr m r)"
  using assms
proof (induction tab arbitrary: m)
  case (Cons e tab)
  obtain q j where e: "e = (q, j)" by (cases e)
  let ?m = "m\<lparr>xr := (xr m)(q := load64 (vmem m) (xr m b + 8 * of_nat j))\<rparr>"
  have b: "xr ?m b = xr m b" using Cons.prems by (auto simp: e)
  have "q \<notin> fst ` set tab" using Cons.prems by (auto simp: e)
  then have q: "map_of tab q = None" by (simp add: map_of_eq_None_iff)
  have "xr (run (loads b tab) ?m) r =
      (case map_of tab r of Some j \<Rightarrow> load64 (vmem ?m) (xr ?m b + 8 * of_nat j) | None \<Rightarrow> xr ?m r)"
    using Cons.prems b by (intro Cons.IH) auto
  then show ?case unfolding b using q by (auto simp: e run_loads_Cons split: option.splits)
qed (simp add: loads_def)

section \<open>The trampoline\<close>

text \<open>Where \<^verbatim>\<open>struct trapframe\<close> keeps each user register, in words from its start.\<close>

definition tf_slots :: "(reg \<times> nat) list" where
  "tf_slots = [(RA, 5), (SP, 6), (GP, 7), (TP, 8), (T0, 9), (T1, 10), (T2, 11), (S0, 12), (S1, 13),
     (A1, 15), (A2, 16), (A3, 17), (A4, 18), (A5, 19), (A6, 20), (A7, 21), (S2, 22), (S3, 23), (S4, 24),
     (S5, 25), (S6, 26), (S7, 27), (S8, 28), (S9, 29), (S10, 30), (S11, 31), (T3, 32), (T4, 33), (T5, 34),
     (T6, 35)]"

lemma uservec_code_eq:
  "uservec_code = Csrrw A0 Sscratch A0 # saves A0 tf_slots @ [Csrr T0 Sscratch, Sd T0 (8 * of_nat 14) A0] @
     [Ld SP 8 A0, Ld TP 32 A0, Ld T0 16 A0, Ld T1 0 A0, Csrw Satp T1]"
  by (simp add: uservec_code_def saves_def tf_slots_def)

lemma userret_code_eq:
  "userret_code = [Csrw Satp A1, Ld T0 (8 * of_nat 14) A0, Csrw Sscratch T0] @ loads A0 tf_slots @
     [Csrrw A0 Sscratch A0]"
  by (simp add: userret_code_def loads_def tf_slots_def)

definition tf_slot :: "reg \<Rightarrow> nat" where
  "tf_slot r = (if r = A0 then 14 else the (map_of tf_slots r))"

lemma map_of_tf_slots:
  "r \<noteq> A0 \<Longrightarrow> map_of tf_slots r = Some (tf_slot r)"
  "map_of tf_slots A0 = None"
  by (cases r) (simp_all add: tf_slots_def tf_slot_def)

lemma tf_slot_inv:
  "map_of (map (\<lambda>(r, j). (j, r)) tf_slots) (tf_slot r) = (if r = A0 then None else Some r)"
  by (cases r) (simp_all add: tf_slots_def tf_slot_def)

lemma tf_slot_less: "tf_slot r < 1024" "tf_slot r = 14 \<longleftrightarrow> r = A0"
  by (cases r, simp_all add: tf_slots_def tf_slot_def)+

lemma tf_slots_ok: "\<forall>e \<in> set tf_slots. snd e < 1024" "distinct (map snd tf_slots)" "distinct (map fst tf_slots)"
    "\<forall>e \<in> set tf_slots. fst e \<noteq> A0"
  by (simp_all add: tf_slots_def)

lemma uservec_saves:
  "load64 (vmem (run uservec_code m)) (csrs m Sscratch + 8 * of_nat (tf_slot r)) = xr m r"
proof -
  let ?m1 = "exec_instr (Csrrw A0 Sscratch A0) m"
  let ?m2 = "run (saves A0 tf_slots) ?m1"
  have mem: "vmem (run uservec_code m) = store64 (vmem ?m2) (csrs m Sscratch + 8 * of_nat 14) (xr m A0)"
    unfolding uservec_code_eq run_simps by simp
  have "load64 (vmem ?m2) (xr ?m1 A0 + 8 * of_nat (tf_slot r)) = xr m r" if "r \<noteq> A0"
    using that by (subst run_saves_slot) (simp_all add: tf_slots_ok tf_slot_less tf_slot_inv)
  then show ?thesis
    unfolding mem using tf_slot_less [of r] by (subst load64_store64_slot) auto
qed

lemma userret_loads:
  "xr (run userret_code m) r = load64 (vmem m) (xr m A0 + 8 * of_nat (tf_slot r))"
proof -
  let ?m1 = "run [Csrw Satp A1, Ld T0 (8 * of_nat 14) A0, Csrw Sscratch T0] m"
  let ?m2 = "run (loads A0 tf_slots) ?m1"
  have "xr ?m2 q = (case map_of tf_slots q of Some j \<Rightarrow> load64 (vmem ?m1) (xr ?m1 A0 + 8 * of_nat j) | None \<Rightarrow> xr ?m1 q)" for q
    by (rule run_loads_reg) (use tf_slots_ok in auto)
  then have "q \<noteq> A0 \<Longrightarrow> xr ?m2 q = load64 (vmem m) (xr m A0 + 8 * of_nat (tf_slot q))" for q
    by (simp add: map_of_tf_slots)
  moreover have "csrs ?m2 Sscratch = load64 (vmem m) (xr m A0 + 8 * of_nat 14)" by simp
  ultimately show ?thesis
    unfolding userret_code_eq run_simps by (simp add: tf_slot_def)
qed

lemma userret_csrs:
  "csrs (run userret_code m) = (csrs m)(Satp := xr m A1, Sscratch := xr m A0)"
proof -
  let ?m1 = "run [Csrw Satp A1, Ld T0 (8 * of_nat 14) A0, Csrw Sscratch T0] m"
  have "xr (run (loads A0 tf_slots) ?m1) A0 = xr m A0"
    by (subst run_loads_reg) (use tf_slots_ok in \<open>auto simp: map_of_tf_slots\<close>)
  then show ?thesis unfolding userret_code_eq run_simps by auto
qed

text \<open>
  C16: a trap into the kernel and the return from it give a user program its registers back:
  when \<^verbatim>\<open>userret\<close> runs with the trapframe that \<^verbatim>\<open>uservec\<close> filled, in which the kernel
  has changed at most the slot of \<^verbatim>\<open>a0\<close> among the slots of the user's registers, every
  register but \<^verbatim>\<open>a0\<close> has its old value, \<^verbatim>\<open>a0\<close> has the value of its slot, and
  \<^verbatim>\<open>sscratch\<close> points to the trapframe again, ready for the next trap.
\<close>

theorem uservec_userret_roundtrip:
  assumes "xr m' A0 = csrs m Sscratch"
    and "\<And>r. r \<noteq> A0 \<Longrightarrow> load64 (vmem m') (csrs m Sscratch + 8 * of_nat (tf_slot r)) =
      load64 (vmem (run uservec_code m)) (csrs m Sscratch + 8 * of_nat (tf_slot r))"
  shows "xr (run userret_code m') = (xr m)(A0 := load64 (vmem m') (csrs m Sscratch + 112)) \<and>
    csrs (run userret_code m') Sscratch = csrs m Sscratch \<and>
    csrs (run userret_code m') Satp = xr m' A1"
proof (intro conjI ext)
  fix r
  show "xr (run userret_code m') r = ((xr m)(A0 := load64 (vmem m') (csrs m Sscratch + 112))) r"
    using assms(1) assms(2) [of r] uservec_saves [of m r]
    by (cases "r = A0") (simp_all add: userret_loads tf_slot_def)
qed (use assms in \<open>simp_all add: userret_csrs\<close>)

definition user_machine :: machine where
  "user_machine = \<lparr>xr = (\<lambda>r. if r = SP then 0x2ff0 else if r = A0 then 7 else 1),
     csrs = (\<lambda>c. if c = Sscratch then TRAPFRAME else 0), vmem = (\<lambda>_. 0)\<rparr>"

theorem uservec_userret_roundtrip_witness:
  "xr (run userret_code ((run uservec_code user_machine)\<lparr>xr := (\<lambda>_. TRAPFRAME)\<rparr>)) SP = 0x2ff0"
proof -
  let ?m' = "(run uservec_code user_machine)\<lparr>xr := (\<lambda>_. TRAPFRAME)\<rparr>"
  have "xr ?m' A0 = csrs user_machine Sscratch" by (simp add: user_machine_def)
  from uservec_userret_roundtrip [OF this] show ?thesis by (simp add: user_machine_def)
qed

section \<open>The kernel trap vector\<close>

definition kv_slots :: "(reg \<times> nat) list" where
  "kv_slots = [(RA, 0), (SP, 1), (GP, 2), (T0, 4), (T1, 5), (T2, 6), (S0, 7), (S1, 8),
     (A0, 9), (A1, 10), (A2, 11), (A3, 12), (A4, 13), (A5, 14), (A6, 15), (A7, 16), (S2, 17), (S3, 18),
     (S4, 19), (S5, 20), (S6, 21), (S7, 22), (S8, 23), (S9, 24), (S10, 25), (S11, 26), (T3, 27), (T4, 28),
     (T5, 29), (T6, 30)]"

lemma kernelvec_restore_eq: "kernelvec_restore = loads SP kv_slots @ [Addi SP SP 256]"
  by (simp add: kernelvec_restore_def loads_def kv_slots_def)

definition kv_slots_TP :: "(reg \<times> nat) list" where
  "kv_slots_TP = take 3 kv_slots @ [(TP, 3)] @ drop 3 kv_slots"

lemma kernelvec_save_eq: "kernelvec_save = Addi SP SP (- 256) # saves SP kv_slots_TP"
  by (simp add: kernelvec_save_def saves_def kv_slots_TP_def kv_slots_def)

lemma kv_slots_None: "map_of kv_slots r = None \<longleftrightarrow> r = TP"
  by (cases r) (simp_all add: kv_slots_def)

lemma kernelvec_saves:
  assumes "map_of kv_slots r = Some j"
  shows "load64 (vmem (run kernelvec_save m)) (xr m SP - 256 + 8 * of_nat j) =
    (if r = SP then xr m SP - 256 else xr m r)"
proof -
  let ?m1 = "exec_instr (Addi SP SP (- 256)) m"
  have "map_of (map (\<lambda>(r, j). (j, r)) kv_slots_TP) j = Some r" "j < 1024"
    using assms by (auto simp: kv_slots_TP_def kv_slots_def split: if_splits)
  then have "load64 (vmem (run (saves SP kv_slots_TP) ?m1)) (xr ?m1 SP + 8 * of_nat j) = xr ?m1 r"
    by (subst run_saves_slot) (simp_all add: kv_slots_TP_def kv_slots_def)
  then show ?thesis unfolding kernelvec_save_eq run_simps by (auto split: if_splits)
qed

text \<open>
  C18: an interrupt in the kernel is invisible to the code it interrupts: when
  \<^verbatim>\<open>kerneltrap\<close> comes back with the stack pointer it was called with and the saved
  registers on the stack as they were, \<^verbatim>\<open>kernelvec\<close> gives every register its old
  value.  Only \<^verbatim>\<open>tp\<close> is the one \<^verbatim>\<open>kerneltrap\<close> left, because the code may go on on another
  CPU.
\<close>

theorem kernelvec_transparent:
  assumes "xr m' SP = xr m SP - 256"
    and "\<And>k. k < 31 \<Longrightarrow> load64 (vmem m') (xr m SP - 256 + 8 * of_nat k) =
      load64 (vmem (run kernelvec_save m)) (xr m SP - 256 + 8 * of_nat k)"
  shows "xr (run kernelvec_restore m') = (xr m)(TP := xr m' TP)"
proof
  fix r
  have in31: "map_of kv_slots q = Some j \<Longrightarrow> j < 31" for q j
    by (auto simp: kv_slots_def split: if_splits)
  have saved: "map_of kv_slots q = Some j \<Longrightarrow> load64 (vmem m') (xr m' SP + 8 * of_nat j) =
      (if q = SP then xr m SP - 256 else xr m q)" for q j
    using assms in31 [of q j] kernelvec_saves [of q j m] by simp
  have "xr (run (loads SP kv_slots) m') r =
      (case map_of kv_slots r of Some j \<Rightarrow> load64 (vmem m') (xr m' SP + 8 * of_nat j) | None \<Rightarrow> xr m' r)" for r
    by (rule run_loads_reg) (use saved [of SP 1] assms(1) in \<open>simp_all add: kv_slots_def\<close>)
  then have ld: "xr (run (loads SP kv_slots) m') r =
      (if r = TP then xr m' TP else if r = SP then xr m SP - 256 else xr m r)" for r
    using saved [of r] kv_slots_None [of r] by (cases "map_of kv_slots r") (auto split: if_splits)
  show "xr (run kernelvec_restore m') r = ((xr m)(TP := xr m' TP)) r"
    unfolding kernelvec_restore_eq run_simps by (simp add: ld)
qed

theorem kernelvec_transparent_witness:
  "xr (run kernelvec_restore ((run kernelvec_save user_machine)\<lparr>xr := (\<lambda>_. 0)(SP := 0x2ef0)\<rparr>)) A0 = 7"
proof -
  let ?m' = "(run kernelvec_save user_machine)\<lparr>xr := (\<lambda>_. 0)(SP := 0x2ef0)\<rparr>"
  have "xr ?m' SP = xr user_machine SP - 256" by (simp add: user_machine_def)
  from kernelvec_transparent [OF this] show ?thesis by (simp add: user_machine_def)
qed

section \<open>The context switch\<close>

definition ctx_slots :: "(reg \<times> nat) list" where
  "ctx_slots = [(RA, 0), (SP, 1), (S0, 2), (S1, 3), (S2, 4), (S3, 5), (S4, 6), (S5, 7), (S6, 8), (S7, 9),
     (S8, 10), (S9, 11), (S10, 12), (S11, 13)]"

lemma swtch_code_eq: "swtch_code = saves A0 ctx_slots @ loads A1 ctx_slots"
  by (simp add: swtch_code_def saves_def loads_def ctx_slots_def)

text \<open>The callee-saved registers, and the \<^verbatim>\<open>struct context\<close> at an address.\<close>

definition reg_ctx :: "machine \<Rightarrow> swcontext" where
  "reg_ctx m = \<lparr>ctx_ra = xr m RA, ctx_sp = xr m SP,
     ctx_s = map (xr m) [S0, S1, S2, S3, S4, S5, S6, S7, S8, S9, S10, S11]\<rparr>"

definition mem_ctx :: "mem \<Rightarrow> u64 \<Rightarrow> swcontext" where
  "mem_ctx v a = \<lparr>ctx_ra = load64 v a, ctx_sp = load64 v (a + 8),
     ctx_s = map (\<lambda>k. load64 v (a + 8 * of_nat k)) [2, 3, 4, 5, 6, 7, 8, 9, 10, 11, 12, 13]\<rparr>"

definition ctx_cells :: "u64 \<Rightarrow> u64 set" where
  "ctx_cells a = (\<Union>k<14. cell64 (a + 8 * of_nat k))"

lemma saves_outside:
  assumes "\<forall>e \<in> set tab. snd e < 14" and "cell64 c \<inter> ctx_cells (xr m b) = {}"
  shows "load64 (vmem (run (saves b tab) m)) c = load64 (vmem m) c"
  using assms
proof (induction tab arbitrary: m)
  case (Cons e tab)
  obtain r j where e: "e = (r, j)" by (cases e)
  have "cell64 c \<inter> cell64 (xr m b + 8 * of_nat j) = {}"
    using Cons.prems by (force simp: e ctx_cells_def)
  then show ?case using Cons by (simp add: e run_saves_Cons load64_store64_disjoint)
qed (simp add: saves_def)

text \<open>
  C17: the assembly of \<^verbatim>\<open>swtch.S\<close> implements the context switch that the scheduler's model
  uses: with the two contexts in separate memory, the old context holds the registers from
  before the switch and the registers hold the new context.
\<close>

theorem swtch_code_refines:
  assumes "ctx_cells (xr m A0) \<inter> ctx_cells (xr m A1) = {}"
  shows "(mem_ctx (vmem (run swtch_code m)) (xr m A0), reg_ctx (run swtch_code m)) =
    swtch (reg_ctx m) (mem_ctx (vmem m) (xr m A1))"
proof -
  let ?m1 = "run (saves A0 ctx_slots) m"
  have ok: "\<forall>e \<in> set ctx_slots. snd e < 1024" "distinct (map snd ctx_slots)"
    by (simp_all add: ctx_slots_def)
  have saved: "k < 14 \<Longrightarrow> load64 (vmem ?m1) (xr m A0 + 8 * of_nat k) =
      (case map_of (map (\<lambda>(r, j). (j, r)) ctx_slots) k of Some r \<Rightarrow> xr m r |
         None \<Rightarrow> load64 (vmem m) (xr m A0 + 8 * of_nat k))" for k
    by (rule run_saves_slot) (use ok in auto)
  have kept: "k < 14 \<Longrightarrow> load64 (vmem ?m1) (xr m A1 + 8 * of_nat k) = load64 (vmem m) (xr m A1 + 8 * of_nat k)" for k
    by (rule saves_outside) (use assms in \<open>auto simp: ctx_slots_def ctx_cells_def\<close>)
  have loaded: "xr (run swtch_code m) r = (case map_of ctx_slots r of
      Some j \<Rightarrow> load64 (vmem ?m1) (xr m A1 + 8 * of_nat j) | None \<Rightarrow> xr m r)" for r
    unfolding swtch_code_eq run_simps by (subst run_loads_reg) (simp_all add: ctx_slots_def)
  have mem: "vmem (run swtch_code m) = vmem ?m1" unfolding swtch_code_eq by simp
  have slots: "map_of (map (\<lambda>(r, j). (j, r)) ctx_slots) = map_of [(0, RA), (1, SP), (2, S0), (3, S1), (4, S2),
      (5, S3), (6, S4), (7, S5), (8, S6), (9, S7), (10, S8), (11, S9), (12, S10), (13, S11)]"
    by (simp add: ctx_slots_def)
  have "mem_ctx (vmem ?m1) (xr m A0) = reg_ctx m"
    using saved [of 0] saved [of 1] saved [of 2] saved [of 3] saved [of 4] saved [of 5] saved [of 6] saved [of 7]
      saved [of 8] saved [of 9] saved [of 10] saved [of 11] saved [of 12] saved [of 13]
    by (simp add: mem_ctx_def reg_ctx_def slots)
  moreover have "reg_ctx (run swtch_code m) = mem_ctx (vmem m) (xr m A1)"
    using kept [of 0] kept [of 1] kept [of 2] kept [of 3] kept [of 4] kept [of 5] kept [of 6] kept [of 7]
      kept [of 8] kept [of 9] kept [of 10] kept [of 11] kept [of 12] kept [of 13]
    unfolding mem_ctx_def reg_ctx_def by (simp add: loaded ctx_slots_def)
  ultimately show ?thesis by (simp add: mem swtch_def)
qed

theorem swtch_code_refines_witness:
  "(mem_ctx (vmem (run swtch_code (user_machine\<lparr>xr := (xr user_machine)(A0 := 0x1000, A1 := 0x2000)\<rparr>))) 0x1000,
    reg_ctx (run swtch_code (user_machine\<lparr>xr := (xr user_machine)(A0 := 0x1000, A1 := 0x2000)\<rparr>))) =
   (\<lparr>ctx_ra = 1, ctx_sp = 0x2ff0, ctx_s = replicate 12 1\<rparr>, \<lparr>ctx_ra = 0, ctx_sp = 0, ctx_s = replicate 12 0\<rparr>)"
proof -
  let ?m = "user_machine\<lparr>xr := (xr user_machine)(A0 := 0x1000, A1 := 0x2000)\<rparr>"
  have u: "unat (0x1000 + 8 * of_nat k :: u64) = 4096 + 8 * k" "unat (0x2000 + 8 * of_nat k :: u64) = 8192 + 8 * k"
    if "k < 14" for k
    using that unat_of_nat_64 [of "4096 + 8 * k"] unat_of_nat_64 [of "8192 + 8 * k"] by simp_all
  have "unat (0x1000 + 8 * of_nat j - (0x2000 + 8 * of_nat k) :: u64) \<ge> 8"
       "unat (0x2000 + 8 * of_nat k - (0x1000 + 8 * of_nat j) :: u64) \<ge> 8" if "j < 14" "k < 14" for j k
    using that by (simp_all only: unat_sub_if_size u word_size) auto
  then have "cell64 (0x1000 + 8 * of_nat j) \<inter> cell64 (0x2000 + 8 * of_nat k) = {}" if "j < 14" "k < 14" for j k
    using that by (intro cell64_far) auto
  then have "ctx_cells (xr ?m A0) \<inter> ctx_cells (xr ?m A1) = {}"
    by (fastforce simp: ctx_cells_def)
  from swtch_code_refines [OF this] show ?thesis
    by (simp add: swtch_def reg_ctx_def mem_ctx_def user_machine_def load64_def bytes8_def le_cons_def numeral_eq_Suc)
qed

section \<open>The timer vector\<close>

text \<open>
  C25: the machine-mode timer interrupt is invisible to the code it interrupts, moves the time
  of the next interrupt on by the interval that \<^verbatim>\<open>timerinit\<close> stored, and raises a
  software interrupt for the supervisor.
\<close>

theorem timervec_rearms:
  fixes m :: machine
  defines "a \<equiv> csrs m Mscratch" and "t \<equiv> load64 (vmem m) (csrs m Mscratch + 24)"
  assumes apart: "\<And>k. k < 5 \<Longrightarrow> cell64 t \<inter> cell64 (a + 8 * of_nat k) = {}"
  shows "xr (run timervec_code m) = xr m \<and>
    load64 (vmem (run timervec_code m)) t = load64 (vmem m) t + load64 (vmem m) (a + 32) \<and>
    csrs (run timervec_code m) = (csrs m)(Sip := 2)"
proof -
  let ?v = "store64 (store64 (store64 (vmem m) a (xr m A1)) (a + 8) (xr m A2)) (a + 16) (xr m A3)"
  note slot = load64_store64_slot [where a = a]
  have v: "load64 ?v a = xr m A1" "load64 ?v (a + 8) = xr m A2" "load64 ?v (a + 16) = xr m A3"
      "load64 ?v (a + 24) = t" "load64 ?v (a + 32) = load64 (vmem m) (a + 32)"
    using slot [of 0 1] slot [of 0 2] slot [of 1 2] slot [of 3 0] slot [of 3 1] slot [of 3 2]
      slot [of 4 0] slot [of 4 1] slot [of 4 2] by (simp_all add: a_def t_def)
  have vt: "load64 ?v t = load64 (vmem m) t"
    using apart [of 0] apart [of 1] apart [of 2] by (simp add: load64_store64_disjoint)
  have w: "load64 (store64 u t z) a = load64 u a" "load64 (store64 u t z) (a + 8) = load64 u (a + 8)"
      "load64 (store64 u t z) (a + 16) = load64 u (a + 16)" for u z
    using apart [of 0] apart [of 1] apart [of 2] by (simp_all add: load64_store64_disjoint Int_commute)
  show ?thesis
    unfolding timervec_code_def run_simps by (auto simp: v vt w simp flip: a_def)
qed

theorem timervec_rearms_witness:
  "load64 (vmem (run timervec_code (user_machine\<lparr>csrs := (\<lambda>_. 0)(Mscratch := 0x1000),
     vmem := store64 (store64 (\<lambda>_. 0) 0x1018 0x2004000) 0x1020 1000000\<rparr>))) 0x2004000 = 1000000"
proof -
  let ?m = "user_machine\<lparr>csrs := (\<lambda>_. 0)(Mscratch := 0x1000),
     vmem := store64 (store64 (\<lambda>_. 0) 0x1018 0x2004000) 0x1020 1000000\<rparr>"
  have ld: "load64 (vmem ?m) 0x1018 = 0x2004000" "load64 (vmem ?m) 0x1020 = 1000000" "load64 (vmem ?m) 0x2004000 = 0"
    using load64_store64_slot [of 3 4 "store64 (\<lambda>_. 0) 0x1018 0x2004000" "0x1000" 1000000]
    by (simp_all add: load64_store64_disjoint cell64_far) (simp add: load64_def bytes8_def le_cons_def)
  have u: "unat (0x1000 + 8 * of_nat k :: u64) = 4096 + 8 * k" if "k < 5" for k
    using that unat_of_nat_64 [of "4096 + 8 * k"] by simp
  have "cell64 0x2004000 \<inter> cell64 (0x1000 + 8 * of_nat k) = {}" if "k < 5" for k
    by (rule cell64_far) (use that in \<open>simp_all only: unat_sub_if_size u word_size, auto\<close>)
  then have "cell64 (load64 (vmem ?m) (csrs ?m Mscratch + 24)) \<inter> cell64 (csrs ?m Mscratch + 8 * of_nat k) = {}" if "k < 5" for k
    using that ld by simp
  from timervec_rearms [OF this] ld show ?thesis by simp
qed

end
