(* ===== verification/Sleeplock.thy ===== *)
theory Sleeplock
  imports Sched
begin

text \<open>
  Sleep locks, \<^verbatim>\<open>kernel/sleeplock.c\<close>.  Each operation runs under the lock's own spin
  lock and is one step; \<^verbatim>\<open>acquiresleep\<close> on a lock that is held sleeps.
\<close>

record sleeplock =
  sl_locked :: u32
  sl_name :: string
  sl_pid :: i32

definition initsleeplock :: "string \<Rightarrow> sleeplock" where
  "initsleeplock name = \<lparr>sl_locked = 0, sl_name = name, sl_pid = 0\<rparr>"

definition acquiresleep :: "sleeplock \<Rightarrow> 'a kernel_state_scheme \<Rightarrow> sleeplock res" where
  "acquiresleep lk s =
     (if sl_locked lk \<noteq> 0 then Waits ''sleeplock''
      else deref (myproc s) (\<lambda>p. Ok (lk\<lparr>sl_locked := 1, sl_pid := p_pid (ptable s p)\<rparr>)))"

definition releasesleep ::
  "chan \<Rightarrow> sleeplock \<Rightarrow> 'a kernel_state_scheme \<Rightarrow> sleeplock \<times> 'a kernel_state_scheme" where
  "releasesleep c lk s = (lk\<lparr>sl_locked := 0, sl_pid := 0\<rparr>, wakeup c s)"

definition holdingsleep :: "sleeplock \<Rightarrow> 'a kernel_state_scheme \<Rightarrow> bool res" where
  "holdingsleep lk s =
     (if sl_locked lk = 0 then Ok False
      else deref (myproc s) (\<lambda>p. Ok (sl_pid lk = p_pid (ptable s p))))"

lemma holdingsleep_acquired:
  assumes "acquiresleep lk s = Ok lk'"
  shows "holdingsleep lk' s = Ok True" and "sl_locked lk = 0" and "sl_locked lk' = 1"
  using assms by (auto simp: acquiresleep_def holdingsleep_def split: if_splits elim!: deref_eq_OkE)

end
