(* ===== verification/Uart.thy ===== *)
theory Uart
  imports Sched
begin

text \<open>
  The driver of the 16550 UART, \<^verbatim>\<open>kernel/uart.c\<close>.  The device is seen through its
  registers: \<open>uart_ctl\<close> records the writes to the control registers, \<open>uart_sent\<close> the bytes
  written to the transmit register, \<open>uart_rx\<close> the received bytes that have not been read,
  and \<open>uart_idle\<close> the answers of the device to the driver's successive reads of the bit
  ``transmit register empty'' (the answer to the next read is \<open>uart_idle s 0\<close>).
\<close>

section \<open>State\<close>

abbreviation (input) UART_TX_BUF_SIZE :: nat where "UART_TX_BUF_SIZE \<equiv> 32"

record uart_state = kernel_state +
  uart_tx_buf :: "nat \<Rightarrow> u8"
  uart_tx_w :: u64
  uart_tx_r :: u64
  uart_ctl :: "(nat \<times> u8) list"
  uart_sent :: "u8 list"
  uart_rx :: "u8 list"
  uart_idle :: "nat \<Rightarrow> bool"
  panicked :: i32
  pr_locking :: i32

text \<open>The driver with its static data zeroed.\<close>

definition uart_zero :: uart_state where
  "uart_zero = kernel_state.extend boot_state (uart_state.fields (\<lambda>_. 0) 0 0 [] [] [] (\<lambda>_. True) 0 0)"

lemmas uart_zero_simps [zero_simps] = uart_zero_def kernel_state.defs uart_state.defs

definition WriteCtl :: "nat \<Rightarrow> u8 \<Rightarrow> 'a uart_state_scheme \<Rightarrow> 'a uart_state_scheme" where
  "WriteCtl r v s = s\<lparr>uart_ctl := uart_ctl s @ [(r, v)]\<rparr>"

definition WriteTHR :: "u8 \<Rightarrow> 'a uart_state_scheme \<Rightarrow> 'a uart_state_scheme" where
  "WriteTHR c s = s\<lparr>uart_sent := uart_sent s @ [c]\<rparr>"

definition tx_idle :: "'a uart_state_scheme \<Rightarrow> bool \<times> 'a uart_state_scheme" where
  "tx_idle s = (uart_idle s 0, s\<lparr>uart_idle := (\<lambda>n. uart_idle s (Suc n))\<rparr>)"

section \<open>Operations\<close>

definition uartinit :: "'a uart_state_scheme \<Rightarrow> 'a uart_state_scheme" where
  "uartinit s =
     (let s = WriteCtl 1 0x00 s;
          s = WriteCtl 3 0x80 s;
          s = WriteCtl 0 0x03 s;
          s = WriteCtl 1 0x00 s;
          s = WriteCtl 3 0x03 s;
          s = WriteCtl 2 0x07 s
      in WriteCtl 1 0x03 s)"

text \<open>
  \<^verbatim>\<open>uartstart\<close> sends until the buffer is empty or the device is busy.  Each round
  advances \<^verbatim>\<open>uart_tx_r\<close> towards \<^verbatim>\<open>uart_tx_w\<close>, so the loop ends.
\<close>

definition uart_pop :: "'a uart_state_scheme \<Rightarrow> u8 \<times> 'a uart_state_scheme" where
  "uart_pop s = (uart_tx_buf s (unat (uart_tx_r s) mod UART_TX_BUF_SIZE), s\<lparr>uart_tx_r := uart_tx_r s + 1\<rparr>)"

fun uartstart_loop :: "nat \<Rightarrow> 'a uart_state_scheme \<Rightarrow> 'a uart_state_scheme" where
  "uartstart_loop 0 s = s"
| "uartstart_loop (Suc k) s =
     (case tx_idle s of (idle, s) \<Rightarrow>
        if \<not> idle then s
        else case uart_pop s of (c, s) \<Rightarrow> uartstart_loop k (WriteTHR c (wakeup Uart_tx_r s)))"

definition uartstart :: "'a uart_state_scheme \<Rightarrow> 'a uart_state_scheme" where
  "uartstart s = uartstart_loop (unat (uart_tx_w s - uart_tx_r s)) s"

definition uart_full :: "'a uart_state_scheme \<Rightarrow> bool" where
  "uart_full s \<longleftrightarrow> uart_tx_w s = uart_tx_r s + of_nat UART_TX_BUF_SIZE"

definition uart_push :: "u8 \<Rightarrow> 'a uart_state_scheme \<Rightarrow> 'a uart_state_scheme" where
  "uart_push c s =
     s\<lparr>uart_tx_buf := (uart_tx_buf s)(unat (uart_tx_w s) mod UART_TX_BUF_SIZE := c),
       uart_tx_w := uart_tx_w s + 1\<rparr>"

definition uartputc :: "i32 \<Rightarrow> 'a uart_state_scheme \<Rightarrow> 'a uart_state_scheme res" where
  "uartputc c s =
     (if panicked s \<noteq> 0 then Waits ''panicked''
      else if uart_full s then Waits ''uart_tx_r''
      else Ok (uartstart (uart_push (ucast c) s)))"

text \<open>\<^verbatim>\<open>uartputc_sync\<close> spins while the device is busy.\<close>

definition uartputc_sync :: "i32 \<Rightarrow> 'a uart_state_scheme \<Rightarrow> 'a uart_state_scheme res" where
  "uartputc_sync c s =
     (if panicked s \<noteq> 0 then Waits ''panicked''
      else case tx_idle s of (idle, s) \<Rightarrow>
        if idle then Ok (WriteTHR (ucast c) s) else Waits ''uart'')"

definition uartgetc :: "'a uart_state_scheme \<Rightarrow> i32 \<times> 'a uart_state_scheme" where
  "uartgetc s =
     (case uart_rx s of [] \<Rightarrow> (- 1, s) | c # cs \<Rightarrow> (ucast c, s\<lparr>uart_rx := cs\<rparr>))"

end
