(* ===== verification/Printf.thy ===== *)
theory Printf
  imports Uart
begin

text \<open>
  Formatted console output, \<^verbatim>\<open>kernel/printf.c\<close>, over the character output
  \<^verbatim>\<open>consputc\<close> of \<^verbatim>\<open>kernel/console.c\<close>, and the process listing
  \<^verbatim>\<open>procdump\<close> of \<^verbatim>\<open>kernel/proc.c\<close> and the page-table listing of \<^verbatim>\<open>kernel/vm.c\<close>.  A
  variable argument is a 64-bit register or a string pointer; a conversion that does not
  fit its argument has no defined result and is the error \<open>va_arg\<close>.
\<close>

abbreviation (input) BACKSPACE :: i32 where "BACKSPACE \<equiv> 0x100"

definition consputc :: "i32 \<Rightarrow> 'a uart_state_scheme \<Rightarrow> 'a uart_state_scheme res" where
  "consputc c s =
     (if c = BACKSPACE
      then bnd (uartputc_sync 8 s) (\<lambda>s. bnd (uartputc_sync 32 s) (uartputc_sync 8))
      else uartputc_sync c s)"

section \<open>Numbers\<close>

definition digits :: "nat \<Rightarrow> u8" where
  "digits k = map of_char ''0123456789abcdef'' ! k"

text \<open>The digits of \<open>x\<close> from the least significant one on, as the loop stores them.\<close>

function digit_loop :: "nat \<Rightarrow> nat \<Rightarrow> u8 list" where
  "digit_loop base x =
     digits (x mod base) # (if base \<le> 1 \<or> x div base = 0 then [] else digit_loop base (x div base))"
  by pat_completeness auto
termination
  by (relation "measure snd") (auto simp: div_eq_0_iff intro!: div_less_dividend)

declare digit_loop.simps [simp del]

definition printint_buf :: "i32 \<Rightarrow> nat \<Rightarrow> bool \<Rightarrow> u8 list" where
  "printint_buf xx base sg =
     (let neg = (sg \<and> sint xx < 0);
          x = (if neg then - xx else xx)
      in digit_loop base (unat x) @ (if neg then [45] else []))"

definition printint :: "i32 \<Rightarrow> nat \<Rightarrow> bool \<Rightarrow> 'a uart_state_scheme \<Rightarrow> 'a uart_state_scheme res" where
  "printint xx base sg s = fold_res (\<lambda>c. consputc (ucast c)) (rev (printint_buf xx base sg)) s"

definition printptr :: "u64 \<Rightarrow> 'a uart_state_scheme \<Rightarrow> 'a uart_state_scheme res" where
  "printptr x s =
     bnd (consputc 48 s) (\<lambda>s.
     bnd (consputc 120 s) (\<lambda>s.
     fold_res (\<lambda>i. consputc (ucast (digits (unat (drop_bit 60 (push_bit (4 * i) x)))))) [0..<16] s))"

section \<open>Formats\<close>

datatype vararg = Reg u64 | Str "u8 list option"

text \<open>One conversion, with the arguments that are left.\<close>

definition conversion ::
  "u8 \<Rightarrow> vararg list \<Rightarrow> 'a uart_state_scheme \<Rightarrow> (vararg list \<times> 'a uart_state_scheme) res" where
  "conversion c ap s =
     (if c = of_char (CHR ''d'') then
        (case ap of Reg w # ap \<Rightarrow> bnd (printint (ucast w) 10 True s) (\<lambda>s. Ok (ap, s)) | _ \<Rightarrow> Panic ''va_arg'')
      else if c = of_char (CHR ''x'') then
        (case ap of Reg w # ap \<Rightarrow> bnd (printint (ucast w) 16 True s) (\<lambda>s. Ok (ap, s)) | _ \<Rightarrow> Panic ''va_arg'')
      else if c = of_char (CHR ''p'') then
        (case ap of Reg w # ap \<Rightarrow> bnd (printptr w s) (\<lambda>s. Ok (ap, s)) | _ \<Rightarrow> Panic ''va_arg'')
      else if c = of_char (CHR ''s'') then
        (case ap of Str t # ap \<Rightarrow>
           bnd (fold_res (\<lambda>c. consputc (ucast c)) (case t of None \<Rightarrow> map of_char ''(null)'' | Some u \<Rightarrow> u) s)
             (\<lambda>s. Ok (ap, s))
         | _ \<Rightarrow> Panic ''va_arg'')
      else if c = of_char (CHR ''%'') then bnd (consputc 37 s) (\<lambda>s. Ok (ap, s))
      else bnd (consputc 37 s) (\<lambda>s. bnd (consputc (ucast c) s) (\<lambda>s. Ok (ap, s))))"

fun printf_loop :: "u8 list \<Rightarrow> vararg list \<Rightarrow> 'a uart_state_scheme \<Rightarrow> 'a uart_state_scheme res" where
  "printf_loop [] ap s = Ok s"
| "printf_loop (c # fmt) ap s =
     (if c \<noteq> 37 then bnd (consputc (ucast c) s) (printf_loop fmt ap)
      else case fmt of [] \<Rightarrow> Ok s
        | c # fmt \<Rightarrow> bnd (conversion c ap s) (\<lambda>(ap, s). printf_loop fmt ap s))"

text \<open>The lock around the loop makes the call one step.\<close>

definition printf :: "string \<Rightarrow> vararg list \<Rightarrow> 'a uart_state_scheme \<Rightarrow> 'a uart_state_scheme res" where
  "printf fmt ap s = printf_loop (map of_char fmt) ap s"

definition printfinit :: "'a uart_state_scheme \<Rightarrow> 'a uart_state_scheme" where
  "printfinit s = s\<lparr>pr_locking := 1\<rparr>"

text \<open>What \<^verbatim>\<open>panic\<close> does before it stops.\<close>

definition panic_output :: "string \<Rightarrow> 'a uart_state_scheme \<Rightarrow> 'a uart_state_scheme res" where
  "panic_output m s =
     bnd (printf ''panic: '' [] (s\<lparr>pr_locking := 0\<rparr>)) (\<lambda>s.
     bnd (printf m [] s) (\<lambda>s.
     bnd (printf [CHR 0x0A] [] s) (\<lambda>s. Ok (s\<lparr>panicked := 1\<rparr>))))"

section \<open>Listings\<close>

text \<open>
  The table of names has no entry for \<^verbatim>\<open>USED\<close>; the name of a process is the string in its
  16-byte array.
\<close>

definition state_name :: "procstate \<Rightarrow> string" where
  "state_name st = (case st of UNUSED \<Rightarrow> ''unused'' | USED \<Rightarrow> ''???'' | SLEEPING \<Rightarrow> ''sleep ''
     | RUNNABLE \<Rightarrow> ''runble'' | RUNNING \<Rightarrow> ''run   '' | ZOMBIE \<Rightarrow> ''zombie'')"

definition proc_name :: "proc \<Rightarrow> u8 list" where
  "proc_name p = cstr 16 (p_name p)"

definition procdump_line :: "nat \<Rightarrow> 'a uart_state_scheme \<Rightarrow> 'a uart_state_scheme res" where
  "procdump_line i s =
     (let p = ptable s i
      in if p_state p = UNUSED then Ok s
         else bnd (printf ''%d %s %s'' [Reg (scast (p_pid p)), Str (Some (map of_char (state_name (p_state p)))),
                Str (Some (proc_name p))] s) (printf [CHR 0x0A] []))"

definition procdump :: "'a uart_state_scheme \<Rightarrow> 'a uart_state_scheme res" where
  "procdump s = bnd (printf [CHR 0x0A] [] s) (fold_res procdump_line [0..<NPROC])"

text \<open>
  \<^verbatim>\<open>vmprint_rev\<close> descends through valid entries that are not leaves.  The first argument
  bounds the depth; in a table of three levels the entries of the third are leaves.
\<close>

fun vmprint_rev :: "nat \<Rightarrow> u64 \<Rightarrow> nat \<Rightarrow> 'a uart_state_scheme \<Rightarrow> 'a uart_state_scheme res" where
  "vmprint_rev 0 pagetable level s = Panic ''vmprint: depth''"
| "vmprint_rev (Suc d) pagetable level s =
     fold_res (\<lambda>i s.
       let pte = load64 (ram s) (pagetable + 8 * of_nat i); child = PTE2PA pte
       in if pte AND PTE_V = 0 then Ok s
          else bnd (printf (if level = 0 then ''..'' else if level = 1 then ''.. ..''
                            else if level = 2 then ''.. .. ..'' else []) [] s) (\<lambda>s.
               bnd (printf (''%d: pte %p pa %p'' @ [CHR 0x0A]) [Reg (of_nat i), Reg pte, Reg child] s) (\<lambda>s.
               if pte AND (PTE_R OR PTE_W OR PTE_X) = 0 then vmprint_rev d child (Suc level) s
               else Ok s)))
     [0..<512] s"

declare vmprint_rev.simps [simp del]

definition pgtblprint :: "'a uart_state_scheme \<Rightarrow> 'a uart_state_scheme res" where
  "pgtblprint s = deref (myproc s) (\<lambda>p.
     let pagetable = p_pagetable (ptable s p)
     in bnd (printf (''page table %p'' @ [CHR 0x0A]) [Reg pagetable] s) (vmprint_rev 3 pagetable 0))"

end
