(* ===== verification/Console.thy ===== *)
theory Console
  imports Printf
begin

text \<open>
  The console, \<^verbatim>\<open>kernel/console.c\<close>, and the UART's interrupt handler, which feeds it: a
  line-editing input buffer with the indices \<^verbatim>\<open>r\<close> (read), \<^verbatim>\<open>w\<close> (end of the last
  complete line) and \<^verbatim>\<open>e\<close> (end of the line that is being edited).  \<open>devsw\<close> is the table of
  device functions, in which the console is the only entry.
\<close>

section \<open>State\<close>

abbreviation (input) INPUT_BUF :: nat where "INPUT_BUF \<equiv> 128"
abbreviation (input) CONSOLE :: nat where "CONSOLE \<equiv> 1"

datatype devfn = Console_fn

record console_state = uart_state +
  cons_buf :: "nat \<Rightarrow> u8"
  cons_r :: u32
  cons_w :: u32
  cons_e :: u32
  devsw_read :: "nat \<Rightarrow> devfn option"
  devsw_write :: "nat \<Rightarrow> devfn option"

text \<open>The console with its static data zeroed.\<close>

definition console_zero :: console_state where
  "console_zero = uart_state.extend uart_zero (console_state.fields (\<lambda>_. 0) 0 0 0 (\<lambda>_. None) (\<lambda>_. None))"

lemmas console_zero_simps [zero_simps] = console_zero_def uart_state.defs console_state.defs

section \<open>Output\<close>

fun consolewrite_loop ::
  "nat \<Rightarrow> nat \<Rightarrow> loc \<Rightarrow> cptr \<Rightarrow> 'a console_state_scheme \<Rightarrow> (i32 \<times> 'a console_state_scheme) res" where
  "consolewrite_loop 0 i src obj s = Ok (of_nat i, s)"
| "consolewrite_loop (Suc k) i src obj s =
     bnd (either_copyin (\<lambda>_. 0) 0 (loc_add src i) 1 obj s) (\<lambda>(r, c, s).
       if r = - 1 then Ok (of_nat i, s)
       else bnd (uartputc (ucast (c 0)) s) (consolewrite_loop k (Suc i) src obj))"

definition consolewrite ::
  "loc \<Rightarrow> i32 \<Rightarrow> cptr \<Rightarrow> 'a console_state_scheme \<Rightarrow> (i32 \<times> 'a console_state_scheme) res" where
  "consolewrite src n obj s = consolewrite_loop (nat (sint n)) 0 src obj s"

section \<open>Input\<close>

text \<open>
  A turn of \<^verbatim>\<open>consoleread\<close>, with \<open>n\<close> bytes left of \<open>target\<close>: the local variables at a
  sleep are \<open>n\<close> and \<open>dst\<close>.
\<close>

fun consoleread_loop :: "u32 \<Rightarrow> nat \<Rightarrow> loc \<Rightarrow> cptr \<times> 'a console_state_scheme \<Rightarrow>
    (i32, nat \<times> loc, cptr \<times> 'a console_state_scheme) turn res" where
  "consoleread_loop target 0 dst (obj, s) = Ok (Return target (obj, s))"
| "consoleread_loop target (Suc k) dst (obj, s) =
     (let n = of_nat (Suc k) :: u32
      in if cons_r s = cons_w s
         then deref (myproc s) (\<lambda>p.
           if p_killed (ptable s p) \<noteq> 0 then Ok (Return (- 1) (obj, s))
           else bnd (sleep_on Cons_r s) (\<lambda>s. Ok (Sleep (Suc k, dst) (obj, s))))
         else let c = cons_buf s (unat (cons_r s) mod INPUT_BUF);
                  s = s\<lparr>cons_r := cons_r s + 1\<rparr>
              in if c = 4
                 then Ok (Return (target - n) (obj, if n < target then s\<lparr>cons_r := cons_r s - 1\<rparr> else s))
                 else bnd (either_copyout dst (\<lambda>_. c) 0 1 obj s) (\<lambda>(r, obj, s).
                   if r = - 1 then Ok (Return (target - n) (obj, s))
                   else if c = 10 then Ok (Return (target - (n - 1)) (obj, s))
                   else consoleread_loop target k (loc_add dst 1) (obj, s)))"

definition consoleread :: "loc \<Rightarrow> i32 \<Rightarrow> cptr \<times> 'a console_state_scheme \<Rightarrow>
    (i32, nat \<times> loc, cptr \<times> 'a console_state_scheme) turn res" where
  "consoleread dst n s =
     (if sint n \<le> 0 then Ok (Return 0 s) else consoleread_loop n (nat (sint n)) dst s)"

text \<open>\<^verbatim>\<open>Control-U\<close> erases back to the start of the line.\<close>

fun kill_line :: "nat \<Rightarrow> 'a console_state_scheme \<Rightarrow> 'a console_state_scheme res" where
  "kill_line 0 s = Ok s"
| "kill_line (Suc k) s =
     (if cons_buf s (unat (cons_e s - 1) mod INPUT_BUF) = 10 then Ok s
      else bnd (consputc BACKSPACE (s\<lparr>cons_e := cons_e s - 1\<rparr>)) (kill_line k))"

definition cons_store :: "i32 \<Rightarrow> 'a console_state_scheme \<Rightarrow> 'a console_state_scheme" where
  "cons_store c s =
     (let s = s\<lparr>cons_buf := (cons_buf s)(unat (cons_e s) mod INPUT_BUF := ucast c), cons_e := cons_e s + 1\<rparr>
      in if c = 10 \<or> c = 4 \<or> cons_e s = cons_r s + of_nat INPUT_BUF
         then wakeup Cons_r (s\<lparr>cons_w := cons_e s\<rparr>) else s)"

definition consoleintr :: "i32 \<Rightarrow> 'a console_state_scheme \<Rightarrow> 'a console_state_scheme res" where
  "consoleintr c s =
     (if c = 16 then procdump s
      else if c = 21 then kill_line (unat (cons_e s - cons_w s)) s
      else if c = 8 \<or> c = 0x7f then
        (if cons_e s \<noteq> cons_w s then consputc BACKSPACE (s\<lparr>cons_e := cons_e s - 1\<rparr>) else Ok s)
      else if c \<noteq> 0 \<and> cons_e s - cons_r s < of_nat INPUT_BUF
      then let c = (if c = 13 then 10 else c)
           in bnd (consputc c s) (\<lambda>s. Ok (cons_store c s))
      else Ok s)"

text \<open>The interrupt handler reads until no input is waiting; handling does not add input.\<close>

fun uartintr_loop :: "nat \<Rightarrow> 'a console_state_scheme \<Rightarrow> 'a console_state_scheme res" where
  "uartintr_loop 0 s = Ok s"
| "uartintr_loop (Suc k) s =
     (case uartgetc s of (c, s) \<Rightarrow>
        if c = - 1 then Ok s else bnd (consoleintr c s) (uartintr_loop k))"

definition uartintr :: "'a console_state_scheme \<Rightarrow> 'a console_state_scheme res" where
  "uartintr s = bnd (uartintr_loop (length (uart_rx s)) s) (\<lambda>s. Ok (uartstart s))"

definition consoleinit :: "'a console_state_scheme \<Rightarrow> 'a console_state_scheme" where
  "consoleinit s =
     (let s = uartinit s
      in s\<lparr>devsw_read := (devsw_read s)(CONSOLE := Some Console_fn),
           devsw_write := (devsw_write s)(CONSOLE := Some Console_fn)\<rparr>)"

end
