(* ===== verification/Bio.thy ===== *)
theory Bio
  imports Sleeplock Console
begin

text \<open>
  The buffer cache, \<^verbatim>\<open>kernel/bio.c\<close>: \<^verbatim>\<open>NBUF\<close> buffers on a doubly linked list in
  order of use.  The list is modelled by its links: a buffer is an index below
  \<^verbatim>\<open>NBUF\<close>, and \<^verbatim>\<open>bcache.head\<close> is the index \<^verbatim>\<open>NBUF\<close>.  The disk is a function from
  block numbers to blocks; \<open>dwrites\<close> records every write to it, in order, which is what a
  crash can cut short.
\<close>

section \<open>State\<close>

abbreviation (input) NBUF :: nat where "NBUF \<equiv> 30"
abbreviation (input) BSIZE :: nat where "BSIZE \<equiv> 1024"
abbreviation (input) ROOTDEV :: u32 where "ROOTDEV \<equiv> 1"

text \<open>A block is an array of \<^verbatim>\<open>BSIZE\<close> bytes; copying a whole block copies the array.\<close>

type_synonym block = "nat \<Rightarrow> u8"

record buf =
  b_valid :: i32
  b_disk :: i32
  b_dev :: u32
  b_blockno :: u32
  b_lock :: sleeplock
  b_refcnt :: u32
  b_prev :: nat
  b_next :: nat
  b_data :: block

record bio_state = console_state +
  bufs :: "nat \<Rightarrow> buf"
  disk :: "u32 \<Rightarrow> block"
  dwrites :: "(u32 \<times> block) list"

text \<open>The buffer cache with its static data zeroed.\<close>

definition buf_zero :: buf where
  "buf_zero = \<lparr>b_valid = 0, b_disk = 0, b_dev = 0, b_blockno = 0, b_lock = \<lparr>sl_locked = 0, sl_name = [], sl_pid = 0\<rparr>,
     b_refcnt = 0, b_prev = 0, b_next = 0, b_data = (\<lambda>_. 0)\<rparr>"

definition bio_zero :: bio_state where
  "bio_zero = console_state.extend console_zero (bio_state.fields (\<lambda>_. buf_zero) (\<lambda>_ _. 0) [])"

lemmas bio_zero_simps [zero_simps] = bio_zero_def buf_zero_def console_state.defs bio_state.defs

definition upd_buf :: "nat \<Rightarrow> (buf \<Rightarrow> buf) \<Rightarrow> 'a bio_state_scheme \<Rightarrow> 'a bio_state_scheme" where
  "upd_buf b f s = s\<lparr>bufs := (bufs s)(b := f (bufs s b))\<rparr>"

subsection \<open>Fields of structures in a block\<close>

definition get16 :: "block \<Rightarrow> nat \<Rightarrow> u16" where
  "get16 d k = bytes2 (d k) (d (k + 1))"

definition put16 :: "block \<Rightarrow> nat \<Rightarrow> u16 \<Rightarrow> block" where
  "put16 d k v = d(k := byte_at 0 v, k + 1 := byte_at 1 v)"

definition get32 :: "block \<Rightarrow> nat \<Rightarrow> u32" where
  "get32 d k = bytes4 (d k) (d (k + 1)) (d (k + 2)) (d (k + 3))"

definition put32 :: "block \<Rightarrow> nat \<Rightarrow> u32 \<Rightarrow> block" where
  "put32 d k v = d(k := byte_at 0 v, k + 1 := byte_at 1 v, k + 2 := byte_at 2 v, k + 3 := byte_at 3 v)"

lemma get16_put16 [simp]: "get16 (put16 d k v) k = v"
  by (simp add: get16_def put16_def)

lemma get32_put32 [simp]: "get32 (put32 d k v) k = v"
  by (simp add: get32_def put32_def)

lemma put32_outside: "i < k \<or> k + 4 \<le> i \<Longrightarrow> put32 d k v i = d i"
  by (auto simp: put32_def)

lemma put16_outside: "i < k \<or> k + 2 \<le> i \<Longrightarrow> put16 d k v i = d i"
  by (auto simp: put16_def)

lemma get32_cong: "(\<And>i. k \<le> i \<Longrightarrow> i < k + 4 \<Longrightarrow> d i = e i) \<Longrightarrow> get32 d k = get32 e k"
  by (simp add: get32_def)

lemma get16_cong: "(\<And>i. k \<le> i \<Longrightarrow> i < k + 2 \<Longrightarrow> d i = e i) \<Longrightarrow> get16 d k = get16 e k"
  by (simp add: get16_def)

lemma get32_put32_other: "k + 4 \<le> j \<or> j + 4 \<le> k \<Longrightarrow> get32 (put32 d k v) j = get32 d j"
  by (rule get32_cong) (auto intro: put32_outside)

section \<open>Operations\<close>

definition binit_buf :: "nat \<Rightarrow> 'a bio_state_scheme \<Rightarrow> 'a bio_state_scheme" where
  "binit_buf b s =
     (let s = upd_buf b (\<lambda>x. x\<lparr>b_next := b_next (bufs s NBUF)\<rparr>) s;
          s = upd_buf b (\<lambda>x. x\<lparr>b_prev := NBUF\<rparr>) s;
          s = upd_buf b (\<lambda>x. x\<lparr>b_lock := initsleeplock ''buffer''\<rparr>) s;
          s = upd_buf (b_next (bufs s NBUF)) (\<lambda>x. x\<lparr>b_prev := b\<rparr>) s
      in upd_buf NBUF (\<lambda>x. x\<lparr>b_next := b\<rparr>) s)"

definition binit :: "'a bio_state_scheme \<Rightarrow> 'a bio_state_scheme" where
  "binit s =
     (let s = upd_buf NBUF (\<lambda>x. x\<lparr>b_prev := NBUF\<rparr>) s;
          s = upd_buf NBUF (\<lambda>x. x\<lparr>b_next := NBUF\<rparr>) s
      in fold binit_buf [0..<NBUF] s)"

text \<open>
  The buffers met when following the links from \<open>b\<close> to the head.  The bound is the number of
  buffers: a list that is well formed is followed to its end.
\<close>

fun follow :: "(nat \<Rightarrow> nat) \<Rightarrow> nat \<Rightarrow> nat \<Rightarrow> nat list" where
  "follow nxt 0 b = []"
| "follow nxt (Suc n) b = (if b = NBUF then [] else b # follow nxt n (nxt b))"

definition lru_forward :: "'a bio_state_scheme \<Rightarrow> nat list" where
  "lru_forward s = follow (\<lambda>b. b_next (bufs s b)) NBUF (b_next (bufs s NBUF))"

definition lru_backward :: "'a bio_state_scheme \<Rightarrow> nat list" where
  "lru_backward s = follow (\<lambda>b. b_prev (bufs s b)) NBUF (b_prev (bufs s NBUF))"

definition lock_buf :: "nat \<Rightarrow> 'a bio_state_scheme \<Rightarrow> 'a bio_state_scheme res" where
  "lock_buf b s = bnd (acquiresleep (b_lock (bufs s b)) s) (\<lambda>lk. Ok (upd_buf b (\<lambda>x. x\<lparr>b_lock := lk\<rparr>) s))"

definition bget :: "u32 \<Rightarrow> u32 \<Rightarrow> 'a bio_state_scheme \<Rightarrow> (nat \<times> 'a bio_state_scheme) res" where
  "bget dev blockno s =
     (case find (\<lambda>b. b_dev (bufs s b) = dev \<and> b_blockno (bufs s b) = blockno) (lru_forward s) of
        Some b \<Rightarrow>
          bnd (lock_buf b (upd_buf b (\<lambda>x. x\<lparr>b_refcnt := b_refcnt x + 1\<rparr>) s)) (\<lambda>s. Ok (b, s))
      | None \<Rightarrow>
          (case find (\<lambda>b. b_refcnt (bufs s b) = 0) (lru_backward s) of
             Some b \<Rightarrow>
               bnd (lock_buf b (upd_buf b (\<lambda>x. x\<lparr>b_dev := dev, b_blockno := blockno, b_valid := 0,
                 b_refcnt := 1\<rparr>) s)) (\<lambda>s. Ok (b, s))
           | None \<Rightarrow> Panic ''bget: no buffers''))"

text \<open>
  The transfer that the disk driver performs for \<^verbatim>\<open>virtio_disk_rw(b, write)\<close>, as seen by
  the caller when it returns.
\<close>

definition disk_rw :: "nat \<Rightarrow> bool \<Rightarrow> 'a bio_state_scheme \<Rightarrow> 'a bio_state_scheme" where
  "disk_rw b write s =
     (let blockno = b_blockno (bufs s b)
      in if write
         then s\<lparr>disk := (disk s)(blockno := b_data (bufs s b)),
                dwrites := dwrites s @ [(blockno, b_data (bufs s b))]\<rparr>
         else upd_buf b (\<lambda>x. x\<lparr>b_data := disk s blockno\<rparr>) s)"

definition bread :: "u32 \<Rightarrow> u32 \<Rightarrow> 'a bio_state_scheme \<Rightarrow> (nat \<times> 'a bio_state_scheme) res" where
  "bread dev blockno s =
     bnd (bget dev blockno s) (\<lambda>(b, s).
       if b_valid (bufs s b) = 0
       then Ok (b, upd_buf b (\<lambda>x. x\<lparr>b_valid := 1\<rparr>) (disk_rw b False s))
       else Ok (b, s))"

definition bwrite :: "nat \<Rightarrow> 'a bio_state_scheme \<Rightarrow> 'a bio_state_scheme res" where
  "bwrite b s =
     bnd (holdingsleep (b_lock (bufs s b)) s) (\<lambda>held.
       if \<not> held then Panic ''bwrite'' else Ok (disk_rw b True s))"

text \<open>The six assignments that move a buffer to the front of the list.\<close>

definition move_front :: "nat \<Rightarrow> 'a bio_state_scheme \<Rightarrow> 'a bio_state_scheme" where
  "move_front b s =
     (let s = upd_buf (b_next (bufs s b)) (\<lambda>x. x\<lparr>b_prev := b_prev (bufs s b)\<rparr>) s;
          s = upd_buf (b_prev (bufs s b)) (\<lambda>x. x\<lparr>b_next := b_next (bufs s b)\<rparr>) s;
          s = upd_buf b (\<lambda>x. x\<lparr>b_next := b_next (bufs s NBUF)\<rparr>) s;
          s = upd_buf b (\<lambda>x. x\<lparr>b_prev := NBUF\<rparr>) s;
          s = upd_buf (b_next (bufs s NBUF)) (\<lambda>x. x\<lparr>b_prev := b\<rparr>) s
      in upd_buf NBUF (\<lambda>x. x\<lparr>b_next := b\<rparr>) s)"

definition brelse :: "nat \<Rightarrow> 'a bio_state_scheme \<Rightarrow> 'a bio_state_scheme res" where
  "brelse b s =
     bnd (holdingsleep (b_lock (bufs s b)) s) (\<lambda>held.
       if \<not> held then Panic ''brelse''
       else case releasesleep (Buf_lock b) (b_lock (bufs s b)) s of (lk, s) \<Rightarrow>
         let s = upd_buf b (\<lambda>x. x\<lparr>b_lock := lk\<rparr>) s;
             s = upd_buf b (\<lambda>x. x\<lparr>b_refcnt := b_refcnt x - 1\<rparr>) s
         in Ok (if b_refcnt (bufs s b) = 0 then move_front b s else s))"

definition bpin :: "nat \<Rightarrow> 'a bio_state_scheme \<Rightarrow> 'a bio_state_scheme" where
  "bpin b s = upd_buf b (\<lambda>x. x\<lparr>b_refcnt := b_refcnt x + 1\<rparr>) s"

definition bunpin :: "nat \<Rightarrow> 'a bio_state_scheme \<Rightarrow> 'a bio_state_scheme" where
  "bunpin b s = upd_buf b (\<lambda>x. x\<lparr>b_refcnt := b_refcnt x - 1\<rparr>) s"

end
