(* ===== verification/Virtio.thy ===== *)
theory Virtio
  imports Bio
begin

text \<open>
  The virtio block driver, \<^verbatim>\<open>kernel/virtio_disk.c\<close>: descriptors, the ring of available
  requests that the driver writes, the ring of used ones that the device writes, and the
  hand-over of a buffer between the process that waits for a transfer and the interrupt that
  ends it.  DMA addresses are addresses of three kinds of kernel objects and are modelled as
  such.  \<open>mmio_log\<close> records the writes to the device's registers; what a read of a register
  returns is an argument of the operations that read one.
\<close>

section \<open>State\<close>

abbreviation (input) NUM :: nat where "NUM \<equiv> 8"
abbreviation (input) VRING_DESC_F_NEXT :: u16 where "VRING_DESC_F_NEXT \<equiv> 1"
abbreviation (input) VRING_DESC_F_WRITE :: u16 where "VRING_DESC_F_WRITE \<equiv> 2"
abbreviation (input) VIRTIO_BLK_T_IN :: u32 where "VIRTIO_BLK_T_IN \<equiv> 0"
abbreviation (input) VIRTIO_BLK_T_OUT :: u32 where "VIRTIO_BLK_T_OUT \<equiv> 1"

datatype dma = Dma_null | Dma_op nat | Dma_data nat | Dma_status nat

record virtq_desc =
  d_addr :: dma
  d_len :: u32
  d_flags :: u16
  d_next :: u16

record virtio_blk_req =
  rq_type :: u32
  rq_reserved :: u32
  rq_sector :: u64

record vdisk =
  vd_desc :: "nat \<Rightarrow> virtq_desc"
  avail_idx :: u16
  avail_ring :: "nat \<Rightarrow> u16"
  dev_used_idx :: u16
  used_ring :: "nat \<Rightarrow> u32"
  vd_free :: "nat \<Rightarrow> u8"
  vd_used_idx :: u16
  info_b :: "nat \<Rightarrow> nat option"
  info_status :: "nat \<Rightarrow> u8"
  vd_ops :: "nat \<Rightarrow> virtio_blk_req"

record virtio_state = bio_state +
  vd :: vdisk
  mmio_log :: "(u64 \<times> u32) list"

text \<open>The disk driver with its static data zeroed.\<close>

definition vdisk_zero :: vdisk where
  "vdisk_zero = \<lparr>vd_desc = (\<lambda>_. \<lparr>d_addr = Dma_null, d_len = 0, d_flags = 0, d_next = 0\<rparr>), avail_idx = 0,
     avail_ring = (\<lambda>_. 0), dev_used_idx = 0, used_ring = (\<lambda>_. 0), vd_free = (\<lambda>_. 0), vd_used_idx = 0,
     info_b = (\<lambda>_. None), info_status = (\<lambda>_. 0), vd_ops = (\<lambda>_. \<lparr>rq_type = 0, rq_reserved = 0, rq_sector = 0\<rparr>)\<rparr>"

definition virtio_zero :: virtio_state where
  "virtio_zero = bio_state.extend bio_zero (virtio_state.fields vdisk_zero [])"

lemmas virtio_zero_simps [zero_simps] = virtio_zero_def vdisk_zero_def bio_state.defs virtio_state.defs

definition upd_vd :: "(vdisk \<Rightarrow> vdisk) \<Rightarrow> 'a virtio_state_scheme \<Rightarrow> 'a virtio_state_scheme" where
  "upd_vd f s = s\<lparr>vd := f (vd s)\<rparr>"

definition mmio_write :: "u64 \<Rightarrow> u32 \<Rightarrow> 'a virtio_state_scheme \<Rightarrow> 'a virtio_state_scheme" where
  "mmio_write r v s = s\<lparr>mmio_log := mmio_log s @ [(r, v)]\<rparr>"

section \<open>Initialisation\<close>

text \<open>\<open>rd\<close> gives the values of the device's registers.\<close>

definition virtio_features :: "u32 \<Rightarrow> u32" where
  "virtio_features f =
     f AND NOT (push_bit 5 1) AND NOT (push_bit 7 1) AND NOT (push_bit 11 1) AND NOT (push_bit 12 1)
       AND NOT (push_bit 27 1) AND NOT (push_bit 29 1) AND NOT (push_bit 28 1)"

definition virtio_disk_init ::
  "(u64 \<Rightarrow> u32) \<Rightarrow> u64 \<Rightarrow> 'a virtio_state_scheme \<Rightarrow> 'a virtio_state_scheme res" where
  "virtio_disk_init rd pages s =
     (if rd 0x000 \<noteq> 0x74726976 \<or> rd 0x004 \<noteq> 1 \<or> rd 0x008 \<noteq> 2 \<or> rd 0x00c \<noteq> 0x554d4551
      then Panic ''could not find virtio disk''
      else let s = mmio_write 0x070 1 s;
               s = mmio_write 0x070 3 s;
               s = mmio_write 0x020 (virtio_features (rd 0x010)) s;
               s = mmio_write 0x070 11 s;
               s = mmio_write 0x070 15 s;
               s = mmio_write 0x028 4096 s;
               s = mmio_write 0x030 0 s
           in if rd 0x034 = 0 then Panic ''virtio disk has no queue 0''
              else if rd 0x034 < of_nat NUM then Panic ''virtio disk max queue too short''
              else let s = mmio_write 0x038 (of_nat NUM) s;
                       zero = \<lparr>d_addr = Dma_null, d_len = 0, d_flags = 0, d_next = 0\<rparr>;
                       s = upd_vd (\<lambda>v. v\<lparr>vd_desc := (\<lambda>i. if i < NUM then zero else vd_desc v i), avail_idx := 0,
                             avail_ring := (\<lambda>i. if i < NUM then 0 else avail_ring v i), dev_used_idx := 0,
                             used_ring := (\<lambda>i. if i < NUM then 0 else used_ring v i)\<rparr>) s;
                       s = mmio_write 0x040 (ucast (drop_bit 12 pages)) s
                   in Ok (fold (\<lambda>i. upd_vd (\<lambda>v. v\<lparr>vd_free := (vd_free v)(i := 1)\<rparr>)) [0..<NUM] s))"

section \<open>Descriptors\<close>

definition alloc_desc :: "'a virtio_state_scheme \<Rightarrow> nat option \<times> 'a virtio_state_scheme" where
  "alloc_desc s =
     (case first_slot (\<lambda>i. vd_free (vd s) i \<noteq> 0) NUM of
        Some i \<Rightarrow> (Some i, upd_vd (\<lambda>v. v\<lparr>vd_free := (vd_free v)(i := 0)\<rparr>) s)
      | None \<Rightarrow> (None, s))"

definition free_desc :: "nat \<Rightarrow> 'a virtio_state_scheme \<Rightarrow> 'a virtio_state_scheme res" where
  "free_desc i s =
     (if NUM \<le> i then Panic ''free_desc 1''
      else if vd_free (vd s) i \<noteq> 0 then Panic ''free_desc 2''
      else Ok (wakeup Disk_free (upd_vd (\<lambda>v. v\<lparr>
             vd_desc := (vd_desc v)(i := \<lparr>d_addr = Dma_null, d_len = 0, d_flags = 0, d_next = 0\<rparr>),
             vd_free := (vd_free v)(i := 1)\<rparr>) s)))"

text \<open>Every round frees a descriptor that was not free, so the loop ends.\<close>

definition busy :: "'a virtio_state_scheme \<Rightarrow> nat set" where
  "busy s = {i. i < NUM \<and> vd_free (vd s) i = 0}"

lemma vd_wakeup [simp]: "vd (wakeup c s) = vd s"
  by (simp add: wakeup_eq)

lemma busy_free_desc:
  assumes "free_desc i s = Ok s'"
  shows "busy s' = busy s - {i}" and "i \<in> busy s"
  using assms by (auto simp: free_desc_def busy_def upd_vd_def split: if_splits)

lemma finite_busy [simp]: "finite (busy s)"
  by (simp add: busy_def)

lemma card_busy_free_desc: "free_desc i s = Ok s' \<Longrightarrow> card (busy s') < card (busy s)"
  using busy_free_desc [of i s s'] card_Diff1_less [of "busy s" i] by simp

function free_chain :: "nat \<Rightarrow> 'a virtio_state_scheme \<Rightarrow> 'a virtio_state_scheme res" where
  "free_chain i s =
     (let flag = d_flags (vd_desc (vd s) i); nxt = unat (d_next (vd_desc (vd s) i))
      in bnd (free_desc i s) (\<lambda>s. if flag AND VRING_DESC_F_NEXT \<noteq> 0 then free_chain nxt s else Ok s))"
  by pat_completeness auto
termination
  by (relation "measure (\<lambda>(i, s). card (busy s))") (auto dest: card_busy_free_desc)

declare free_chain.simps [simp del]

fun alloc_descs ::
  "nat \<Rightarrow> nat list \<Rightarrow> 'a virtio_state_scheme \<Rightarrow> (nat list option \<times> 'a virtio_state_scheme) res" where
  "alloc_descs 0 idx s = Ok (Some idx, s)"
| "alloc_descs (Suc k) idx s =
     (case alloc_desc s of
        (Some i, s) \<Rightarrow> alloc_descs k (idx @ [i]) s
      | (None, s) \<Rightarrow> bnd (fold_res free_desc idx s) (\<lambda>s. Ok (None, s)))"

definition alloc3_desc :: "'a virtio_state_scheme \<Rightarrow> (nat list option \<times> 'a virtio_state_scheme) res" where
  "alloc3_desc s = alloc_descs 3 [] s"

section \<open>Transfers\<close>

text \<open>
  \<^verbatim>\<open>virtio_disk_rw\<close> sleeps for descriptors (\<open>Rw_alloc\<close>) and then for the end of the
  transfer (\<open>Rw_done\<close>, with the head of its chain).
\<close>

datatype rw_wait = Rw_alloc | Rw_done nat

definition set_desc :: "nat \<Rightarrow> dma \<Rightarrow> u32 \<Rightarrow> u16 \<Rightarrow> u16 \<Rightarrow> 'a virtio_state_scheme \<Rightarrow> 'a virtio_state_scheme" where
  "set_desc i a l f n s = upd_vd (\<lambda>v. v\<lparr>vd_desc := (vd_desc v)(i := \<lparr>d_addr = a, d_len = l, d_flags = f, d_next = n\<rparr>)\<rparr>) s"

definition format_chain ::
  "nat \<Rightarrow> bool \<Rightarrow> nat \<Rightarrow> nat \<Rightarrow> nat \<Rightarrow> 'a virtio_state_scheme \<Rightarrow> 'a virtio_state_scheme" where
  "format_chain b write i0 i1 i2 s =
     (let sector = ucast (b_blockno (bufs s b) * 2);
          s = upd_vd (\<lambda>v. v\<lparr>vd_ops := (vd_ops v)(i0 := \<lparr>rq_type = (if write then VIRTIO_BLK_T_OUT else VIRTIO_BLK_T_IN),
                rq_reserved = 0, rq_sector = sector\<rparr>)\<rparr>) s;
          s = set_desc i0 (Dma_op i0) 16 VRING_DESC_F_NEXT (of_nat i1) s;
          s = set_desc i1 (Dma_data b) 1024 ((if write then 0 else VRING_DESC_F_WRITE) OR VRING_DESC_F_NEXT) (of_nat i2) s;
          s = upd_vd (\<lambda>v. v\<lparr>info_status := (info_status v)(i0 := 0xff)\<rparr>) s
      in set_desc i2 (Dma_status i0) 1 VRING_DESC_F_WRITE 0 s)"

definition submit_chain :: "nat \<Rightarrow> nat \<Rightarrow> 'a virtio_state_scheme \<Rightarrow> 'a virtio_state_scheme" where
  "submit_chain b i0 s =
     (let s = upd_buf b (\<lambda>x. x\<lparr>b_disk := 1\<rparr>) s;
          s = upd_vd (\<lambda>v. v\<lparr>info_b := (info_b v)(i0 := Some b)\<rparr>) s;
          s = upd_vd (\<lambda>v. v\<lparr>avail_ring := (avail_ring v)(unat (avail_idx v) mod NUM := of_nat i0)\<rparr>) s;
          s = upd_vd (\<lambda>v. v\<lparr>avail_idx := avail_idx v + 1\<rparr>) s
      in mmio_write 0x050 0 s)"

definition virtio_disk_rw ::
  "nat \<Rightarrow> bool \<Rightarrow> 'a virtio_state_scheme \<Rightarrow> (unit, rw_wait, 'a virtio_state_scheme) turn res" where
  "virtio_disk_rw b write s =
     bnd (alloc3_desc s) (\<lambda>(idx, s).
       case idx of
         None \<Rightarrow> bnd (sleep_on Disk_free s) (\<lambda>s. Ok (Sleep Rw_alloc s))
       | Some idx \<Rightarrow>
           let s = submit_chain b (idx ! 0) (format_chain b write (idx ! 0) (idx ! 1) (idx ! 2) s)
           in bnd (sleep_on (Buf_disk b) s) (\<lambda>s. Ok (Sleep (Rw_done (idx ! 0)) s)))"

definition virtio_disk_rw_resume ::
  "nat \<Rightarrow> bool \<Rightarrow> rw_wait \<Rightarrow> 'a virtio_state_scheme \<Rightarrow> (unit, rw_wait, 'a virtio_state_scheme) turn res" where
  "virtio_disk_rw_resume b write l s =
     bnd (sleep_resume s) (\<lambda>s.
       case l of
         Rw_alloc \<Rightarrow> virtio_disk_rw b write s
       | Rw_done i0 \<Rightarrow>
           if b_disk (bufs s b) = 1
           then bnd (sleep_on (Buf_disk b) s) (\<lambda>s. Ok (Sleep (Rw_done i0) s))
           else bnd (free_chain i0 (upd_vd (\<lambda>v. v\<lparr>info_b := (info_b v)(i0 := None)\<rparr>) s)) (\<lambda>s. Ok (Return () s)))"

fun virtio_intr_loop :: "nat \<Rightarrow> 'a virtio_state_scheme \<Rightarrow> 'a virtio_state_scheme res" where
  "virtio_intr_loop 0 s = Ok s"
| "virtio_intr_loop (Suc k) s =
     (let i = unat (used_ring (vd s) (unat (vd_used_idx (vd s)) mod NUM))
      in if info_status (vd s) i \<noteq> 0 then Panic ''virtio_disk_intr status''
         else deref (info_b (vd s) i) (\<lambda>b.
           let s = wakeup (Buf_disk b) (upd_buf b (\<lambda>x. x\<lparr>b_disk := 0\<rparr>) s)
           in virtio_intr_loop k (upd_vd (\<lambda>v. v\<lparr>vd_used_idx := vd_used_idx v + 1\<rparr>) s)))"

text \<open>\<open>isr\<close> is the device's interrupt status; the loop runs until the driver has seen every used entry.\<close>

definition virtio_disk_intr :: "u32 \<Rightarrow> 'a virtio_state_scheme \<Rightarrow> 'a virtio_state_scheme res" where
  "virtio_disk_intr isr s =
     virtio_intr_loop (unat (dev_used_idx (vd s) - vd_used_idx (vd s))) (mmio_write 0x064 (isr AND 0x3) s)"

end
