(* ===== verification/Log.thy ===== *)
theory Log
  imports Virtio
begin

text \<open>
  The write-ahead log, \<^verbatim>\<open>kernel/log.c\<close>: transactions of file-system calls, committed by
  writing the modified blocks to the log, then the header, then the blocks' home locations.
\<close>

section \<open>State\<close>

abbreviation (input) MAXOPBLOCKS :: int where "MAXOPBLOCKS \<equiv> 10"
abbreviation (input) LOGSIZE :: int where "LOGSIZE \<equiv> 30"

record logheader =
  lh_n :: i32
  lh_block :: "nat \<Rightarrow> i32"

record log =
  log_start :: i32
  log_size :: i32
  log_outstanding :: i32
  log_committing :: i32
  log_dev :: i32
  log_lh :: logheader

record superblock =
  sb_magic :: u32
  sb_size :: u32
  sb_nblocks :: u32
  sb_ninodes :: u32
  sb_nlog :: u32
  sb_logstart :: u32
  sb_inodestart :: u32
  sb_bmapstart :: u32

record log_state = virtio_state +
  the_log :: log

text \<open>The log with its static data zeroed.\<close>

definition log_zero_data :: log where
  "log_zero_data = \<lparr>log_start = 0, log_size = 0, log_outstanding = 0, log_committing = 0, log_dev = 0,
     log_lh = \<lparr>lh_n = 0, lh_block = (\<lambda>_. 0)\<rparr>\<rparr>"

definition log_zero :: log_state where
  "log_zero = virtio_state.extend virtio_zero (log_state.fields log_zero_data)"

lemmas log_zero_simps [zero_simps] = log_zero_def log_zero_data_def virtio_state.defs log_state.defs

definition upd_log :: "(log \<Rightarrow> log) \<Rightarrow> 'a log_state_scheme \<Rightarrow> 'a log_state_scheme" where
  "upd_log f s = s\<lparr>the_log := f (the_log s)\<rparr>"

definition upd_lh :: "(logheader \<Rightarrow> logheader) \<Rightarrow> 'a log_state_scheme \<Rightarrow> 'a log_state_scheme" where
  "upd_lh f s = upd_log (\<lambda>l. l\<lparr>log_lh := f (log_lh l)\<rparr>) s"

text \<open>The number of iterations of the loops over the blocks of the header.\<close>

definition lh_len :: "'a log_state_scheme \<Rightarrow> nat" where
  "lh_len s = nat (sint (lh_n (log_lh (the_log s))))"

definition log_block :: "nat \<Rightarrow> 'a log_state_scheme \<Rightarrow> u32" where
  "log_block tail s = log_start (the_log s) + of_nat tail + 1"

definition home_block :: "nat \<Rightarrow> 'a log_state_scheme \<Rightarrow> u32" where
  "home_block tail s = lh_block (log_lh (the_log s)) tail"

section \<open>Operations\<close>

definition install_one :: "bool \<Rightarrow> nat \<Rightarrow> 'a log_state_scheme \<Rightarrow> 'a log_state_scheme res" where
  "install_one recovering tail s =
     bnd (bread (log_dev (the_log s)) (log_block tail s) s) (\<lambda>(lbuf, s).
     bnd (bread (log_dev (the_log s)) (home_block tail s) s) (\<lambda>(dbuf, s).
     let s = upd_buf dbuf (\<lambda>x. x\<lparr>b_data := b_data (bufs s lbuf)\<rparr>) s
     in bnd (bwrite dbuf s) (\<lambda>s.
        let s = (if recovering then s else bunpin dbuf s)
        in bnd (brelse lbuf s) (brelse dbuf))))"

definition install_trans :: "bool \<Rightarrow> 'a log_state_scheme \<Rightarrow> 'a log_state_scheme res" where
  "install_trans recovering s = fold_res (install_one recovering) [0..<lh_len s] s"

definition read_head :: "'a log_state_scheme \<Rightarrow> 'a log_state_scheme res" where
  "read_head s =
     bnd (bread (log_dev (the_log s)) (log_start (the_log s)) s) (\<lambda>(b, s).
     let d = b_data (bufs s b);
         s = upd_lh (\<lambda>h. h\<lparr>lh_n := get32 d 0\<rparr>) s;
         s = fold (\<lambda>i. upd_lh (\<lambda>h. h\<lparr>lh_block := (lh_block h)(i := get32 d (4 + 4 * i))\<rparr>)) [0..<lh_len s] s
     in brelse b s)"

definition write_head :: "'a log_state_scheme \<Rightarrow> 'a log_state_scheme res" where
  "write_head s =
     bnd (bread (log_dev (the_log s)) (log_start (the_log s)) s) (\<lambda>(b, s).
     let s = upd_buf b (\<lambda>x. x\<lparr>b_data := put32 (b_data x) 0 (lh_n (log_lh (the_log s)))\<rparr>) s;
         s = fold (\<lambda>i s. upd_buf b (\<lambda>x. x\<lparr>b_data := put32 (b_data x) (4 + 4 * i)
               (lh_block (log_lh (the_log s)) i)\<rparr>) s) [0..<lh_len s] s
     in bnd (bwrite b s) (brelse b))"

definition recover_from_log :: "'a log_state_scheme \<Rightarrow> 'a log_state_scheme res" where
  "recover_from_log s =
     bnd (read_head s) (\<lambda>s.
     bnd (install_trans True s) (\<lambda>s.
     write_head (upd_lh (\<lambda>h. h\<lparr>lh_n := 0\<rparr>) s)))"

text \<open>The check that the header fits in a block holds for the structure's size, 124 bytes.\<close>

definition initlog :: "i32 \<Rightarrow> superblock \<Rightarrow> 'a log_state_scheme \<Rightarrow> 'a log_state_scheme res" where
  "initlog dev sb s =
     recover_from_log (upd_log (\<lambda>l. l\<lparr>log_start := sb_logstart sb, log_size := sb_nlog sb,
       log_dev := dev\<rparr>) s)"

definition begin_op :: "'a log_state_scheme \<Rightarrow> 'a log_state_scheme res" where
  "begin_op s =
     (let l = the_log s
      in if log_committing l \<noteq> 0 then Waits ''log''
         else if sint (lh_n (log_lh l)) + (sint (log_outstanding l) + 1) * MAXOPBLOCKS > LOGSIZE
         then Waits ''log''
         else Ok (upd_log (\<lambda>l. l\<lparr>log_outstanding := log_outstanding l + 1\<rparr>) s))"

definition write_log_one :: "nat \<Rightarrow> 'a log_state_scheme \<Rightarrow> 'a log_state_scheme res" where
  "write_log_one tail s =
     bnd (bread (log_dev (the_log s)) (log_block tail s) s) (\<lambda>(to, s).
     bnd (bread (log_dev (the_log s)) (home_block tail s) s) (\<lambda>(frm, s).
     let s = upd_buf to (\<lambda>x. x\<lparr>b_data := b_data (bufs s frm)\<rparr>) s
     in bnd (bwrite to s) (\<lambda>s. bnd (brelse frm s) (brelse to))))"

definition write_log :: "'a log_state_scheme \<Rightarrow> 'a log_state_scheme res" where
  "write_log s = fold_res write_log_one [0..<lh_len s] s"

definition commit :: "'a log_state_scheme \<Rightarrow> 'a log_state_scheme res" where
  "commit s =
     (if 0 < sint (lh_n (log_lh (the_log s)))
      then bnd (write_log s) (\<lambda>s.
           bnd (write_head s) (\<lambda>s.
           bnd (install_trans False s) (\<lambda>s.
           write_head (upd_lh (\<lambda>h. h\<lparr>lh_n := 0\<rparr>) s))))
      else Ok s)"

definition end_op :: "'a log_state_scheme \<Rightarrow> 'a log_state_scheme res" where
  "end_op s =
     (let s = upd_log (\<lambda>l. l\<lparr>log_outstanding := log_outstanding l - 1\<rparr>) s
      in if log_committing (the_log s) \<noteq> 0 then Panic ''log.committing''
         else if log_outstanding (the_log s) = 0
         then let s = upd_log (\<lambda>l. l\<lparr>log_committing := 1\<rparr>) s
              in bnd (commit s) (\<lambda>s.
                 Ok (wakeup Log_chan (upd_log (\<lambda>l. l\<lparr>log_committing := 0\<rparr>) s)))
         else Ok (wakeup Log_chan s))"

text \<open>
  The search for the block in the header stops at its entry or at the first free one.
\<close>

definition log_slot :: "u32 \<Rightarrow> 'a log_state_scheme \<Rightarrow> nat" where
  "log_slot blockno s =
     (case first_slot (\<lambda>i. lh_block (log_lh (the_log s)) i = blockno) (lh_len s) of
        Some i \<Rightarrow> i | None \<Rightarrow> lh_len s)"

definition log_write :: "nat \<Rightarrow> 'a log_state_scheme \<Rightarrow> 'a log_state_scheme res" where
  "log_write b s =
     (let l = the_log s; n = lh_n (log_lh l)
      in if sint n \<ge> LOGSIZE \<or> sint n \<ge> sint (log_size l) - 1 then Panic ''too big a transaction''
         else if sint (log_outstanding l) < 1 then Panic ''log_write outside of trans''
         else let i = log_slot (b_blockno (bufs s b)) s;
                  s = upd_lh (\<lambda>h. h\<lparr>lh_block := (lh_block h)(i := b_blockno (bufs s b))\<rparr>) s
              in Ok (if of_nat i = n
                     then upd_lh (\<lambda>h. h\<lparr>lh_n := lh_n h + 1\<rparr>) (bpin b s) else s))"

end
