(* ===== verification/Fs.thy ===== *)
theory Fs
  imports Log
begin

text \<open>
  The block and inode layers of the file system, \<^verbatim>\<open>kernel/fs.c\<close>: the super block, the
  allocation bitmap, the inode table, the map from file offsets to disk blocks (direct,
  indirect and doubly indirect), and reading and writing of file contents.
\<close>

section \<open>State\<close>

abbreviation (input) NINODE :: nat where "NINODE \<equiv> 50"
abbreviation (input) NDIRECT :: nat where "NDIRECT \<equiv> 11"
abbreviation (input) NDIRECT_EX :: nat where "NDIRECT_EX \<equiv> 12"
abbreviation (input) NINDIRECT :: nat where "NINDIRECT \<equiv> 256"
abbreviation (input) NINDIRECT_SEC :: nat where "NINDIRECT_SEC \<equiv> 65536"
abbreviation (input) MAXFILE :: nat where "MAXFILE \<equiv> 65803"
abbreviation (input) IPB :: nat where "IPB \<equiv> 16"
abbreviation (input) BPB :: nat where "BPB \<equiv> 8192"
abbreviation (input) DINODE :: nat where "DINODE \<equiv> 64"
abbreviation (input) FSMAGIC :: u32 where "FSMAGIC \<equiv> 0x10203040"
abbreviation (input) T_DIR :: i16 where "T_DIR \<equiv> 1"
abbreviation (input) T_FILE :: i16 where "T_FILE \<equiv> 2"
abbreviation (input) T_DEVICE :: i16 where "T_DEVICE \<equiv> 3"
abbreviation (input) T_SYMLINK :: i16 where "T_SYMLINK \<equiv> 4"

record inode =
  i_dev :: u32
  i_inum :: u32
  i_ref :: i32
  i_lock :: sleeplock
  i_valid :: i32
  i_type :: i16
  i_major :: i16
  i_minor :: i16
  i_nlink :: i16
  i_size :: u32
  i_addrs :: "nat \<Rightarrow> u32"

record stat =
  st_dev :: i32
  st_ino :: u32
  st_type :: i16
  st_nlink :: i16
  st_size :: u64

record fs_state = log_state +
  sb :: superblock
  inodes :: "nat \<Rightarrow> inode"

text \<open>The file system with its static data zeroed.\<close>

definition sb_zero :: superblock where
  "sb_zero = \<lparr>sb_magic = 0, sb_size = 0, sb_nblocks = 0, sb_ninodes = 0, sb_nlog = 0, sb_logstart = 0,
     sb_inodestart = 0, sb_bmapstart = 0\<rparr>"

definition inode_zero :: inode where
  "inode_zero = \<lparr>i_dev = 0, i_inum = 0, i_ref = 0, i_lock = \<lparr>sl_locked = 0, sl_name = [], sl_pid = 0\<rparr>, i_valid = 0,
     i_type = 0, i_major = 0, i_minor = 0, i_nlink = 0, i_size = 0, i_addrs = (\<lambda>_. 0)\<rparr>"

definition fs_zero :: fs_state where
  "fs_zero = log_state.extend log_zero (fs_state.fields sb_zero (\<lambda>_. inode_zero))"

lemmas fs_zero_simps [zero_simps] = fs_zero_def sb_zero_def inode_zero_def log_state.defs fs_state.defs

definition upd_inode :: "nat \<Rightarrow> (inode \<Rightarrow> inode) \<Rightarrow> 'a fs_state_scheme \<Rightarrow> 'a fs_state_scheme" where
  "upd_inode i f s = s\<lparr>inodes := (inodes s)(i := f (inodes s i))\<rparr>"

definition set_data :: "nat \<Rightarrow> block \<Rightarrow> 'a bio_state_scheme \<Rightarrow> 'a bio_state_scheme" where
  "set_data b d s = upd_buf b (\<lambda>x. x\<lparr>b_data := d\<rparr>) s"

definition data_of :: "nat \<Rightarrow> 'a bio_state_scheme \<Rightarrow> block" where
  "data_of b s = b_data (bufs s b)"

definition IBLOCK :: "u32 \<Rightarrow> 'a fs_state_scheme \<Rightarrow> u32" where
  "IBLOCK i s = i div 16 + sb_inodestart (sb s)"

definition BBLOCK :: "u32 \<Rightarrow> 'a fs_state_scheme \<Rightarrow> u32" where
  "BBLOCK b s = b div 8192 + sb_bmapstart (sb s)"

section \<open>Blocks\<close>

definition readsb :: "u32 \<Rightarrow> 'a fs_state_scheme \<Rightarrow> 'a fs_state_scheme res" where
  "readsb dev s =
     bnd (bread dev 1 s) (\<lambda>(bp, s).
     let d = data_of bp s;
         s = s\<lparr>sb := \<lparr>sb_magic = get32 d 0, sb_size = get32 d 4, sb_nblocks = get32 d 8,
               sb_ninodes = get32 d 12, sb_nlog = get32 d 16, sb_logstart = get32 d 20,
               sb_inodestart = get32 d 24, sb_bmapstart = get32 d 28\<rparr>\<rparr>
     in brelse bp s)"

definition fsinit :: "i32 \<Rightarrow> 'a fs_state_scheme \<Rightarrow> 'a fs_state_scheme res" where
  "fsinit dev s =
     bnd (readsb dev s) (\<lambda>s.
       if sb_magic (sb s) \<noteq> FSMAGIC then Panic ''invalid file system'' else initlog dev (sb s) s)"

definition bzero :: "u32 \<Rightarrow> u32 \<Rightarrow> 'a fs_state_scheme \<Rightarrow> 'a fs_state_scheme res" where
  "bzero dev bno s =
     bnd (bread dev bno s) (\<lambda>(bp, s).
     bnd (log_write bp (set_data bp (\<lambda>_. 0) s)) (brelse bp))"

definition bmask :: "nat \<Rightarrow> u8" where
  "bmask bi = push_bit (bi mod 8) 1"

text \<open>\<open>sz\<close> is \<^verbatim>\<open>sb.size\<close>, which nothing in the loop changes.\<close>

function balloc_loop :: "u32 \<Rightarrow> nat \<Rightarrow> nat \<Rightarrow> 'a fs_state_scheme \<Rightarrow> (u32 \<times> 'a fs_state_scheme) res" where
  "balloc_loop dev sz b s =
     (if b < sz
      then bnd (bread dev (BBLOCK (of_nat b) s) s) (\<lambda>(bp, s).
        case first_slot (\<lambda>bi. data_of bp s (bi div 8) AND bmask bi = 0) (min BPB (sz - b)) of
          Some bi \<Rightarrow>
            let s = set_data bp ((data_of bp s)(bi div 8 := data_of bp s (bi div 8) OR bmask bi)) s
            in bnd (log_write bp s) (\<lambda>s.
               bnd (brelse bp s) (\<lambda>s.
               bnd (bzero dev (of_nat (b + bi)) s) (\<lambda>s. Ok (of_nat (b + bi), s))))
        | None \<Rightarrow> bnd (brelse bp s) (balloc_loop dev sz (b + BPB)))
      else Panic ''balloc: out of blocks'')"
  by pat_completeness auto
termination
  by (relation "measure (\<lambda>(dev, sz, b, s). sz - b)") auto

declare balloc_loop.simps [simp del]

definition balloc :: "u32 \<Rightarrow> 'a fs_state_scheme \<Rightarrow> (u32 \<times> 'a fs_state_scheme) res" where
  "balloc dev s = balloc_loop dev (unat (sb_size (sb s))) 0 s"

definition bfree :: "u32 \<Rightarrow> u32 \<Rightarrow> 'a fs_state_scheme \<Rightarrow> 'a fs_state_scheme res" where
  "bfree dev b s =
     bnd (bread dev (BBLOCK b s) s) (\<lambda>(bp, s).
     let bi = unat b mod BPB; d = data_of bp s
     in if d (bi div 8) AND bmask bi = 0 then Panic ''freeing free block''
        else bnd (log_write bp (set_data bp (d(bi div 8 := d (bi div 8) AND NOT (bmask bi))) s)) (brelse bp))"

section \<open>Inodes\<close>

definition iinit :: "'a fs_state_scheme \<Rightarrow> 'a fs_state_scheme" where
  "iinit s = fold (\<lambda>i. upd_inode i (\<lambda>x. x\<lparr>i_lock := initsleeplock ''inode''\<rparr>)) [0..<NINODE] s"

text \<open>
  The on-disk inode at byte \<open>k\<close> of a block: type, major, minor and nlink in two bytes each,
  then the size and the thirteen addresses in four bytes each.
\<close>

definition dinode_type :: "block \<Rightarrow> nat \<Rightarrow> i16" where
  "dinode_type d k = get16 d k"

definition dinode_read :: "block \<Rightarrow> nat \<Rightarrow> inode \<Rightarrow> inode" where
  "dinode_read d k ip = ip\<lparr>i_type := get16 d k, i_major := get16 d (k + 2), i_minor := get16 d (k + 4),
     i_nlink := get16 d (k + 6), i_size := get32 d (k + 8),
     i_addrs := (\<lambda>j. if j < NDIRECT + 2 then get32 d (k + 12 + 4 * j) else i_addrs ip j)\<rparr>"

definition dinode_write :: "block \<Rightarrow> nat \<Rightarrow> inode \<Rightarrow> block" where
  "dinode_write d k ip =
     (let d = put16 d k (i_type ip);
          d = put16 d (k + 2) (i_major ip);
          d = put16 d (k + 4) (i_minor ip);
          d = put16 d (k + 6) (i_nlink ip);
          d = put32 d (k + 8) (i_size ip)
      in fold (\<lambda>j d. put32 d (k + 12 + 4 * j) (i_addrs ip j)) [0..<NDIRECT + 2] d)"

definition dinode_off :: "u32 \<Rightarrow> nat" where
  "dinode_off inum = DINODE * (unat inum mod IPB)"

definition iget :: "u32 \<Rightarrow> u32 \<Rightarrow> 'a fs_state_scheme \<Rightarrow> (nat option \<times> 'a fs_state_scheme) res" where
  "iget dev inum s =
     (case first_slot (\<lambda>i. 0 < sint (i_ref (inodes s i)) \<and> i_dev (inodes s i) = dev \<and>
           i_inum (inodes s i) = inum) NINODE of
        Some i \<Rightarrow> Ok (Some i, upd_inode i (\<lambda>x. x\<lparr>i_ref := i_ref x + 1\<rparr>) s)
      | None \<Rightarrow>
          (case first_slot (\<lambda>i. i_ref (inodes s i) = 0) NINODE of
             None \<Rightarrow> Panic ''iget: no inodes''
           | Some i \<Rightarrow> Ok (Some i, upd_inode i (\<lambda>x. x\<lparr>i_dev := dev, i_inum := inum, i_ref := 1,
               i_valid := 0\<rparr>) s)))"

function ialloc_loop ::
  "u32 \<Rightarrow> i16 \<Rightarrow> nat \<Rightarrow> nat \<Rightarrow> 'a fs_state_scheme \<Rightarrow> (nat option \<times> 'a fs_state_scheme) res" where
  "ialloc_loop dev type n inum s =
     (if inum < n
      then bnd (bread dev (IBLOCK (of_nat inum) s) s) (\<lambda>(bp, s).
        let k = dinode_off (of_nat inum)
        in if dinode_type (data_of bp s) k = 0
           then let d = (\<lambda>i. if k \<le> i \<and> i < k + DINODE then 0 else data_of bp s i)
                in bnd (log_write bp (set_data bp (put16 d k type) s)) (\<lambda>s.
                   bnd (brelse bp s) (iget dev (of_nat inum)))
           else bnd (brelse bp s) (ialloc_loop dev type n (Suc inum)))
      else Panic ''ialloc: no inodes'')"
  by pat_completeness auto
termination
  by (relation "measure (\<lambda>(dev, type, n, inum, s). n - inum)") auto

declare ialloc_loop.simps [simp del]

definition ialloc :: "u32 \<Rightarrow> i16 \<Rightarrow> 'a fs_state_scheme \<Rightarrow> (nat option \<times> 'a fs_state_scheme) res" where
  "ialloc dev type s = ialloc_loop dev type (unat (sb_ninodes (sb s))) 1 s"

definition iupdate :: "nat \<Rightarrow> 'a fs_state_scheme \<Rightarrow> 'a fs_state_scheme res" where
  "iupdate ip s =
     (let inum = i_inum (inodes s ip)
      in bnd (bread (i_dev (inodes s ip)) (IBLOCK inum s) s) (\<lambda>(bp, s).
         bnd (log_write bp (set_data bp (dinode_write (data_of bp s) (dinode_off inum) (inodes s ip)) s))
           (brelse bp)))"

definition idup :: "nat option \<Rightarrow> 'a fs_state_scheme \<Rightarrow> (nat option \<times> 'a fs_state_scheme) res" where
  "idup ip s = deref ip (\<lambda>i. Ok (ip, upd_inode i (\<lambda>x. x\<lparr>i_ref := i_ref x + 1\<rparr>) s))"

definition lock_inode :: "nat \<Rightarrow> 'a fs_state_scheme \<Rightarrow> 'a fs_state_scheme res" where
  "lock_inode i s =
     bnd (acquiresleep (i_lock (inodes s i)) s) (\<lambda>lk. Ok (upd_inode i (\<lambda>x. x\<lparr>i_lock := lk\<rparr>) s))"

definition unlock_inode :: "nat \<Rightarrow> 'a fs_state_scheme \<Rightarrow> 'a fs_state_scheme" where
  "unlock_inode i s =
     (case releasesleep (Inode_lock i) (i_lock (inodes s i)) s of (lk, s) \<Rightarrow>
        upd_inode i (\<lambda>x. x\<lparr>i_lock := lk\<rparr>) s)"

definition ilock :: "nat option \<Rightarrow> 'a fs_state_scheme \<Rightarrow> 'a fs_state_scheme res" where
  "ilock ip s =
     (case ip of
        None \<Rightarrow> Panic ''ilock''
      | Some i \<Rightarrow>
          if sint (i_ref (inodes s i)) < 1 then Panic ''ilock''
          else bnd (lock_inode i s) (\<lambda>s.
            if i_valid (inodes s i) = 0
            then let inum = i_inum (inodes s i)
                 in bnd (bread (i_dev (inodes s i)) (IBLOCK inum s) s) (\<lambda>(bp, s).
                    let s = upd_inode i (dinode_read (data_of bp s) (dinode_off inum)) s
                    in bnd (brelse bp s) (\<lambda>s.
                       let s = upd_inode i (\<lambda>x. x\<lparr>i_valid := 1\<rparr>) s
                       in if i_type (inodes s i) = 0 then Panic ''ilock: no type'' else Ok s))
            else Ok s))"

definition iunlock :: "nat option \<Rightarrow> 'a fs_state_scheme \<Rightarrow> 'a fs_state_scheme res" where
  "iunlock ip s =
     (case ip of
        None \<Rightarrow> Panic ''iunlock''
      | Some i \<Rightarrow>
          bnd (holdingsleep (i_lock (inodes s i)) s) (\<lambda>held.
            if \<not> held \<or> sint (i_ref (inodes s i)) < 1 then Panic ''iunlock''
            else Ok (unlock_inode i s)))"

section \<open>Truncation and release\<close>

definition bfree_addr :: "u32 \<Rightarrow> u32 \<Rightarrow> 'a fs_state_scheme \<Rightarrow> 'a fs_state_scheme res" where
  "bfree_addr dev a s = (if a \<noteq> 0 then bfree dev a s else Ok s)"

text \<open>The four-byte entry \<open>j\<close> of an indirect block in buffer \<open>bp\<close>.\<close>

definition entry :: "nat \<Rightarrow> nat \<Rightarrow> 'a bio_state_scheme \<Rightarrow> u32" where
  "entry bp j s = get32 (data_of bp s) (4 * j)"

definition itrunc_direct :: "nat \<Rightarrow> 'a fs_state_scheme \<Rightarrow> 'a fs_state_scheme res" where
  "itrunc_direct ip s =
     fold_res (\<lambda>i s.
       if i_addrs (inodes s ip) i \<noteq> 0
       then bnd (bfree (i_dev (inodes s ip)) (i_addrs (inodes s ip) i) s) (\<lambda>s.
            Ok (upd_inode ip (\<lambda>x. x\<lparr>i_addrs := (i_addrs x)(i := 0)\<rparr>) s))
       else Ok s) [0..<NDIRECT] s"

definition itrunc_indirect :: "nat \<Rightarrow> 'a fs_state_scheme \<Rightarrow> 'a fs_state_scheme res" where
  "itrunc_indirect ip s =
     (let dev = i_dev (inodes s ip); a = i_addrs (inodes s ip) NDIRECT
      in if a \<noteq> 0
         then bnd (bread dev a s) (\<lambda>(bp, s).
              bnd (fold_res (\<lambda>j s. bfree_addr dev (entry bp j s) s) [0..<NINDIRECT] s) (\<lambda>s.
              bnd (brelse bp s) (\<lambda>s.
              bnd (bfree dev a s) (\<lambda>s.
              Ok (upd_inode ip (\<lambda>x. x\<lparr>i_addrs := (i_addrs x)(NDIRECT := 0)\<rparr>) s)))))
         else Ok s)"

definition itrunc_double :: "nat \<Rightarrow> 'a fs_state_scheme \<Rightarrow> 'a fs_state_scheme res" where
  "itrunc_double ip s =
     (let dev = i_dev (inodes s ip); a = i_addrs (inodes s ip) NDIRECT_EX
      in if a \<noteq> 0
         then bnd (bread dev a s) (\<lambda>(bp, s).
              bnd (fold_res (\<lambda>j s.
                if entry bp j s \<noteq> 0
                then bnd (bread dev (entry bp j s) s) (\<lambda>(bp_sec, s).
                     bnd (fold_res (\<lambda>k s. bfree_addr dev (entry bp_sec k s) s) [0..<NINDIRECT] s) (\<lambda>s.
                     bnd (bfree dev (entry bp j s) s) (brelse bp_sec)))
                else Ok s) [0..<NINDIRECT] s) (\<lambda>s.
              bnd (brelse bp s) (\<lambda>s.
              bnd (bfree dev a s) (\<lambda>s.
              Ok (upd_inode ip (\<lambda>x. x\<lparr>i_addrs := (i_addrs x)(NDIRECT_EX := 0)\<rparr>) s)))))
         else Ok s)"

definition itrunc :: "nat \<Rightarrow> 'a fs_state_scheme \<Rightarrow> 'a fs_state_scheme res" where
  "itrunc ip s =
     bnd (itrunc_direct ip s) (\<lambda>s.
     bnd (itrunc_indirect ip s) (\<lambda>s.
     bnd (itrunc_double ip s) (\<lambda>s.
     iupdate ip (upd_inode ip (\<lambda>x. x\<lparr>i_size := 0\<rparr>) s))))"

definition iput :: "nat option \<Rightarrow> 'a fs_state_scheme \<Rightarrow> 'a fs_state_scheme res" where
  "iput ip s = deref ip (\<lambda>i.
     bnd (if i_ref (inodes s i) = 1 \<and> i_valid (inodes s i) \<noteq> 0 \<and> i_nlink (inodes s i) = 0
          then bnd (lock_inode i s) (\<lambda>s.
               bnd (itrunc i s) (\<lambda>s.
               bnd (iupdate i (upd_inode i (\<lambda>x. x\<lparr>i_type := 0\<rparr>) s)) (\<lambda>s.
               Ok (unlock_inode i (upd_inode i (\<lambda>x. x\<lparr>i_valid := 0\<rparr>) s)))))
          else Ok s)
     (\<lambda>s. Ok (upd_inode i (\<lambda>x. x\<lparr>i_ref := i_ref x - 1\<rparr>) s)))"

definition iunlockput :: "nat option \<Rightarrow> 'a fs_state_scheme \<Rightarrow> 'a fs_state_scheme res" where
  "iunlockput ip s = bnd (iunlock ip s) (iput ip)"

section \<open>Contents\<close>

text \<open>
  Entry \<open>j\<close> of the indirect block at disk address \<open>a\<close>, allocated when it is zero: the common
  part of the indirect and doubly indirect cases of \<^verbatim>\<open>bmap\<close>.
\<close>

definition bmap_entry :: "u32 \<Rightarrow> u32 \<Rightarrow> nat \<Rightarrow> 'a fs_state_scheme \<Rightarrow> (u32 \<times> 'a fs_state_scheme) res" where
  "bmap_entry dev a j s =
     bnd (bread dev a s) (\<lambda>(bp, s).
     bnd (if entry bp j s = 0
          then bnd (balloc dev s) (\<lambda>(addr, s).
               bnd (log_write bp (set_data bp (put32 (data_of bp s) (4 * j) addr) s)) (\<lambda>s. Ok (addr, s)))
          else Ok (entry bp j s, s)) (\<lambda>(addr, s).
     bnd (brelse bp s) (\<lambda>s. Ok (addr, s))))"

text \<open>Address \<open>i\<close> of the inode, allocated when it is zero.\<close>

definition bmap_addr :: "nat \<Rightarrow> nat \<Rightarrow> 'a fs_state_scheme \<Rightarrow> (u32 \<times> 'a fs_state_scheme) res" where
  "bmap_addr ip i s =
     (if i_addrs (inodes s ip) i = 0
      then bnd (balloc (i_dev (inodes s ip)) s) (\<lambda>(addr, s).
           Ok (addr, upd_inode ip (\<lambda>x. x\<lparr>i_addrs := (i_addrs x)(i := addr)\<rparr>) s))
      else Ok (i_addrs (inodes s ip) i, s))"

definition bmap :: "nat \<Rightarrow> u32 \<Rightarrow> 'a fs_state_scheme \<Rightarrow> (u32 \<times> 'a fs_state_scheme) res" where
  "bmap ip bno s =
     (let dev = i_dev (inodes s ip); bn = unat bno
      in if bn < NDIRECT then bmap_addr ip bn s
         else let bn = bn - NDIRECT
              in if bn < NINDIRECT
                 then bnd (bmap_addr ip NDIRECT s) (\<lambda>(addr, s). bmap_entry dev addr bn s)
                 else let bn = bn - NINDIRECT
                      in if bn < NINDIRECT_SEC
                         then bnd (bmap_addr ip NDIRECT_EX s) (\<lambda>(addr, s).
                              bnd (bmap_entry dev addr (bn div NINDIRECT) s) (\<lambda>(addr, s).
                              bmap_entry dev addr (bn mod NINDIRECT) s))
                         else Panic ''bmap: out of range'')"

definition stati :: "nat \<Rightarrow> 'a fs_state_scheme \<Rightarrow> stat" where
  "stati ip s = \<lparr>st_dev = i_dev (inodes s ip), st_ino = i_inum (inodes s ip), st_type = i_type (inodes s ip),
     st_nlink = i_nlink (inodes s ip), st_size = ucast (i_size (inodes s ip))\<rparr>"

text \<open>\<^verbatim>\<open>m = min(n - tot, BSIZE - off % BSIZE)\<close>.\<close>

definition io_chunk :: "u32 \<Rightarrow> u32 \<Rightarrow> u32 \<Rightarrow> u32" where
  "io_chunk off n tot =
     (let a = n - tot; b = 1024 - off mod 1024 in if a < b then a else b)"

lemma io_chunk_pos: "tot < n \<Longrightarrow> 0 < io_chunk off n tot"
proof -
  assume "tot < n"
  then have "unat (n - tot) = unat n - unat tot" "unat tot < unat n"
    by (simp_all add: unat_sub_if_size word_less_nat_alt)
  then have "0 < n - tot" by (simp add: word_less_nat_alt)
  moreover have "0 < 1024 - off mod 1024"
    by (simp add: word_less_nat_alt unat_sub_if_size unat_mod word_size)
  ultimately show ?thesis by (simp add: io_chunk_def Let_def)
qed

lemma io_chunk_le: "io_chunk off n tot \<le> n - tot"
  by (auto simp: io_chunk_def Let_def not_less)

lemma io_chunk_less: "tot < n \<Longrightarrow> tot < tot + io_chunk off n tot \<and> tot + io_chunk off n tot \<le> n"
proof -
  assume lt: "tot < n"
  have "unat (io_chunk off n tot) \<le> unat n - unat tot"
    using io_chunk_le [of off n tot] lt by (simp add: word_le_nat_alt word_less_nat_alt unat_sub_if_size)
  moreover have "unat n < 2 ^ 32" using unsigned_less [of n] by simp
  ultimately have "unat (tot + io_chunk off n tot) = unat tot + unat (io_chunk off n tot)"
    using lt by (simp add: unat_plus_if_size word_size word_less_nat_alt)
  then show ?thesis
    using \<open>unat (io_chunk off n tot) \<le> _\<close> lt io_chunk_pos [OF lt, of off]
    by (simp add: word_less_nat_alt word_le_nat_alt)
qed

function readi_loop :: "nat \<Rightarrow> loc \<Rightarrow> u32 \<Rightarrow> u32 \<Rightarrow> u32 \<Rightarrow> cptr \<Rightarrow> 'a fs_state_scheme \<Rightarrow>
    (i32 \<times> cptr \<times> 'a fs_state_scheme) res" where
  "readi_loop ip dst off n tot obj s =
     (if tot < n
      then bnd (bmap ip (off div 1024) s) (\<lambda>(addr, s).
           bnd (bread (i_dev (inodes s ip)) addr s) (\<lambda>(bp, s).
           let m = io_chunk off n tot
           in bnd (either_copyout dst (data_of bp s) (unat (off mod 1024)) (ucast m) obj s) (\<lambda>(r, obj, s).
              bnd (brelse bp s) (\<lambda>s.
              if r = - 1 then Ok (- 1, obj, s)
              else readi_loop ip (loc_add dst (unat m)) (off + m) n (tot + m) obj s))))
      else Ok (tot, obj, s))"
  by pat_completeness auto
termination
  by (relation "measure (\<lambda>(ip, dst, off, n, tot, obj, s). unat n - unat tot)")
    (use io_chunk_less in \<open>auto simp: word_less_nat_alt word_le_nat_alt intro!: diff_less_mono2\<close>)

declare readi_loop.simps [simp del]

definition readi :: "nat \<Rightarrow> loc \<Rightarrow> u32 \<Rightarrow> u32 \<Rightarrow> cptr \<Rightarrow> 'a fs_state_scheme \<Rightarrow>
    (i32 \<times> cptr \<times> 'a fs_state_scheme) res" where
  "readi ip dst off n obj s =
     (let sz = i_size (inodes s ip)
      in if sz < off \<or> off + n < off then Ok (0, obj, s)
         else readi_loop ip dst off (if sz < off + n then sz - off else n) 0 obj s)"

function writei_loop :: "nat \<Rightarrow> loc \<Rightarrow> u32 \<Rightarrow> u32 \<Rightarrow> u32 \<Rightarrow> cptr \<Rightarrow> 'a fs_state_scheme \<Rightarrow>
    (u32 \<times> u32 \<times> 'a fs_state_scheme) res" where
  "writei_loop ip src off n tot obj s =
     (if tot < n
      then bnd (bmap ip (off div 1024) s) (\<lambda>(addr, s).
           bnd (bread (i_dev (inodes s ip)) addr s) (\<lambda>(bp, s).
           let m = io_chunk off n tot
           in bnd (either_copyin (data_of bp s) (unat (off mod 1024)) src (ucast m) obj s) (\<lambda>(r, d, s).
              let s = set_data bp d s
              in if r = - 1 then bnd (brelse bp s) (\<lambda>s. Ok (off, tot, s))
                 else bnd (log_write bp s) (\<lambda>s.
                      bnd (brelse bp s)
                        (writei_loop ip (loc_add src (unat m)) (off + m) n (tot + m) obj)))))
      else Ok (off, tot, s))"
  by pat_completeness auto
termination
  by (relation "measure (\<lambda>(ip, src, off, n, tot, obj, s). unat n - unat tot)")
    (use io_chunk_less in \<open>auto simp: word_less_nat_alt word_le_nat_alt intro!: diff_less_mono2\<close>)

declare writei_loop.simps [simp del]

definition writei :: "nat \<Rightarrow> loc \<Rightarrow> u32 \<Rightarrow> u32 \<Rightarrow> cptr \<Rightarrow> 'a fs_state_scheme \<Rightarrow>
    (i32 \<times> 'a fs_state_scheme) res" where
  "writei ip src off n obj s =
     (if i_size (inodes s ip) < off \<or> off + n < off then Ok (- 1, s)
      else if MAXFILE * BSIZE < unat (off + n) then Ok (- 1, s)
      else bnd (writei_loop ip src off n 0 obj s) (\<lambda>(off, tot, s).
           let s = (if i_size (inodes s ip) < off then upd_inode ip (\<lambda>x. x\<lparr>i_size := off\<rparr>) s else s)
           in bnd (iupdate ip s) (\<lambda>s. Ok (tot, s))))"

end
