(* ===== verification/Dir.thy ===== *)
theory Dir
  imports Fs
begin

text \<open>
  Directories and path names, the rest of \<^verbatim>\<open>kernel/fs.c\<close>.  A path is the list of the bytes
  before its terminating zero; the buffer for a path element is an array of
  \<^verbatim>\<open>DIRSIZ\<close> bytes, as in the code, with no terminating zero when the element fills it.
\<close>

abbreviation (input) DIRSIZ :: nat where "DIRSIZ \<equiv> 14"
abbreviation (input) DIRENT :: nat where "DIRENT \<equiv> 16"
abbreviation (input) ROOTINO :: u32 where "ROOTINO \<equiv> 1"

text \<open>A byte list and a string literal as C strings.\<close>

definition cbytes :: "u8 list \<Rightarrow> cptr" where
  "cbytes xs i = (if i < length xs then xs ! i else 0)"

definition lit :: "string \<Rightarrow> cptr" where
  "lit t = cbytes (map of_char t)"

section \<open>Directories\<close>

text \<open>A directory entry has the inode number in its first two bytes and the name after it.\<close>

definition de_inum :: "cptr \<Rightarrow> u16" where
  "de_inum de = get16 de 0"

definition de_name :: "cptr \<Rightarrow> cptr" where
  "de_name de i = de (i + 2)"

definition namecmp :: "cptr \<Rightarrow> cptr \<Rightarrow> int" where
  "namecmp s t = strncmp s t 14"

definition read_dirent :: "nat \<Rightarrow> u32 \<Rightarrow> cptr \<Rightarrow> 'a fs_state_scheme \<Rightarrow> (i32 \<times> cptr \<times> 'a fs_state_scheme) res" where
  "read_dirent dp off de s = readi dp (Kobj 0) off 16 de s"

text \<open>
  In the two loops \<open>sz\<close> is \<^verbatim>\<open>dp->size\<close>, which reading entries does not change, and \<open>off\<close>
  counts the bytes before the current entry.
\<close>

function dirlookup_loop ::
  "nat \<Rightarrow> cptr \<Rightarrow> nat \<Rightarrow> nat \<Rightarrow> cptr \<Rightarrow> 'a fs_state_scheme \<Rightarrow> (nat option \<times> u32 \<times> 'a fs_state_scheme) res" where
  "dirlookup_loop dp name sz off de s =
     (if off < sz
      then bnd (read_dirent dp (of_nat off) de s) (\<lambda>(r, de, s).
        if r \<noteq> 16 then Panic ''dirlookup read''
        else if de_inum de = 0 then dirlookup_loop dp name sz (off + DIRENT) de s
        else if namecmp name (de_name de) = 0
        then bnd (iget (i_dev (inodes s dp)) (ucast (de_inum de)) s) (\<lambda>(ip, s). Ok (ip, of_nat off, s))
        else dirlookup_loop dp name sz (off + DIRENT) de s)
      else Ok (None, 0, s))"
  by pat_completeness auto
termination
  by (relation "measure (\<lambda>(dp, name, sz, off, de, s). sz - off)") auto

declare dirlookup_loop.simps [simp del]

text \<open>The result has the inode and, when there is one, the offset stored in \<^verbatim>\<open>*poff\<close>.\<close>

definition dirlookup ::
  "nat \<Rightarrow> cptr \<Rightarrow> 'a fs_state_scheme \<Rightarrow> (nat option \<times> u32 \<times> 'a fs_state_scheme) res" where
  "dirlookup dp name s =
     (if i_type (inodes s dp) \<noteq> T_DIR then Panic ''dirlookup not DIR''
      else dirlookup_loop dp name (unat (i_size (inodes s dp))) 0 (\<lambda>_. 0) s)"

function free_dirent ::
  "nat \<Rightarrow> nat \<Rightarrow> nat \<Rightarrow> cptr \<Rightarrow> 'a fs_state_scheme \<Rightarrow> (u32 \<times> cptr \<times> 'a fs_state_scheme) res" where
  "free_dirent dp sz off de s =
     (if off < sz
      then bnd (read_dirent dp (of_nat off) de s) (\<lambda>(r, de, s).
        if r \<noteq> 16 then Panic ''dirlink read''
        else if de_inum de = 0 then Ok (of_nat off, de, s)
        else free_dirent dp sz (off + DIRENT) de s)
      else Ok (of_nat off, de, s))"
  by pat_completeness auto
termination
  by (relation "measure (\<lambda>(dp, sz, off, de, s). sz - off)") auto

declare free_dirent.simps [simp del]

definition dirlink :: "nat \<Rightarrow> cptr \<Rightarrow> u32 \<Rightarrow> 'a fs_state_scheme \<Rightarrow> (i32 \<times> 'a fs_state_scheme) res" where
  "dirlink dp name inum s =
     bnd (dirlookup dp name s) (\<lambda>(ip, _, s).
       case ip of
         Some _ \<Rightarrow> bnd (iput ip s) (\<lambda>s. Ok (- 1, s))
       | None \<Rightarrow>
           bnd (free_dirent dp (unat (i_size (inodes s dp))) 0 (\<lambda>_. 0) s) (\<lambda>(off, de, s).
           let de = put16 (strncpy de 2 name 14) 0 (ucast inum)
           in bnd (writei dp (Kobj 0) off 16 de s) (\<lambda>(r, s).
              if r \<noteq> 16 then Panic ''dirlink'' else Ok (0, s))))"

section \<open>Paths\<close>

definition skipelem :: "u8 list \<Rightarrow> cptr \<Rightarrow> (u8 list \<times> cptr) option" where
  "skipelem path name =
     (let path = dropWhile (\<lambda>c. c = 47) path
      in if path = [] then None
         else let elem = takeWhile (\<lambda>c. c \<noteq> 47) path;
                  rest = dropWhile (\<lambda>c. c \<noteq> 47) path;
                  len = length elem;
                  name = (if DIRSIZ \<le> len then move_obj name 0 (cbytes elem) 0 DIRSIZ
                          else (move_obj name 0 (cbytes elem) 0 len)(len := 0))
              in Some (dropWhile (\<lambda>c. c = 47) rest, name))"

lemma skipelem_shorter:
  assumes "skipelem path name = Some (path', name')"
  shows "length path' < length path"
proof -
  let ?p = "dropWhile (\<lambda>c. c = (47::u8)) path"
  let ?r = "dropWhile (\<lambda>c. c \<noteq> (47::u8)) ?p"
  have "?p \<noteq> []" and p': "path' = dropWhile (\<lambda>c. c = 47) ?r"
    using assms by (auto simp: skipelem_def Let_def split: if_splits)
  have "hd ?p \<noteq> 47" using hd_dropWhile [OF \<open>?p \<noteq> []\<close>] .
  then have "length ?r < length ?p"
    using \<open>?p \<noteq> []\<close> by (cases ?p) (auto intro: le_less_trans [OF length_dropWhile_le])
  then show ?thesis
    using length_dropWhile_le [of "\<lambda>c. c = (47::u8)" path] length_dropWhile_le [of "\<lambda>c. c = (47::u8)" ?r]
    unfolding p' by linarith
qed

function namex_loop ::
  "u8 list \<Rightarrow> bool \<Rightarrow> cptr \<Rightarrow> nat option \<Rightarrow> 'a fs_state_scheme \<Rightarrow> (nat option \<times> cptr \<times> 'a fs_state_scheme) res" where
  "namex_loop path parent name ip s =
     (case skipelem path name of
        None \<Rightarrow> if parent then bnd (iput ip s) (\<lambda>s. Ok (None, name, s)) else Ok (ip, name, s)
      | Some (path, name) \<Rightarrow>
          bnd (ilock ip s) (\<lambda>s.
          deref ip (\<lambda>i.
            if i_type (inodes s i) \<noteq> T_DIR then bnd (iunlockput ip s) (\<lambda>s. Ok (None, name, s))
            else if parent \<and> path = [] then bnd (iunlock ip s) (\<lambda>s. Ok (ip, name, s))
            else bnd (dirlookup i name s) (\<lambda>(nxt, _, s).
                 bnd (iunlockput ip s) (\<lambda>s.
                 case nxt of None \<Rightarrow> Ok (None, name, s) | Some _ \<Rightarrow> namex_loop path parent name nxt s)))))"
  by pat_completeness auto
termination
  by (relation "measure (\<lambda>(path, parent, name, ip, s). length path)") (auto dest: skipelem_shorter)

declare namex_loop.simps [simp del]

definition namex ::
  "u8 list \<Rightarrow> bool \<Rightarrow> cptr \<Rightarrow> 'a fs_state_scheme \<Rightarrow> (nat option \<times> cptr \<times> 'a fs_state_scheme) res" where
  "namex path parent name s =
     bnd (if path \<noteq> [] \<and> hd path = 47 then iget ROOTDEV ROOTINO s
          else deref (myproc s) (\<lambda>p. idup (p_cwd (ptable s p)) s))
     (\<lambda>(ip, s). namex_loop path parent name ip s)"

definition namei :: "u8 list \<Rightarrow> 'a fs_state_scheme \<Rightarrow> (nat option \<times> 'a fs_state_scheme) res" where
  "namei path s = bnd (namex path False (\<lambda>_. 0) s) (\<lambda>(ip, _, s). Ok (ip, s))"

definition nameiparent ::
  "u8 list \<Rightarrow> cptr \<Rightarrow> 'a fs_state_scheme \<Rightarrow> (nat option \<times> cptr \<times> 'a fs_state_scheme) res" where
  "nameiparent path name s = namex path True name s"

end
