(* ===== verification/Ring.thy ===== *)
theory Ring
  imports KPrelude
begin

text \<open>
  Ring buffers with free-running indices, as pipes, the UART's output and the console's input
  use them: an array of \<open>N\<close> bytes, where \<open>N\<close> divides the range of the indices \<open>r\<close> and \<open>w\<close>, so
  that the indices may wrap around.  The interface \<open>fifo\<close> states what a bounded queue
  promises, and its clients' lemmas are proved once for every queue.
\<close>

section \<open>Contents\<close>

definition ring_list :: "nat \<Rightarrow> (nat \<Rightarrow> 'b) \<Rightarrow> 'a::len word \<Rightarrow> 'a word \<Rightarrow> 'b list" where
  "ring_list N buf r w = map (\<lambda>i. buf (unat (r + of_nat i) mod N)) [0..<unat (w - r)]"

lemma length_ring_list [simp]: "length (ring_list N buf r w) = unat (w - r)"
  by (simp add: ring_list_def)

lemma ring_list_empty_iff [simp]: "ring_list N buf r w = [] \<longleftrightarrow> r = w"
  by (auto simp: ring_list_def unat_eq_zero)

lemma ring_index:
  fixes r :: "'a::len word"
  assumes "N dvd 2 ^ LENGTH('a)"
  shows "unat (r + of_nat i) mod N = (unat r + i) mod N"
  using assms by (simp add: unat_word_ariths unsigned_of_nat take_bit_eq_mod mod_mod_cancel mod_add_right_eq)

lemma ring_index_inj:
  fixes N :: nat
  assumes "(a + i) mod N = (a + j) mod N" and "i < N" and "j < N"
  shows "i = j"
  using assms
proof (induction i j rule: linorder_wlog)
  case (le i j)
  have "(a + j) mod N = (a + i) mod N" using le(2) by simp
  then have "N dvd j - i" using mod_eq_dvd_iff_nat [of "a + i" "a + j" N] le(1) by simp
  moreover have "j - i < N" using le(4) by simp
  ultimately have "j - i = 0" using nat_dvd_not_less [of "j - i" N] by (cases "j - i = 0") simp_all
  then show ?case using le(1) by simp
next
  case (sym i j)
  then show ?case by simp
qed

lemma ring_list_put:
  fixes r w :: "'a::len word"
  assumes N: "N dvd 2 ^ LENGTH('a)" and room: "unat (w - r) < N" and small: "N < 2 ^ LENGTH('a)"
  shows "ring_list N (buf(unat w mod N := c)) r (w + 1) = ring_list N buf r w @ [c]"
proof -
  let ?n = "unat (w - r)"
  have w: "w = r + of_nat ?n" by simp
  have "unat (w + 1 - r) = unat ((w - r) + 1)" by (simp add: algebra_simps)
  also have "\<dots> = Suc ?n" using room small by (subst unat_add_lem [THEN iffD1]) simp_all
  finally have len: "unat (w + 1 - r) = Suc ?n" .
  have last: "(unat r + ?n) mod N = unat w mod N" using ring_index [OF N, of r ?n] by simp
  have other: "unat (r + of_nat i) mod N \<noteq> unat w mod N" if "i < ?n" for i
    using that room ring_index_inj [of "unat r" i N ?n] ring_index [OF N, of r i] ring_index [OF N, of r ?n]
    by (subst w) auto
  show ?thesis
    unfolding ring_list_def len using other by (simp add: ring_index [OF N] last)
qed

lemma ring_list_get:
  fixes r w :: "'a::len word"
  assumes "r \<noteq> w"
  shows "ring_list N buf r w = buf (unat r mod N) # ring_list N buf (r + 1) w"
proof -
  have "w - r \<noteq> 0" using assms by simp
  then have "unat (w - (r + 1)) = unat (w - r) - 1"
    using unat_minus_one [of "w - r"] by (simp add: algebra_simps)
  moreover have "0 < unat (w - r)" using assms by (simp add: unat_gt_0)
  ultimately obtain n where n: "unat (w - r) = Suc n" "unat (w - (r + 1)) = n" by (cases "unat (w - r)") auto
  show ?thesis
    unfolding ring_list_def n by (simp add: upt_rec [of 0 "Suc n"] map_Suc_upt [symmetric] algebra_simps comp_def del: upt_Suc)
qed

section \<open>The interface of a bounded queue\<close>

datatype 'b queue_op = Put 'b | Get

text \<open>
  A run of operations: a \<open>Put\<close> on a full queue and a \<open>Get\<close> on an empty one do nothing.  The
  result has the elements taken in, the elements handed out and the final state.
\<close>

fun queue_run ::
  "('b \<Rightarrow> 's \<Rightarrow> 's) \<Rightarrow> ('s \<Rightarrow> 'b \<times> 's) \<Rightarrow> ('s \<Rightarrow> bool) \<Rightarrow> ('s \<Rightarrow> bool) \<Rightarrow> 'b queue_op list \<Rightarrow> 's \<Rightarrow> 'b list \<times> 'b list \<times> 's" where
  "queue_run put get full isempty [] s = ([], [], s)"
| "queue_run put get full isempty (Put c # ops) s =
     (if full s then queue_run put get full isempty ops s
      else case queue_run put get full isempty ops (put c s) of (ins, outs, s') \<Rightarrow> (c # ins, outs, s'))"
| "queue_run put get full isempty (Get # ops) s =
     (if isempty s then queue_run put get full isempty ops s
      else case get s of (c, s) \<Rightarrow>
        case queue_run put get full isempty ops s of (ins, outs, s') \<Rightarrow> (ins, c # outs, s'))"

locale fifo =
  fixes put :: "'b \<Rightarrow> 's \<Rightarrow> 's" and get :: "'s \<Rightarrow> 'b \<times> 's" and full :: "'s \<Rightarrow> bool" and isempty :: "'s \<Rightarrow> bool"
    and contents :: "'s \<Rightarrow> 'b list" and cap :: nat
  assumes full_iff: "length (contents s) \<le> cap \<Longrightarrow> full s \<longleftrightarrow> length (contents s) = cap"
    and empty_iff: "isempty s \<longleftrightarrow> contents s = []"
    and put_contents: "length (contents s) < cap \<Longrightarrow> contents (put c s) = contents s @ [c]"
    and get_contents: "contents s \<noteq> [] \<Longrightarrow> contents s = fst (get s) # contents (snd (get s))"
begin

lemma run_fifo:
  assumes "length (contents s) \<le> cap" and "queue_run put get full isempty ops s = (ins, outs, s')"
  shows "contents s @ ins = outs @ contents s' \<and> length (contents s') \<le> cap"
  using assms
proof (induction ops arbitrary: s ins outs)
  case (Cons oper ops)
  show ?case
  proof (cases oper)
    case (Put c)
    show ?thesis
    proof (cases "full s")
      case True
      then show ?thesis using Cons Put by simp
    next
      case False
      then have room: "length (contents s) < cap" using full_iff [OF Cons.prems(1)] Cons.prems(1) by simp
      obtain ins1 where r: "queue_run put get full isempty ops (put c s) = (ins1, outs, s')" "ins = c # ins1"
        using Cons.prems(2) Put False by (auto split: prod.splits)
      have "length (contents (put c s)) \<le> cap" using room put_contents [OF room] by simp
      from Cons.IH [OF this r(1)] show ?thesis using put_contents [OF room] r(2) by simp
    qed
  next
    case Get
    show ?thesis
    proof (cases "isempty s")
      case True
      then show ?thesis using Cons Get by simp
    next
      case False
      then have g: "contents s = fst (get s) # contents (snd (get s))" using get_contents empty_iff by blast
      obtain outs1 where r: "queue_run put get full isempty ops (snd (get s)) = (ins, outs1, s')" "outs = fst (get s) # outs1"
        using Cons.prems(2) Get False by (auto split: prod.splits)
      have "length (contents s) = Suc (length (contents (snd (get s))))" by (subst g) simp
      then have "length (contents (snd (get s))) \<le> cap" using Cons.prems(1) by simp
      from Cons.IH [OF this r(1)] show ?thesis using g r(2) by (metis append_Cons)
    qed
  qed
qed simp

end

end
