(* ===== verification/Pagetable.thy ===== *)
theory Pagetable
  imports Vm
begin

text \<open>
  The theory of page tables in RAM.  \<open>node m root p\<close> is the page-table page reached from
  \<open>root\<close> by the list of indices \<open>p\<close>, and \<open>pte m root va\<close> the leaf entry of \<open>va\<close> (0 when a
  level is missing).  A table is well formed when each page-table page is reached by a
  single path and is owned by the table.  The operations of \<^verbatim>\<open>kernel/vm.c\<close> are then
  updates of the function \<open>pte m root\<close>.
\<close>

section \<open>Entries\<close>

lemma bit_lt_1024: "f < 1024 \<Longrightarrow> bit f n \<Longrightarrow> n < 10" for f :: u64
proof -
  assume "f < 1024" "bit f n"
  then have "take_bit 10 f = f"
    by (simp add: word_unat_eq_iff unsigned_take_bit_eq take_bit_nat_eq_self word_less_nat_alt)
  with \<open>bit f n\<close> show "n < 10" by (metis bit_take_bit_iff)
qed

lemma bit_aligned: "aligned p \<Longrightarrow> bit p n \<Longrightarrow> 12 \<le> n"
proof -
  assume "aligned p" "bit p n"
  then have "take_bit 12 p = 0" by (simp add: aligned_def take_bit_eq_mod)
  with \<open>bit p n\<close> show "12 \<le> n" by (metis bit_0_eq bit_take_bit_iff bot_apply bot_bool_def not_le)
qed

lemma bit_lt_PHYSTOP: "p < PHYSTOP \<Longrightarrow> bit p n \<Longrightarrow> n < 32" for p :: u64
proof -
  assume "p < PHYSTOP" "bit p n"
  then have "take_bit 32 p = p"
    by (simp add: word_unat_eq_iff unsigned_take_bit_eq take_bit_nat_eq_self word_less_nat_alt)
  with \<open>bit p n\<close> show "n < 32" by (metis bit_take_bit_iff)
qed

lemma PTE2PA_PA2PTE:
  assumes "aligned p" and "p < PHYSTOP" and "f < 1024"
  shows "PTE2PA (PA2PTE p OR f) = p"
proof (rule bit_word_eqI)
  fix n assume "n < LENGTH(64)"
  then show "bit (PTE2PA (PA2PTE p OR f)) n = bit p n"
    using bit_lt_1024 [OF assms(3), of "n - 2"] bit_aligned [OF assms(1), of n]
      bit_lt_PHYSTOP [OF assms(2), of n]
    by (auto simp: PTE2PA_def PA2PTE_def bit_simps)
qed

lemma PTE_FLAGS_PA2PTE:
  assumes "f < 1024" shows "PTE_FLAGS (PA2PTE p OR f) = f"
proof (rule bit_word_eqI)
  fix n assume "n < LENGTH(64)"
  have "PTE_FLAGS v = take_bit 10 v" for v
    by (simp add: PTE_FLAGS_def take_bit_eq_mask mask_numeral)
  then show "bit (PTE_FLAGS (PA2PTE p OR f)) n = bit f n"
    using bit_lt_1024 [OF assms, of n] by (auto simp: PA2PTE_def bit_simps)
qed

lemma PA2PTE_and_flags: "f < 1024 \<Longrightarrow> PA2PTE p AND f = 0"
  by (rule bit_word_eqI) (auto simp: PA2PTE_def bit_simps dest: bit_lt_1024)

lemma and_1_eq_0: "v AND 1 = 0 \<longleftrightarrow> \<not> odd v" for v :: u64
  by (simp add: and_one_eq even_iff_mod_2_eq_zero)

section \<open>Indices\<close>

lemma unat_PX: "unat (PX l va) = unat va div 2 ^ (12 + 9 * l) mod 512"
proof -
  have "PX l va = take_bit 9 (drop_bit (12 + 9 * l) va)"
    by (simp add: PX_def take_bit_eq_mask mask_numeral)
  then have "unat (PX l va) = take_bit 9 (unat (drop_bit (12 + 9 * l) va))"
    by (simp only: unsigned_take_bit_eq)
  moreover have "unat (drop_bit n va) = unat va div 2 ^ n" for n
    by (subst unsigned_drop_bit_eq) (simp add: drop_bit_eq_div take_bit_nat_eq_self unat_u64_lt)
  ultimately show ?thesis by (simp add: take_bit_eq_mod)
qed

lemma PX_less: "PX l va < 512"
  by (simp add: word_less_nat_alt unat_PX)

lemma PX_eq_iff:
  assumes "va < MAXVA" and "vb < MAXVA"
  shows "PX 2 va = PX 2 vb \<and> PX 1 va = PX 1 vb \<and> PX 0 va = PX 0 vb \<longleftrightarrow> pgno va = pgno vb"
proof -
  have split: "unat v div 4096 = unat (PX 0 v) + 512 * (unat (PX 1 v) + 512 * unat (PX 2 v))"
    if "v < MAXVA" for v
  proof -
    let ?k = "unat v div 4096"
    have "?k < 512 * (512 * 512)" using that by (simp add: word_less_nat_alt div_less_iff_less_mult)
    then have "?k div 512 div 512 < 512" by (simp add: div_less_iff_less_mult)
    moreover have "unat v div 2 ^ 21 = ?k div 512" "unat v div 2 ^ 30 = ?k div 512 div 512"
      by (simp_all flip: div_mult2_eq)
    ultimately show ?thesis by (simp add: unat_PX)
  qed
  show ?thesis
  proof
    assume "PX 2 va = PX 2 vb \<and> PX 1 va = PX 1 vb \<and> PX 0 va = PX 0 vb"
    then show "pgno va = pgno vb" by (simp add: pgno_def split [OF assms(1)] split [OF assms(2)])
  next
    assume "pgno va = pgno vb"
    then have k: "unat va div 4096 = unat vb div 4096" by (simp add: pgno_def)
    have "unat v div 2 ^ (12 + 9 * l) = unat v div 4096 div 2 ^ (9 * l)" for l and v :: u64
      by (simp add: power_add flip: div_mult2_eq)
    with k have "unat (PX l va) = unat (PX l vb)" for l by (simp only: unat_PX)
    then show "PX 2 va = PX 2 vb \<and> PX 1 va = PX 1 vb \<and> PX 0 va = PX 0 vb"
      by (simp add: word_unat_eq_iff)
  qed
qed

section \<open>Slots of a page\<close>

lemma unat_slot: "aligned q \<Longrightarrow> i < 512 \<Longrightarrow> unat (q + 8 * i) = unat q + 8 * unat i"
proof -
  assume q: "aligned q" and i: "i < 512"
  have i': "unat i < 512" using i by (simp add: word_less_nat_alt)
  have "unat (8 * i) = 8 * unat i"
    using i' by (subst unat_mult_lem [THEN iffD1]) simp_all
  moreover obtain k where k: "unat q = 4096 * k" using q by (rule alignedE)
  then have "k < 4503599627370496" using unat_u64_lt [of q] by linarith
  then have "unat q + 4096 \<le> 18446744073709551616" using k by linarith
  ultimately show ?thesis using i' by (subst unat_add_lem [THEN iffD1]) simp_all
qed

lemma slot_mod8: "aligned q \<Longrightarrow> i < 512 \<Longrightarrow> unat (q + 8 * i) mod 8 = 0"
proof -
  assume "aligned q" "i < 512"
  moreover have "unat q mod 8 = 0" using \<open>aligned q\<close> by (rule aligned_mod8)
  ultimately show ?thesis by (simp add: unat_slot)
qed

lemma pgno_slot: "aligned q \<Longrightarrow> i < 512 \<Longrightarrow> pgno (q + 8 * i) = pgno q"
proof -
  assume q: "aligned q" and i: "i < 512"
  obtain k where k: "unat q = 4096 * k" using q by (rule alignedE)
  have "8 * unat i < 4096" using i by (simp add: word_less_nat_alt)
  then show ?thesis using unat_slot [OF q i] k by (simp add: pgno_def)
qed

lemma slot_nonzero: "aligned q \<Longrightarrow> q \<noteq> 0 \<Longrightarrow> i < 512 \<Longrightarrow> q + 8 * i \<noteq> 0"
  using unat_slot [of q i] by (metis add_eq_0_iff_both_eq_0 unat_0 unat_eq_zero)

lemma cell64_disjoint:
  assumes "unat a mod 8 = 0" and "unat b mod 8 = 0" and "a \<noteq> b"
  shows "cell64 a \<inter> cell64 b = {}"
proof (rule ccontr)
  assume "cell64 a \<inter> cell64 b \<noteq> {}"
  then obtain k l where kl: "k < 8" "l < 8" "a + of_nat k = b + of_nat l"
    by (auto simp: cell64_def)
  have "unat (x + of_nat j) = unat x + j" if "unat x mod 8 = 0" "j < 8" for x :: u64 and j
  proof (rule unat_add_of_nat)
    obtain y where "unat x = 8 * y" using \<open>unat x mod 8 = 0\<close> by (metis mod_0_imp_dvd dvdE)
    then show "unat x + j < 2 ^ LENGTH(64)" using unat_u64_lt [of x] \<open>j < 8\<close> by simp
  qed
  then have "unat a + k = unat b + l" using kl assms by metis
  then have "(unat a + k) div 8 = (unat b + l) div 8" by simp
  then have "unat a div 8 = unat b div 8"
    using kl assms(1,2) by (simp add: div_add1_eq)
  then have "unat a = unat b" using assms(1,2) by (metis mod_0_imp_dvd dvd_mult_div_cancel)
  with assms(3) show False by (simp add: word_unat_eq_iff)
qed

lemma load64_store_slot:
  assumes "aligned q" "aligned r" "i < 512" "j < 512" "pgno q = pgno r \<longrightarrow> q = r"
  shows "load64 (store64 m (q + 8 * i) v) (r + 8 * j) =
    (if q = r \<and> i = j then v else load64 m (r + 8 * j))"
proof (cases "q = r \<and> i = j")
  case False
  have "q + 8 * i \<noteq> r + 8 * j"
  proof
    assume eq: "q + 8 * i = r + 8 * j"
    then have "pgno q = pgno r" using pgno_slot assms by metis
    then have "q = r" using assms(5) by simp
    with eq unat_slot [OF assms(1,3)] unat_slot [OF assms(2,4)] have "unat i = unat j" by simp
    with \<open>q = r\<close> False show False by (simp add: word_unat_eq_iff)
  qed
  with cell64_disjoint slot_mod8 assms have "cell64 (r + 8 * j) \<inter> cell64 (q + 8 * i) = {}"
    by metis
  then show ?thesis using False by (simp only: load64_store64_disjoint if_False)
qed auto

lemma load64_slot_cong:
  "aligned q \<Longrightarrow> i < 512 \<Longrightarrow> (\<And>b. pgno b = pgno q \<Longrightarrow> m b = m' b) \<Longrightarrow>
    load64 m (q + 8 * i) = load64 m' (q + 8 * i)"
  by (rule load64_page_cong) (auto simp: slot_mod8 pgno_slot)

lemma store64_slot_other_page:
  "aligned q \<Longrightarrow> i < 512 \<Longrightarrow> pgno b \<noteq> pgno q \<Longrightarrow> store64 m (q + 8 * i) v b = m b"
  by (rule store64_outside) (metis pgno_cell64 pgno_slot slot_mod8)

section \<open>Tables\<close>

definition next_tbl :: "mem \<Rightarrow> u64 \<Rightarrow> u64 \<Rightarrow> u64 option" where
  "next_tbl m q i =
     (let v = load64 m (q + 8 * i) in if v AND PTE_V \<noteq> 0 then Some (PTE2PA v) else None)"

fun node :: "mem \<Rightarrow> u64 \<Rightarrow> u64 list \<Rightarrow> u64 option" where
  "node m q [] = Some q"
| "node m q (i # p) = (case next_tbl m q i of None \<Rightarrow> None | Some r \<Rightarrow> node m r p)"

definition paths :: "u64 list set" where
  "paths = {p. length p \<le> 2 \<and> (\<forall>i \<in> set p. i < 512)}"

definition nodes :: "mem \<Rightarrow> u64 \<Rightarrow> u64 set" where
  "nodes m root = {q. \<exists>p \<in> paths. node m root p = Some q}"

definition leaf_path :: "u64 \<Rightarrow> u64 list" where
  "leaf_path va = [PX 2 va, PX 1 va]"

definition pte :: "mem \<Rightarrow> u64 \<Rightarrow> u64 \<Rightarrow> u64" where
  "pte m root va =
     (if va \<ge> MAXVA then 0
      else case node m root (leaf_path va) of None \<Rightarrow> 0 | Some q \<Rightarrow> load64 m (q + 8 * PX 0 va))"

definition pt_wf :: "'a kmem_state_scheme \<Rightarrow> u64 \<Rightarrow> bool" where
  "pt_wf s root \<longleftrightarrow>
     (\<forall>q \<in> nodes (ram s) root. sole_owner s q) \<and>
     (\<forall>p \<in> paths. \<forall>p' \<in> paths. \<forall>q.
        node (ram s) root p = Some q \<longrightarrow> node (ram s) root p' = Some q \<longrightarrow> p = p') \<and>
     (\<forall>p \<in> paths. \<forall>q i. length p < 2 \<longrightarrow> node (ram s) root p = Some q \<longrightarrow> i < 512 \<longrightarrow>
        load64 (ram s) (q + 8 * i) AND PTE_V \<noteq> 0 \<longrightarrow>
        load64 (ram s) (q + 8 * i) AND (PTE_R OR PTE_W OR PTE_X) = 0)"

lemma node_snoc:
  "node m root (p @ [i]) = (case node m root p of None \<Rightarrow> None | Some q \<Rightarrow> next_tbl m q i)"
  by (induction p arbitrary: root) (auto split: option.splits)

lemma paths_Nil [simp]: "[] \<in> paths"
  by (simp add: paths_def)

lemma paths_snocD: "p @ [i] \<in> paths \<Longrightarrow> p \<in> paths \<and> length p < 2 \<and> i < 512"
  by (auto simp: paths_def)

lemma paths_snocI: "p \<in> paths \<Longrightarrow> length p < 2 \<Longrightarrow> i < 512 \<Longrightarrow> p @ [i] \<in> paths"
  by (auto simp: paths_def)

lemma leaf_path_paths [simp]: "leaf_path va \<in> paths"
  by (simp add: leaf_path_def paths_def PX_less)

lemma length_leaf_path [simp]: "length (leaf_path va) = 2"
  by (simp add: leaf_path_def)

lemma nodesI: "p \<in> paths \<Longrightarrow> node m root p = Some q \<Longrightarrow> q \<in> nodes m root"
  by (auto simp: nodes_def)

lemma root_in_nodes [simp]: "root \<in> nodes m root"
  by (rule nodesI [of "[]"]) simp_all

lemma sole_owner_aligned: "sole_owner s q \<Longrightarrow> aligned q"
  by (simp add: sole_owner_def page_ok_def)

lemma sole_owner_pgno: "sole_owner s p \<Longrightarrow> sole_owner s q \<Longrightarrow> pgno p = pgno q \<longleftrightarrow> p = q"
  by (auto simp: sole_owner_def page_ok_pgno_inj)

lemma pt_wfD:
  assumes "pt_wf s root"
  shows "\<And>q. q \<in> nodes (ram s) root \<Longrightarrow> sole_owner s q"
    and "\<And>q. q \<in> nodes (ram s) root \<Longrightarrow> aligned q"
    and "\<And>p p' q. p \<in> paths \<Longrightarrow> p' \<in> paths \<Longrightarrow> node (ram s) root p = Some q \<Longrightarrow>
      node (ram s) root p' = Some q \<Longrightarrow> p = p'"
    and "\<And>p q i. p \<in> paths \<Longrightarrow> length p < 2 \<Longrightarrow> node (ram s) root p = Some q \<Longrightarrow> i < 512 \<Longrightarrow>
      load64 (ram s) (q + 8 * i) AND PTE_V \<noteq> 0 \<Longrightarrow>
      load64 (ram s) (q + 8 * i) AND (PTE_R OR PTE_W OR PTE_X) = 0"
  using assms unfolding pt_wf_def by (blast intro: sole_owner_aligned)+

subsection \<open>Frames\<close>

text \<open>Nothing outside the pages \<open>P\<close> has changed.\<close>

definition same_outside :: "u64 set \<Rightarrow> 'a kmem_state_scheme \<Rightarrow> 'a kmem_state_scheme \<Rightarrow> bool" where
  "same_outside P s s' \<longleftrightarrow> kend s' = kend s \<and> kmem_state.more s' = kmem_state.more s \<and>
     (\<forall>b. pgno b \<notin> pgno ` P \<longrightarrow> ram s' b = ram s b) \<and>
     (\<forall>n. n \<notin> pgno ` P \<longrightarrow> refcount s' n = refcount s n)"

lemma same_outside_refl [simp]: "same_outside P s s"
  by (simp add: same_outside_def)

lemma same_outside_trans:
  "same_outside P s s' \<Longrightarrow> same_outside Q s' s'' \<Longrightarrow> same_outside (P \<union> Q) s s''"
  by (simp add: same_outside_def image_Un)

lemma same_outside_mono: "same_outside P s s' \<Longrightarrow> P \<subseteq> Q \<Longrightarrow> same_outside Q s s'"
  unfolding same_outside_def by (meson image_mono subsetD)

lemma same_outside_ram:
  "same_outside P s s' \<Longrightarrow> pgno b \<notin> pgno ` P \<Longrightarrow> ram s' b = ram s b"
  by (simp add: same_outside_def)

lemma node_cong:
  assumes "\<And>q b. q \<in> nodes m root \<Longrightarrow> pgno b = pgno q \<Longrightarrow> m' b = m b"
    and "\<And>q. q \<in> nodes m root \<Longrightarrow> aligned q" and "p \<in> paths"
  shows "node m' root p = node m root p"
  using assms(3)
proof (induction p rule: rev_induct)
  case (snoc i p)
  then have p: "p \<in> paths" "i < 512" by (auto dest: paths_snocD)
  show ?case
  proof (cases "node m root p")
    case (Some q)
    then have q: "q \<in> nodes m root" using p(1) by (rule nodesI [rotated])
    have "load64 m' (q + 8 * i) = load64 m (q + 8 * i)"
      by (rule load64_slot_cong [OF assms(2) [OF q] p(2)]) (rule assms(1) [OF q])
    with Some snoc.IH [OF p(1)] show ?thesis by (simp add: node_snoc next_tbl_def)
  qed (use snoc.IH [OF p(1)] in \<open>simp add: node_snoc\<close>)
qed simp

lemma nodes_cong:
  assumes "\<And>q b. q \<in> nodes m root \<Longrightarrow> pgno b = pgno q \<Longrightarrow> m' b = m b"
    and "\<And>q. q \<in> nodes m root \<Longrightarrow> aligned q"
  shows "nodes m' root = nodes m root"
proof -
  have "node m' root p = node m root p" if "p \<in> paths" for p
    by (rule node_cong [OF assms that])
  then show ?thesis by (auto simp: nodes_def)
qed

lemma pte_cong:
  assumes "\<And>q b. q \<in> nodes m root \<Longrightarrow> pgno b = pgno q \<Longrightarrow> m' b = m b"
    and "\<And>q. q \<in> nodes m root \<Longrightarrow> aligned q"
  shows "pte m' root va = pte m root va"
proof -
  have n: "node m' root (leaf_path va) = node m root (leaf_path va)"
    by (rule node_cong [OF assms leaf_path_paths])
  show ?thesis
  proof (cases "node m root (leaf_path va)")
    case (Some q)
    then have q: "q \<in> nodes m root" by (rule nodesI [OF leaf_path_paths])
    have "load64 m' (q + 8 * PX 0 va) = load64 m (q + 8 * PX 0 va)"
      by (rule load64_slot_cong [OF assms(2) [OF q] PX_less]) (rule assms(1) [OF q])
    with Some n show ?thesis by (simp add: pte_def)
  qed (use n in \<open>simp add: pte_def\<close>)
qed

lemma pt_frame:
  assumes wf: "pt_wf s root" and same: "same_outside P s s'"
    and P: "pgno ` P \<inter> pgno ` nodes (ram s) root = {}"
  shows "pt_wf s' root" and "nodes (ram s') root = nodes (ram s) root"
    and "pte (ram s') root = pte (ram s) root"
proof -
  have m: "ram s' b = ram s b" if "q \<in> nodes (ram s) root" "pgno b = pgno q" for q b
    using same that P by (auto intro!: same_outside_ram)
  note frame = m pt_wfD(2) [OF wf]
  show nodes: "nodes (ram s') root = nodes (ram s) root" by (rule nodes_cong [OF frame])
  show "pte (ram s') root = pte (ram s) root" by (rule ext, rule pte_cong [OF frame])
  have node: "node (ram s') root p = node (ram s) root p" if "p \<in> paths" for p
    by (rule node_cong [OF frame that])
  have load: "load64 (ram s') (q + 8 * i) = load64 (ram s) (q + 8 * i)"
    if "q \<in> nodes (ram s) root" "i < 512" for q i
    by (rule load64_slot_cong [OF pt_wfD(2) [OF wf that(1)] that(2)]) (rule m [OF that(1)])
  have "sole_owner s' q" if "q \<in> nodes (ram s) root" for q
  proof -
    have "pgno q \<notin> pgno ` P" using that P by blast
    then show ?thesis using same pt_wfD(1) [OF wf that] by (simp add: sole_owner_def same_outside_def)
  qed
  moreover have "load64 (ram s') (q + 8 * i) = load64 (ram s) (q + 8 * i)"
    if "node (ram s) root p = Some q" "p \<in> paths" "i < 512" for p q i
    using that load nodesI by blast
  ultimately show "pt_wf s' root"
    using wf unfolding pt_wf_def nodes by (simp add: node)
qed

subsection \<open>Writing an entry\<close>

lemma kmem_inv_ram:
  assumes "kmem_inv s fl" and "\<And>p b. p \<in> set fl \<Longrightarrow> pgno b = pgno p \<Longrightarrow> m b = ram s b"
  shows "kmem_inv (s\<lparr>ram := m\<rparr>) fl"
proof -
  note inv = kmem_invD [OF assms(1)]
  have "flist m (freelist s) fl" by (rule flist_cong [OF inv(2,5)]) (use assms(2) in auto)
  then show ?thesis using assms(1) by (simp add: kmem_inv_def kmem_inv_on_def)
qed

lemma owned_not_free: "kmem_inv s fl \<Longrightarrow> sole_owner s q \<Longrightarrow> p \<in> set fl \<Longrightarrow> pgno p \<noteq> pgno q"
  using kmem_invD(4,6) page_ok_pgno_inj unfolding sole_owner_def by (metis zero_neq_one)

lemma load_slot_node:
  assumes wf: "pt_wf s root" and p: "p \<in> paths" "node (ram s) root p = Some q" "i < 512"
    and p': "p' \<in> paths" "node (ram s) root p' = Some q'" "j < 512"
  shows "load64 (store64 (ram s) (q + 8 * i) v) (q' + 8 * j) =
    (if p = p' \<and> i = j then v else load64 (ram s) (q' + 8 * j))"
proof -
  have own: "sole_owner s q" "sole_owner s q'" using pt_wfD(1) [OF wf] nodesI p p' by blast+
  have "q = q' \<longleftrightarrow> p = p'" using pt_wfD(3) [OF wf p(1) p'(1)] p p' by auto
  with load64_store_slot [OF own [THEN sole_owner_aligned] p(3) p'(3)] sole_owner_pgno [OF own]
  show ?thesis by simp
qed

lemma store_leaf:
  fixes v :: u64
  assumes wf: "pt_wf s root" and inv: "kmem_inv s fl"
    and p: "p \<in> paths" "length p = 2" "node (ram s) root p = Some q" and i: "i < 512"
  defines "s' \<equiv> s\<lparr>ram := store64 (ram s) (q + 8 * i) v\<rparr>"
  shows "pt_wf s' root" and "kmem_inv s' fl" and "same_outside {q} s s'"
    and "nodes (ram s') root = nodes (ram s) root"
    and "\<And>p. p \<in> paths \<Longrightarrow> node (ram s') root p = node (ram s) root p"
    and "\<And>va. pte (ram s') root va =
      (if va < MAXVA \<and> leaf_path va = p \<and> PX 0 va = i then v else pte (ram s) root va)"
proof -
  have own: "sole_owner s q" by (rule pt_wfD(1) [OF wf nodesI [OF p(1,3)]])
  then have al: "aligned q" by (rule sole_owner_aligned)
  note load = load_slot_node [OF wf p(1,3) i, of _ _ _ v]
  show node: "node (ram s') root p' = node (ram s) root p'" if "p' \<in> paths" for p'
    using that
  proof (induction p' rule: rev_induct)
    case (snoc j p')
    then have p': "p' \<in> paths" "length p' < 2" "j < 512" by (auto dest: paths_snocD)
    then have "p \<noteq> p'" using p(2) by auto
    with snoc.IH [OF p'(1)] load [OF p'(1) _ p'(3)] show ?case
      by (auto simp: node_snoc next_tbl_def s'_def split: option.splits)
  qed simp
  then show nodes: "nodes (ram s') root = nodes (ram s) root" by (simp add: nodes_def)
  show "same_outside {q} s s'"
    by (simp add: same_outside_def s'_def store64_slot_other_page [OF al i])
  show "kmem_inv s' fl" unfolding s'_def
    by (rule kmem_inv_ram [OF inv])
      (metis owned_not_free [OF inv own] store64_slot_other_page [OF al i])
  show "pte (ram s') root va =
      (if va < MAXVA \<and> leaf_path va = p \<and> PX 0 va = i then v else pte (ram s) root va)" for va
  proof (cases "node (ram s) root (leaf_path va)")
    case (Some q')
    with load [OF leaf_path_paths Some PX_less] node [OF leaf_path_paths] show ?thesis
      by (auto simp: pte_def s'_def)
  next
    case None
    then have "leaf_path va \<noteq> p" using p(3) by auto
    with None show ?thesis by (simp add: pte_def node)
  qed
  have "load64 (ram s') (r + 8 * j) = load64 (ram s) (r + 8 * j)"
    if "p' \<in> paths" "length p' < 2" "node (ram s) root p' = Some r" "j < 512" for p' r j
    using load [OF that(1,3,4)] that(2) p(2) by (auto simp: s'_def)
  moreover have "sole_owner s' r \<longleftrightarrow> sole_owner s r" for r by (simp add: s'_def sole_owner_def)
  ultimately show "pt_wf s' root" using wf unfolding pt_wf_def nodes by (simp add: node)
qed

subsection \<open>Adding a page-table page\<close>

lemma load64_zero: "(\<And>b. b \<in> cell64 a \<Longrightarrow> m b = 0) \<Longrightarrow> load64 m a = 0"
  by (simp add: cell64_expand load64_def bytes8_def le_cons_def)

lemma load64_zero_page:
  "aligned r \<Longrightarrow> i < 512 \<Longrightarrow> (\<And>b. pgno b = pgno r \<Longrightarrow> m b = 0) \<Longrightarrow> load64 m (r + 8 * i) = 0"
  by (rule load64_zero) (metis pgno_cell64 pgno_slot slot_mod8)

lemma kalloc_zeroed:
  assumes inv: "kmem_inv s (r # fl)"
  defines "t \<equiv> s\<lparr>freelist := load64 (ram s) r, refcount := (refcount s)(pgno r := 1),
    ram := memset (ram s) r 5 4096\<rparr>"
  defines "t' \<equiv> t\<lparr>ram := memset (ram t) r 0 4096\<rparr>"
  shows "kalloc s = Ok (r, t)" and "kmem_inv t' fl" and "same_outside {r} s t'"
    and "sole_owner t' r" and "r \<noteq> 0" and "\<And>b. pgno b = pgno r \<Longrightarrow> ram t' b = 0"
    and "\<And>q. sole_owner s q \<Longrightarrow> pgno q \<noteq> pgno r"
proof -
  note al = kalloc_cons [OF inv, folded t_def] and facts = kmem_invD [OF inv]
  have r: "page_ok (kend s) r" "aligned r" "r \<noteq> 0" using facts by auto
  show "kalloc s = Ok (r, t)" by (rule al(1))
  show "r \<noteq> 0" by fact
  show "sole_owner t' r" using r by (simp add: sole_owner_def t'_def t_def)
  show "same_outside {r} s t'"
    using r by (auto simp: same_outside_def t'_def t_def memset_page_apply)
  show "ram t' b = 0" if "pgno b = pgno r" for b
    using that r by (simp add: t'_def t_def memset_page_apply)
  show "pgno q \<noteq> pgno r" if "sole_owner s q" for q
    using owned_not_free [OF inv that, of r] by simp
  have "pgno p \<noteq> pgno r" if "p \<in> set fl" for p
    using that facts(3,4) page_ok_pgno_inj [OF facts(4) facts(4), of p r] by auto
  then show "kmem_inv t' fl" unfolding t'_def
    by (intro kmem_inv_ram [OF al(2)]) (metis memset_page_apply r(2))
qed

lemma PTE2PA_link: "page_ok e r \<Longrightarrow> PTE2PA (PA2PTE r OR 1) = r"
  by (simp add: page_ok_def PTE2PA_PA2PTE)

lemma link_valid [simp]: "(PA2PTE r OR 1) AND 1 = 1"
  by (simp add: bit.conj_disj_distrib2 PA2PTE_and_flags)

lemma link_not_leaf: "(PA2PTE r OR 1) AND (PTE_R OR PTE_W OR PTE_X) = 0"
  by (simp add: bit.conj_disj_distrib2 PA2PTE_and_flags)

text \<open>A zeroed page \<open>r\<close> is about to be entered at index \<open>i\<close> of the page \<open>q\<close> at path \<open>p\<close>.\<close>

definition can_link :: "'a kmem_state_scheme \<Rightarrow> u64 \<Rightarrow> u64 list \<Rightarrow> u64 \<Rightarrow> u64 \<Rightarrow> u64 \<Rightarrow> bool" where
  "can_link s root p q i r \<longleftrightarrow>
     pt_wf s root \<and> p \<in> paths \<and> length p < 2 \<and> node (ram s) root p = Some q \<and> i < 512 \<and>
     next_tbl (ram s) q i = None \<and> sole_owner s r \<and> r \<notin> nodes (ram s) root \<and>
     (\<forall>b. pgno b = pgno r \<longrightarrow> ram s b = 0)"

lemma can_linkD:
  assumes "can_link s root p q i r"
  shows "pt_wf s root" "p \<in> paths" "length p < 2" "node (ram s) root p = Some q" "i < 512"
    "next_tbl (ram s) q i = None" "sole_owner s r" "r \<notin> nodes (ram s) root"
    "\<And>b. pgno b = pgno r \<Longrightarrow> ram s b = 0" "sole_owner s q" "aligned q" "aligned r"
    "pgno q \<noteq> pgno r" "node (ram s) root (p @ [i]) = None"
proof -
  show link: "pt_wf s root" "p \<in> paths" "length p < 2" "node (ram s) root p = Some q" "i < 512"
    "next_tbl (ram s) q i = None" "sole_owner s r" "r \<notin> nodes (ram s) root"
    "\<And>b. pgno b = pgno r \<Longrightarrow> ram s b = 0"
    using assms by (simp_all add: can_link_def)
  have "q \<in> nodes (ram s) root" by (rule nodesI [OF link(2,4)])
  then show "sole_owner s q" "aligned q" "aligned r" "pgno q \<noteq> pgno r"
    using pt_wfD(1) [OF link(1)] link(7,8) sole_owner_aligned sole_owner_pgno by blast+
  show "node (ram s) root (p @ [i]) = None" using link by (simp add: node_snoc)
qed

lemma link_loads:
  fixes s :: "'a kmem_state_scheme"
  assumes link: "can_link s root p q i r"
  defines "m \<equiv> store64 (ram s) (q + 8 * i) (PA2PTE r OR PTE_V)"
  shows "\<And>j. j < 512 \<Longrightarrow> load64 m (r + 8 * j) = 0"
    and "\<And>p' q' j. p' \<in> paths \<Longrightarrow> node (ram s) root p' = Some q' \<Longrightarrow> j < 512 \<Longrightarrow>
      load64 m (q' + 8 * j) = (if p = p' \<and> i = j then PA2PTE r OR PTE_V else load64 (ram s) (q' + 8 * j))"
    and "PTE2PA (PA2PTE r OR PTE_V) = r"
proof -
  note l = can_linkD [OF link]
  show "load64 m (r + 8 * j) = 0" if "j < 512" for j
    using load64_store_slot [OF l(11,12,5) that] l(13) load64_zero_page [OF l(12) that l(9)]
    by (auto simp: m_def)
  show "load64 m (q' + 8 * j) = (if p = p' \<and> i = j then PA2PTE r OR PTE_V else load64 (ram s) (q' + 8 * j))"
    if "p' \<in> paths" "node (ram s) root p' = Some q'" "j < 512" for p' q' j
    unfolding m_def by (rule load_slot_node [OF l(1,2,4,5) that])
  show "PTE2PA (PA2PTE r OR PTE_V) = r"
    using l(7) by (auto simp: sole_owner_def intro: PTE2PA_link)
qed

lemma link_node:
  assumes link: "can_link s root p q i r" and "p' \<in> paths"
  shows "node (store64 (ram s) (q + 8 * i) (PA2PTE r OR PTE_V)) root p' =
    (if p' = p @ [i] then Some r else node (ram s) root p')"
  using assms(2)
proof (induction p' rule: rev_induct)
  case (snoc j p')
  then have p': "p' \<in> paths" "length p' < 2" "j < 512" by (auto dest: paths_snocD)
  note IH = snoc.IH [OF p'(1)] and loads = link_loads [OF link] and l = can_linkD [OF link]
  show ?case
  proof (cases "p' = p @ [i]")
    case True
    with IH loads(1) [OF p'(3)] l(14) show ?thesis
      by (simp add: node_snoc next_tbl_def del: append_assoc)
  next
    case False
    show ?thesis
    proof (cases "node (ram s) root p'")
      case None
      then show ?thesis using IH False l(4) by (auto simp: node_snoc)
    next
      case (Some q')
      with loads(2) [OF p'(1) Some p'(3)] IH False loads(3) show ?thesis
        by (auto simp: node_snoc next_tbl_def Let_def)
    qed
  qed
qed simp

lemma link_pte:
  assumes link: "can_link s root p q i r"
  shows "pte (store64 (ram s) (q + 8 * i) (PA2PTE r OR PTE_V)) root va = pte (ram s) root va"
proof -
  note n = link_node [OF link leaf_path_paths, of va] and loads = link_loads [OF link]
    and l = can_linkD [OF link]
  show ?thesis
  proof (cases "node (ram s) root (leaf_path va)")
    case (Some q')
    moreover have "p \<noteq> leaf_path va" using l(3) by auto
    ultimately show ?thesis
      using n l(14) loads(2) [OF leaf_path_paths Some PX_less] by (auto simp: pte_def)
  qed (use n loads(1) [OF PX_less] in \<open>auto simp: pte_def\<close>)
qed

lemma link_table:
  assumes link: "can_link s root p q i r" and inv: "kmem_inv s fl"
  defines "s' \<equiv> s\<lparr>ram := store64 (ram s) (q + 8 * i) (PA2PTE r OR PTE_V)\<rparr>"
  shows "pt_wf s' root" and "kmem_inv s' fl" and "same_outside {q} s s'"
    and "nodes (ram s') root = insert r (nodes (ram s) root)"
    and "node (ram s') root (p @ [i]) = Some r"
    and "pte (ram s') root = pte (ram s) root"
proof -
  note l = can_linkD [OF link] and loads = link_loads [OF link]
  have node: "node (ram s') root p' = (if p' = p @ [i] then Some r else node (ram s) root p')"
    if "p' \<in> paths" for p'
    using link_node [OF link that] by (simp add: s'_def)
  have path: "p @ [i] \<in> paths" by (rule paths_snocI [OF l(2,3,5)])
  with node show new: "node (ram s') root (p @ [i]) = Some r" by simp
  have up: "x \<in> nodes (ram s') root" if p': "p' \<in> paths" "node (ram s) root p' = Some x" for p' x
  proof (rule nodesI [OF p'(1)])
    have "p' \<noteq> p @ [i]" using p' l(14) by auto
    with node [OF p'(1)] p' show "node (ram s') root p' = Some x" by simp
  qed
  have down: "x = r \<or> x \<in> nodes (ram s) root"
    if p': "p' \<in> paths" "node (ram s') root p' = Some x" for p' x
    using node [OF p'(1)] p' nodesI [OF p'(1)] by (auto split: if_splits)
  show nodes: "nodes (ram s') root = insert r (nodes (ram s) root)"
    using up down nodesI [OF path new] unfolding nodes_def [of "ram s"] nodes_def [of "ram s'"] by blast
  show "same_outside {q} s s'"
    by (simp add: same_outside_def s'_def store64_slot_other_page [OF l(11,5)])
  show "kmem_inv s' fl" unfolding s'_def
    by (rule kmem_inv_ram [OF inv])
      (metis owned_not_free [OF inv l(10)] store64_slot_other_page [OF l(11,5)])
  show "pte (ram s') root = pte (ram s) root" 
    by (rule ext) (simp add: s'_def link_pte [OF link])
  have "p' = p''" if "p' \<in> paths" "p'' \<in> paths" "node (ram s') root p' = Some x"
    "node (ram s') root p'' = Some x" for p' p'' x
    using that pt_wfD(3) [OF l(1) that(1,2)] l(8) nodesI by (auto simp: node split: if_splits)
  moreover have "load64 (ram s') (x + 8 * j) AND (PTE_R OR PTE_W OR PTE_X) = 0"
    if "p' \<in> paths" "length p' < 2" "node (ram s') root p' = Some x" "j < 512"
      "load64 (ram s') (x + 8 * j) AND PTE_V \<noteq> 0" for p' x j
  proof (cases "p' = p @ [i]")
    case False
    with that node have x: "node (ram s) root p' = Some x" by simp
    with loads(2) [OF that(1) x that(4)] link_not_leaf [of r]
      pt_wfD(4) [OF l(1) that(1,2) x that(4)] that(5)
    show ?thesis by (auto simp: s'_def split: if_splits)
  next
    case True
    with that(3) node [OF that(1)] have "x = r" by simp
    with that(5) loads(1) [OF that(4)] show ?thesis by (simp add: s'_def)
  qed
  moreover have "sole_owner s' x" if "x \<in> nodes (ram s') root" for x
  proof -
    have "sole_owner s x" using that l(7) pt_wfD(1) [OF l(1)] unfolding nodes by auto
    then show ?thesis by (simp add: sole_owner_def s'_def)
  qed
  ultimately show "pt_wf s' root" unfolding pt_wf_def by blast
qed

section \<open>Walking\<close>

fun pxs :: "nat \<Rightarrow> u64 \<Rightarrow> u64 list" where
  "pxs 0 va = []"
| "pxs (Suc l) va = PX (Suc l) va # pxs l va"

lemma pxs_2: "pxs 2 va = leaf_path va"
  by (simp add: numeral_2_eq_2 leaf_path_def)

lemma walk_loop_lookup:
  "walk_loop l q va False s =
    Ok ((case node (ram s) q (pxs l va) of None \<Rightarrow> 0 | Some r \<Rightarrow> r + 8 * PX 0 va), s)"
  by (induction l arbitrary: q) (auto simp: next_tbl_def Let_def)

lemma walk_lookup:
  "va < MAXVA \<Longrightarrow> walk root va False s =
    Ok ((case node (ram s) root (leaf_path va) of None \<Rightarrow> 0 | Some r \<Rightarrow> r + 8 * PX 0 va), s)"
  by (simp add: walk_def walk_loop_lookup pxs_2)

text \<open>
  What a table operation that may allocate page-table pages has done: it took the pages \<open>ps\<close>
  from the free list, they are now nodes of the table, and nothing outside the table changed.
\<close>

definition grown :: "u64 \<Rightarrow> 'a kmem_state_scheme \<Rightarrow> u64 list \<Rightarrow> 'a kmem_state_scheme \<Rightarrow> u64 list \<Rightarrow> u64 list \<Rightarrow> bool" where
  "grown root s fl s' fl' ps \<longleftrightarrow>
     fl = ps @ fl' \<and> kmem_inv s' fl' \<and> pt_wf s' root \<and>
     nodes (ram s') root = nodes (ram s) root \<union> set ps \<and>
     same_outside (nodes (ram s) root \<union> set ps) s s'"

lemma node_nonzero: "pt_wf s root \<Longrightarrow> kmem_inv s fl \<Longrightarrow> q \<in> nodes (ram s) root \<Longrightarrow> q \<noteq> 0"
  using pt_wfD(1) [of s root q] kmem_invD(1) [of s fl] by (auto simp: sole_owner_def page_ok_def)

lemma grown_refl: "pt_wf s root \<Longrightarrow> kmem_inv s fl \<Longrightarrow> grown root s fl s fl []"
  by (simp add: grown_def)

lemma grown_trans:
  assumes "grown root s fl s1 fl1 ps1" and "grown root s1 fl1 s2 fl2 ps2"
  shows "grown root s fl s2 fl2 (ps1 @ ps2)"
proof -
  let ?N = "nodes (ram s) root"
  have "same_outside (?N \<union> set ps1) s s1" "same_outside (?N \<union> set ps1 \<union> set ps2) s1 s2"
    using assms by (simp_all add: grown_def)
  from same_outside_trans [OF this] have "same_outside (?N \<union> set (ps1 @ ps2)) s s2"
    by (rule same_outside_mono) auto
  then show ?thesis using assms by (simp add: grown_def Un_assoc)
qed

lemma grow_step:
  assumes wf: "pt_wf s root" and inv: "kmem_inv s (r # fl)" and p: "p \<in> paths" "length p < 2"
    "node (ram s) root p = Some q" and i: "i < 512" "next_tbl (ram s) q i = None"
  shows "\<exists>s1 s'. kalloc s = Ok (r, s1) \<and> r \<noteq> 0 \<and>
    s' = s1\<lparr>ram := store64 (memset (ram s1) r 0 4096) (q + 8 * i) (PA2PTE r OR PTE_V)\<rparr> \<and>
    grown root s (r # fl) s' fl [r] \<and> pte (ram s') root = pte (ram s) root \<and>
    node (ram s') root (p @ [i]) = Some r"
proof -
  obtain t where t: "kalloc s = Ok (r, t)" "kmem_inv (t\<lparr>ram := memset (ram t) r 0 4096\<rparr>) fl"
      "same_outside {r} s (t\<lparr>ram := memset (ram t) r 0 4096\<rparr>)"
      "sole_owner (t\<lparr>ram := memset (ram t) r 0 4096\<rparr>) r" "r \<noteq> 0"
      "\<And>b. pgno b = pgno r \<Longrightarrow> ram (t\<lparr>ram := memset (ram t) r 0 4096\<rparr>) b = 0"
    using kalloc_zeroed [OF inv] by blast
  define u where "u = t\<lparr>ram := memset (ram t) r 0 4096\<rparr>"
  note u = t(2-4,6) [folded u_def]
  have new: "pgno x \<noteq> pgno r" if "x \<in> nodes (ram s) root" for x
    using owned_not_free [OF inv pt_wfD(1) [OF wf that], of r] by simp
  then have fr: "pgno ` {r} \<inter> pgno ` nodes (ram s) root = {}" by fastforce
  note frame = pt_frame [OF wf u(2) fr]
  have al: "aligned x" if "x \<in> nodes (ram s) root" for x by (rule pt_wfD(2) [OF wf that])
  have same: "ram u b = ram s b" if "x \<in> nodes (ram s) root" "pgno b = pgno x" for x b
    using same_outside_ram [OF u(2), of b] new [OF that(1)] that(2) by simp
  have q: "node (ram u) root p = Some q" using node_cong [OF same al p(1)] p(3) by simp
  have "load64 (ram u) (q + 8 * i) = load64 (ram s) (q + 8 * i)"
    using load64_slot_cong [OF al i(1), of q "ram u" "ram s"] same nodesI [OF p(1,3)] by blast
  then have "can_link u root p q i r"
    using frame(1,2) p q i u(3,4) new by (auto simp: can_link_def next_tbl_def)
  note link = link_table [OF this u(1)]
  define s' where "s' = u\<lparr>ram := store64 (ram u) (q + 8 * i) (PA2PTE r OR PTE_V)\<rparr>"
  have "same_outside ({r} \<union> {q}) s s'"
    unfolding s'_def by (rule same_outside_trans [OF u(2) link(3)])
  then have "same_outside (nodes (ram s) root \<union> set [r]) s s'"
    by (rule same_outside_mono) (use nodesI [OF p(1,3)] in auto)
  with link frame(2) have "grown root s (r # fl) s' fl [r]" by (simp add: grown_def s'_def)
  with t(1,5) link(5,6) frame(3) show ?thesis by (auto simp: s'_def u_def)
qed

lemma walk_loop_alloc:
  assumes "pt_wf s root" and "kmem_inv s fl" and "p \<in> paths" and "length p + l = 2"
    and "node (ram s) root p = Some q"
  shows "\<exists>a s' fl' ps. walk_loop l q va True s = Ok (a, s') \<and> grown root s fl s' fl' ps \<and>
    length ps \<le> l \<and> pte (ram s') root = pte (ram s) root \<and>
    (a = 0 \<longrightarrow> fl' = []) \<and>
    (a \<noteq> 0 \<longrightarrow> (\<exists>r. node (ram s') root (p @ pxs l va) = Some r \<and> a = r + 8 * PX 0 va))"
  using assms
proof (induction l arbitrary: s fl p q)
  case 0
  have "q + 8 * PX 0 va \<noteq> 0"
    using node_nonzero [OF 0(1,2)] nodesI [OF 0(3,5)] pt_wfD(2) [OF 0(1)] slot_nonzero PX_less by blast
  with 0 show ?case by (auto intro: grown_refl)
next
  case (Suc l)
  let ?i = "PX (Suc l) va"
  note wf = pt_wfD [OF Suc.prems(1)] and qnode = nodesI [OF Suc.prems(3,5)]
  have path: "p @ [?i] \<in> paths" using Suc.prems(3,4) by (intro paths_snocI) (auto simp: PX_less)
  show ?case
  proof (cases "next_tbl (ram s) q ?i")
    case (Some r)
    then have r: "node (ram s) root (p @ [?i]) = Some r" using Suc.prems(5) by (simp add: node_snoc)
    from Suc.IH [OF Suc.prems(1,2) path _ r] Suc.prems(4) obtain a s' fl' ps where
      s': "walk_loop l r va True s = Ok (a, s')" "grown root s fl s' fl' ps" "length ps \<le> l"
        "pte (ram s') root = pte (ram s) root"
        "a = 0 \<longrightarrow> fl' = []"
        "a \<noteq> 0 \<longrightarrow> (\<exists>x. node (ram s') root ((p @ [?i]) @ pxs l va) = Some x \<and> a = x + 8 * PX 0 va)"
      by auto
    moreover have "walk_loop (Suc l) q va True s = walk_loop l r va True s"
      using Some by (auto simp: next_tbl_def Let_def split: if_splits)
    ultimately show ?thesis
      by (rule_tac x = a in exI, rule_tac x = s' in exI, rule_tac x = fl' in exI,
          rule_tac x = ps in exI) simp
  next
    case None
    then have inval: "load64 (ram s) (q + 8 * ?i) AND PTE_V = 0"
      by (simp add: next_tbl_def Let_def split: if_splits)
    show ?thesis
    proof (cases fl)
      case Nil
      with Suc.prems inval show ?thesis by (auto simp: kalloc_empty grown_def Let_def)
    next
      case (Cons r fl1)
      obtain s1 s' where s': "kalloc s = Ok (r, s1)" "r \<noteq> 0"
        "s' = s1\<lparr>ram := store64 (memset (ram s1) r 0 4096) (q + 8 * ?i) (PA2PTE r OR PTE_V)\<rparr>"
        "grown root s (r # fl1) s' fl1 [r]" "pte (ram s') root = pte (ram s) root"
        "node (ram s') root (p @ [?i]) = Some r"
        using grow_step [OF Suc.prems(1) Suc.prems(2) [unfolded Cons] Suc.prems(3) _ Suc.prems(5) PX_less None]
          Suc.prems(4) by auto
      have "pt_wf s' root" "kmem_inv s' fl1" using s'(4) by (auto simp: grown_def)
      from Suc.IH [OF this path _ s'(6)] Suc.prems(4) obtain a s2 fl' ps where
        s2: "walk_loop l r va True s' = Ok (a, s2)" "grown root s' fl1 s2 fl' ps" "length ps \<le> l"
          "pte (ram s2) root = pte (ram s') root"
          "a = 0 \<longrightarrow> fl' = []"
          "a \<noteq> 0 \<longrightarrow> (\<exists>x. node (ram s2) root ((p @ [?i]) @ pxs l va) = Some x \<and> a = x + 8 * PX 0 va)"
        by auto
      have "grown root s fl s2 fl' (r # ps)" using grown_trans [OF s'(4) s2(2)] Cons by simp
      with s2 s'(1,2,3,5) inval show ?thesis
        by (rule_tac x = a in exI, rule_tac x = s2 in exI, rule_tac x = fl' in exI,
            rule_tac x = "r # ps" in exI) (simp add: Let_def)
    qed
  qed
qed

end
