(* ===== verification/Addrspace.thy ===== *)
theory Addrspace
  imports Pagetable
begin

text \<open>
  The operations of \<^verbatim>\<open>kernel/vm.c\<close> as updates of the map from virtual pages to leaf
  entries, and what they do to the free list: mapping, unmapping, growing and shrinking a
  process, copying an address space, and freeing a table.
\<close>

section \<open>Mapping\<close>

definition upd_page :: "(u64 \<Rightarrow> u64) \<Rightarrow> u64 \<Rightarrow> u64 \<Rightarrow> u64 \<Rightarrow> u64" where
  "upd_page g va v = (\<lambda>vb. if pgno vb = pgno va then v else g vb)"

definition map_range :: "(u64 \<Rightarrow> u64) \<Rightarrow> nat \<Rightarrow> nat \<Rightarrow> u64 \<Rightarrow> i32 \<Rightarrow> u64 \<Rightarrow> u64" where
  "map_range g k n pa perm = (\<lambda>vb. if k \<le> pgno vb \<and> pgno vb < k + n
     then PA2PTE (pa + of_nat (pgno vb - k) * 4096) OR scast perm OR PTE_V else g vb)"

lemma map_range_0 [simp]: "map_range g k 0 pa perm = g"
  by (rule ext) (auto simp: map_range_def)

lemma map_range_Suc:
  assumes "pgno va = k"
  shows "map_range (upd_page g va (PA2PTE pa OR scast perm OR PTE_V)) (Suc k) n (pa + 4096) perm =
    map_range g k (Suc n) pa perm"
proof
  fix vb
  consider "pgno vb < k" | "pgno vb = k" | d where "pgno vb = Suc (k + d)"
    by (metis less_imp_Suc_add linorder_neqE_nat)
  then show "map_range (upd_page g va (PA2PTE pa OR scast perm OR PTE_V)) (Suc k) n (pa + 4096) perm vb =
      map_range g k (Suc n) pa perm vb"
    using assms by cases (simp_all add: map_range_def upd_page_def algebra_simps)
qed

lemma less_MAXVA_pgno: "va < MAXVA \<longleftrightarrow> pgno va < 67108864"
  by (simp add: word_less_nat_alt pgno_def div_less_iff_less_mult)

lemma leaf_page_iff:
  assumes "va < MAXVA"
  shows "vb < MAXVA \<and> leaf_path vb = leaf_path va \<and> PX 0 vb = PX 0 va \<longleftrightarrow> pgno vb = pgno va"
  using PX_eq_iff [OF _ assms, of vb] assms
  by (auto simp: leaf_path_def less_MAXVA_pgno)

lemma walk_alloc:
  assumes "pt_wf s root" and "kmem_inv s fl" and "va < MAXVA"
  shows "\<exists>a s' fl' ps. walk root va True s = Ok (a, s') \<and> grown root s fl s' fl' ps \<and>
    length ps \<le> 2 \<and> pte (ram s') root = pte (ram s) root \<and>
    (a = 0 \<longrightarrow> fl' = []) \<and>
    (a \<noteq> 0 \<longrightarrow> (\<exists>r. node (ram s') root (leaf_path va) = Some r \<and> a = r + 8 * PX 0 va))"
proof -
  have "walk root va True s = walk_loop 2 root va True s" using assms(3) by (simp add: walk_def flip: not_le)
  then show ?thesis using walk_loop_alloc [OF assms(1,2), of "[]" 2 root va] by (simp add: pxs_2)
qed

lemma set_leaf:
  assumes g: "grown root s fl s' fl' ps" and va: "va < MAXVA"
    and r: "node (ram s') root (leaf_path va) = Some r" "a = r + 8 * PX 0 va"
  shows "load64 (ram s') a = pte (ram s') root va"
    and "grown root s fl (s'\<lparr>ram := store64 (ram s') a v\<rparr>) fl' ps"
    and "pte (store64 (ram s') a v) root = upd_page (pte (ram s') root) va v"
proof -
  have s': "pt_wf s' root" "kmem_inv s' fl'" using g by (auto simp: grown_def)
  note leaf = store_leaf [OF s' leaf_path_paths length_leaf_path r(1) PX_less [of 0 va], where v = v, folded r(2)]
  show "load64 (ram s') a = pte (ram s') root va" using va r by (simp add: pte_def not_le [symmetric])
  show "pte (store64 (ram s') a v) root = upd_page (pte (ram s') root) va v"
    using leaf(6) leaf_page_iff [OF va] by (auto simp: upd_page_def)
  have "r \<in> nodes (ram s) root \<union> set ps"
    using nodesI [OF leaf_path_paths r(1)] g by (auto simp: grown_def)
  moreover have "same_outside (nodes (ram s) root \<union> set ps) s s'" using g by (simp add: grown_def)
  note same_outside_trans [OF this leaf(3)]
  ultimately have "same_outside (nodes (ram s) root \<union> set ps) s (s'\<lparr>ram := store64 (ram s') a v\<rparr>)"
    by (rule_tac same_outside_mono) auto
  then show "grown root s fl (s'\<lparr>ram := store64 (ram s') a v\<rparr>) fl' ps"
    using g leaf(1,2,4) by (simp add: grown_def)
qed

lemma map_step:
  assumes wf: "pt_wf s root" and inv: "kmem_inv s fl" and va: "va < MAXVA"
    and free: "pte (ram s) root va AND PTE_V = 0"
  obtains (oom) s' ps where "walk root va True s = Ok (0, s')" "grown root s fl s' [] ps"
      "length ps \<le> 2" "pte (ram s') root = pte (ram s) root"
    | (entry) a s1 fl' ps where "walk root va True s = Ok (a, s1)" "a \<noteq> 0"
      "load64 (ram s1) a AND PTE_V = 0" "length ps \<le> 2"
      "\<And>v. grown root s fl (s1\<lparr>ram := store64 (ram s1) a v\<rparr>) fl' ps"
      "\<And>v. pte (store64 (ram s1) a v) root = upd_page (pte (ram s) root) va v"
proof -
  obtain a s1 fl' ps where w: "walk root va True s = Ok (a, s1)" "grown root s fl s1 fl' ps"
      "length ps \<le> 2" "pte (ram s1) root = pte (ram s) root" "a = 0 \<longrightarrow> fl' = []"
      "a \<noteq> 0 \<longrightarrow> (\<exists>r. node (ram s1) root (leaf_path va) = Some r \<and> a = r + 8 * PX 0 va)"
    using walk_alloc [OF wf inv va] by blast
  show thesis
  proof (cases "a = 0")
    case True
    with w show ?thesis using oom [of s1 ps] by simp
  next
    case False
    with w obtain r where r: "node (ram s1) root (leaf_path va) = Some r" "a = r + 8 * PX 0 va" by blast
    note leaf = set_leaf [OF w(2) va r]
    from entry [OF w(1) False _ w(3) leaf(2)] leaf(1,3) w(4) free show ?thesis by simp
  qed
qed

lemma of_nat_pages_nonzero: "0 < n \<Longrightarrow> n < 67108864 \<Longrightarrow> (of_nat n * 4096 :: u64) \<noteq> 0"
proof -
  assume n: "0 < n" "n < 67108864"
  then have "unat (of_nat (n * 4096) :: u64) = n * 4096" by (intro unat_of_nat_64) simp
  then have "of_nat (n * 4096) \<noteq> (0 :: u64)" using n(1) by (auto simp del: of_nat_mult)
  then show ?thesis by simp
qed

lemma mappages_loop_maps:
  assumes "pt_wf s root" and "kmem_inv s fl" and "aligned va" and "pgno va + n < 67108864"
    and "lst = va + of_nat n * 4096"
    and "\<And>vb. pgno va \<le> pgno vb \<Longrightarrow> pgno vb \<le> pgno va + n \<Longrightarrow> pte (ram s) root vb AND PTE_V = 0"
  shows "\<exists>j s' fl' ps. j \<le> Suc n \<and>
    mappages_loop root va lst pa perm s = Ok (if j = Suc n then 0 else -1, s') \<and>
    grown root s fl s' fl' ps \<and> length ps \<le> 2 * Suc n \<and> (j \<le> n \<longrightarrow> fl' = []) \<and>
    pte (ram s') root = map_range (pte (ram s) root) (pgno va) j pa perm"
  using assms
proof (induction n arbitrary: s fl va pa)
  case 0
  have va: "va < MAXVA" using 0(4) by (simp add: less_MAXVA_pgno)
  show ?case
  proof (rule map_step [OF 0(1,2) va 0(6)])
    fix s' ps
    assume "walk root va True s = Ok (0, s')" "grown root s fl s' [] ps"
      "length ps \<le> 2" "pte (ram s') root = pte (ram s) root"
    then show ?thesis
      by (intro exI [of _ 0] exI [of _ s'] exI [of _ "[]"] exI [of _ ps])
        (simp add: mappages_loop.simps [of _ va])
  next
    fix a s1 fl' ps
    assume w: "walk root va True s = Ok (a, s1)" "a \<noteq> 0" "load64 (ram s1) a AND PTE_V = 0" "length ps \<le> 2"
      and g: "\<And>v. grown root s fl (s1\<lparr>ram := store64 (ram s1) a v\<rparr>) fl' ps"
      and e: "\<And>v. pte (store64 (ram s1) a v) root = upd_page (pte (ram s) root) va v"
    let ?s = "s1\<lparr>ram := store64 (ram s1) a (PA2PTE pa OR scast perm OR PTE_V)\<rparr>"
    have "mappages_loop root va lst pa perm s = Ok (0, ?s)"
      using w 0(5) by (simp add: mappages_loop.simps [of _ va] Let_def)
    moreover have "pte (ram ?s) root = map_range (pte (ram s) root) (pgno va) 1 pa perm"
      using e map_range_Suc [OF refl, of "pte (ram s) root" va pa perm 0] by simp
    ultimately show ?thesis using g w(4)
      by (rule_tac x = 1 in exI, rule_tac x = ?s in exI, rule_tac x = fl' in exI,
          rule_tac x = ps in exI) simp
  qed simp_all
next
  case (Suc n)
  have va: "va < MAXVA" using Suc.prems(4) by (simp add: less_MAXVA_pgno)
  have next_page: "aligned (va + 4096)" "pgno (va + 4096) = Suc (pgno va)"
    using Suc.prems(3) va by (auto simp: aligned_add_page pgno_def unat_add_page)
  show ?case
  proof (rule map_step [OF Suc.prems(1,2) va Suc.prems(6)])
    fix s' ps
    assume "walk root va True s = Ok (0, s')" "grown root s fl s' [] ps"
      "length ps \<le> 2" "pte (ram s') root = pte (ram s) root"
    then show ?thesis
      by (intro exI [of _ 0] exI [of _ s'] exI [of _ "[]"] exI [of _ ps])
        (simp add: mappages_loop.simps [of _ va])
  next
    fix a s1 fl' ps
    assume w: "walk root va True s = Ok (a, s1)" "a \<noteq> 0" "load64 (ram s1) a AND PTE_V = 0" "length ps \<le> 2"
      and g: "\<And>v. grown root s fl (s1\<lparr>ram := store64 (ram s1) a v\<rparr>) fl' ps"
      and e: "\<And>v. pte (store64 (ram s1) a v) root = upd_page (pte (ram s) root) va v"
    let ?v = "PA2PTE pa OR scast perm OR PTE_V"
    let ?s = "s1\<lparr>ram := store64 (ram s1) a ?v\<rparr>"
    have "va \<noteq> lst" using of_nat_pages_nonzero [of "Suc n"] Suc.prems(4,5) by auto
    then have loop: "mappages_loop root va lst pa perm s = mappages_loop root (va + 4096) lst (pa + 4096) perm ?s"
      using w by (simp add: mappages_loop.simps [of _ va] Let_def)
    have "pt_wf ?s root" "kmem_inv ?s fl'" using g [of ?v] by (auto simp: grown_def)
    moreover have "pte (ram ?s) root vb AND PTE_V = 0"
      if "pgno (va + 4096) \<le> pgno vb" "pgno vb \<le> pgno (va + 4096) + n" for vb
      using that next_page(2) Suc.prems(6) [of vb] e [of ?v] by (simp add: upd_page_def)
    ultimately obtain j s' fl'' ps' where IH: "j \<le> Suc n"
      "mappages_loop root (va + 4096) lst (pa + 4096) perm ?s = Ok (if j = Suc n then 0 else -1, s')"
      "grown root ?s fl' s' fl'' ps'" "length ps' \<le> 2 * Suc n" "j \<le> n \<longrightarrow> fl'' = []"
      "pte (ram s') root = map_range (pte (ram ?s) root) (pgno (va + 4096)) j (pa + 4096) perm"
      using Suc.IH [of ?s fl' "va + 4096" "pa + 4096"] next_page Suc.prems(4,5)
      by (auto simp: algebra_simps)
    have "pte (ram s') root = map_range (pte (ram s) root) (pgno va) (Suc j) pa perm"
      using IH(6) e [of ?v] map_range_Suc [OF refl] by (simp add: next_page)
    moreover have "grown root s fl s' fl'' (ps @ ps')" by (rule grown_trans [OF g IH(3)])
    ultimately show ?thesis using IH w(4) loop
      by (rule_tac x = "Suc j" in exI, rule_tac x = s' in exI, rule_tac x = fl'' in exI,
          rule_tac x = "ps @ ps'" in exI) simp
  qed simp_all
qed

section \<open>Unmapping\<close>

definition vpage :: "nat \<Rightarrow> u64" where
  "vpage k = of_nat (4096 * k)"

lemma unat_vpage: "k < 67108864 \<Longrightarrow> unat (vpage k) = 4096 * k"
  unfolding vpage_def by (rule unat_of_nat_64) simp

lemma pgno_vpage [simp]: "k < 67108864 \<Longrightarrow> pgno (vpage k) = k"
  by (simp add: pgno_def unat_vpage)

lemma aligned_vpage [simp]: "k < 67108864 \<Longrightarrow> aligned (vpage k)"
  by (simp add: aligned_unat unat_vpage)

lemma vpage_less_MAXVA [simp]: "k < 67108864 \<Longrightarrow> vpage k < MAXVA"
  by (simp add: less_MAXVA_pgno)

lemma vpage_Suc: "vpage k + 4096 = vpage (Suc k)"
  by (simp add: vpage_def algebra_simps)

lemma vpage_less: "j < 67108864 \<Longrightarrow> k < 67108864 \<Longrightarrow> vpage j < vpage k \<longleftrightarrow> j < k"
  by (simp add: word_less_nat_alt unat_vpage)

text \<open>The physical pages mapped by the valid entries among \<open>n\<close> pages from page number \<open>k\<close>.\<close>

definition leaf_pages :: "(u64 \<Rightarrow> u64) \<Rightarrow> nat \<Rightarrow> nat \<Rightarrow> u64 list" where
  "leaf_pages g k n = map (\<lambda>j. PTE2PA (g (vpage j))) (filter (\<lambda>j. g (vpage j) AND PTE_V \<noteq> 0) [k..<k + n])"

definition unmap_range :: "(u64 \<Rightarrow> u64) \<Rightarrow> nat \<Rightarrow> nat \<Rightarrow> u64 \<Rightarrow> u64" where
  "unmap_range g k n = (\<lambda>vb. if k \<le> pgno vb \<and> pgno vb < k + n \<and> g vb AND PTE_V \<noteq> 0 then 0 else g vb)"

text \<open>Pages a table may release: owned by it alone and not page-table pages.\<close>

definition releasable :: "'a kmem_state_scheme \<Rightarrow> u64 \<Rightarrow> u64 list \<Rightarrow> bool" where
  "releasable s root ps \<longleftrightarrow> distinct ps \<and> (\<forall>p \<in> set ps. sole_owner s p \<and> p \<notin> nodes (ram s) root)"

text \<open>The pages \<open>ps\<close> were given back and nothing outside them and the table changed.\<close>

definition shrunk :: "u64 \<Rightarrow> 'a kmem_state_scheme \<Rightarrow> u64 list \<Rightarrow> 'a kmem_state_scheme \<Rightarrow> u64 list \<Rightarrow> bool" where
  "shrunk root s fl s' ps \<longleftrightarrow>
     kmem_inv s' (rev ps @ fl) \<and> pt_wf s' root \<and> nodes (ram s') root = nodes (ram s) root \<and>
     same_outside (nodes (ram s) root \<union> set ps) s s'"

lemma pte_page: "va < MAXVA \<Longrightarrow> pgno vb = pgno va \<Longrightarrow> pte m root vb = pte m root va"
  using leaf_page_iff [of va vb] by (auto simp: pte_def split: option.splits)

lemma leaf_pages_Suc:
  "leaf_pages g k (Suc n) =
    (if g (vpage k) AND PTE_V \<noteq> 0 then [PTE2PA (g (vpage k))] else []) @ leaf_pages g (Suc k) n"
  by (simp add: leaf_pages_def upt_conv_Cons del: upt_Suc)

lemma leaf_pages_cong:
  "(\<And>j. k \<le> j \<Longrightarrow> j < k + n \<Longrightarrow> g (vpage j) = h (vpage j)) \<Longrightarrow> leaf_pages g k n = leaf_pages h k n"
  by (auto simp: leaf_pages_def intro!: map_cong filter_cong)

lemma shrunk_refl: "kmem_inv s fl \<Longrightarrow> pt_wf s root \<Longrightarrow> shrunk root s fl s []"
  by (simp add: shrunk_def)

lemma shrunk_trans:
  assumes "shrunk root s fl s1 ps" and "shrunk root s1 (rev ps @ fl) s2 qs"
  shows "shrunk root s fl s2 (ps @ qs)"
proof -
  let ?N = "nodes (ram s) root"
  have "same_outside (?N \<union> set ps) s s1" "same_outside (?N \<union> set qs) s1 s2"
    using assms by (simp_all add: shrunk_def)
  from same_outside_trans [OF this] have "same_outside (?N \<union> set (ps @ qs)) s s2"
    by (rule same_outside_mono) auto
  then show ?thesis using assms by (simp add: shrunk_def)
qed

lemma kfree_shrinks:
  assumes wf: "pt_wf s root" and inv: "kmem_inv s fl" and p: "sole_owner s p" "p \<notin> nodes (ram s) root"
  shows "\<exists>s'. kfree p s = Ok s' \<and> shrunk root s fl s' [p] \<and> same_outside {p} s s' \<and>
    (\<forall>q \<in> paths. node (ram s') root q = node (ram s) root q) \<and> pte (ram s') root = pte (ram s) root"
proof -
  have ok: "page_ok (kend s) p" "refcount s (pgno p) = 1" "aligned p"
    using p(1) by (auto simp: sole_owner_def page_ok_def)
  note k = kfree_last [OF inv ok(1,2)]
  define s' where "s' = s\<lparr>refcount := (refcount s)(pgno p := 0),
    ram := store64 (memset (ram s) p 1 4096) p (freelist s), freelist := p\<rparr>"
  have same: "same_outside {p} s s'"
    using ok(3) by (auto simp: same_outside_def s'_def memset_page_apply store64_other_page)
  have disj: "pgno ` {p} \<inter> pgno ` nodes (ram s) root = {}"
    using p sole_owner_pgno [OF p(1) pt_wfD(1) [OF wf]] by auto
  note frame = pt_frame [OF wf same disj]
  have "node (ram s') root q = node (ram s) root q" if "q \<in> paths" for q
  proof (rule node_cong [OF _ pt_wfD(2) [OF wf] that])
    fix x b assume "x \<in> nodes (ram s) root" "pgno b = pgno x"
    then show "ram s' b = ram s b" using disj by (intro same_outside_ram [OF same]) force
  qed
  moreover have "same_outside (nodes (ram s) root \<union> set [p]) s s'"
    by (rule same_outside_mono [OF same]) auto
  ultimately show ?thesis
    using k frame same by (auto simp: shrunk_def simp flip: s'_def)
qed

lemma clear_leaf:
  assumes wf: "pt_wf s root" and inv: "kmem_inv s fl" and va: "va < MAXVA"
    and r: "node (ram s) root (leaf_path va) = Some r" and a: "a = r + 8 * PX 0 va"
  shows "shrunk root s fl (s\<lparr>ram := store64 (ram s) a 0\<rparr>) []"
    and "pte (store64 (ram s) a 0) root = upd_page (pte (ram s) root) va 0"
  using set_leaf(2,3) [OF grown_refl [OF wf inv] va r a, where v = 0]
  by (auto simp: grown_def shrunk_def)

lemma walk_find:
  assumes wf: "pt_wf s root" and inv: "kmem_inv s fl" and va: "va < MAXVA"
  obtains (none) "walk root va False s = Ok (0, s)" "pte (ram s) root va = 0"
    "node (ram s) root (leaf_path va) = None"
  | (some) r where "walk root va False s = Ok (r + 8 * PX 0 va, s)" "r + 8 * PX 0 va \<noteq> 0"
      "node (ram s) root (leaf_path va) = Some r" "load64 (ram s) (r + 8 * PX 0 va) = pte (ram s) root va"
proof (cases "node (ram s) root (leaf_path va)")
  case None
  then show ?thesis using walk_lookup [OF va, of root s] by (intro none) (simp_all add: pte_def)
next
  case (Some r)
  have "r \<in> nodes (ram s) root" by (rule nodesI [OF leaf_path_paths Some])
  then have "r + 8 * PX 0 va \<noteq> 0"
    using slot_nonzero PX_less pt_wfD(2) [OF wf] node_nonzero [OF wf inv] by blast
  then show ?thesis using Some walk_lookup [OF va, of root s] va
    by (intro some) (simp_all add: pte_def flip: not_le)
qed

lemma unmap_page:
  fixes s :: "'a kmem_state_scheme" and k root do_free
  assumes wf: "pt_wf s root" and inv: "kmem_inv s fl" and k: "k < 67108864" "vpage k < lim"
    and v: "pte (ram s) root (vpage k) AND PTE_V \<noteq> 0" "PTE_FLAGS (pte (ram s) root (vpage k)) \<noteq> PTE_V"
  defines "p \<equiv> PTE2PA (pte (ram s) root (vpage k))"
  assumes p: "do_free \<Longrightarrow> sole_owner s p \<and> p \<notin> nodes (ram s) root"
  shows "\<exists>s'. uvmunmap_loop root (vpage k) lim do_free s = uvmunmap_loop root (vpage (Suc k)) lim do_free s' \<and>
    shrunk root s fl s' (if do_free then [p] else []) \<and>
    pte (ram s') root = upd_page (pte (ram s) root) (vpage k) 0"
proof (rule walk_find [OF wf inv vpage_less_MAXVA [OF k(1)]])
  fix r
  assume w: "walk root (vpage k) False s = Ok (r + 8 * PX 0 (vpage k), s)" "r + 8 * PX 0 (vpage k) \<noteq> 0"
    "node (ram s) root (leaf_path (vpage k)) = Some r"
    "load64 (ram s) (r + 8 * PX 0 (vpage k)) = pte (ram s) root (vpage k)"
  let ?a = "r + 8 * PX 0 (vpage k)"
  obtain s1 where s1: "(if do_free then kfree p s else Ok s) = Ok s1"
    "shrunk root s fl s1 (if do_free then [p] else [])"
    "node (ram s1) root (leaf_path (vpage k)) = Some r" "pte (ram s1) root = pte (ram s) root"
    using kfree_shrinks [OF wf inv, of p] p w(3) shrunk_refl [OF inv wf] by (cases do_free) auto
  let ?s = "s1\<lparr>ram := store64 (ram s1) ?a 0\<rparr>"
  have "pt_wf s1 root" "kmem_inv s1 (rev (if do_free then [p] else []) @ fl)"
    using s1(2) by (simp_all add: shrunk_def)
  note clear = clear_leaf [OF this vpage_less_MAXVA [OF k(1)] s1(3) refl]
  have "shrunk root s fl ?s (if do_free then [p] else [])"
    using shrunk_trans [OF s1(2) clear(1)] by simp
  moreover have "uvmunmap_loop root (vpage k) lim do_free s = uvmunmap_loop root (vpage (Suc k)) lim do_free ?s"
    using w k(2) v s1(1)
    by (cases do_free) (simp_all add: uvmunmap_loop.simps [of _ "vpage k"] vpage_Suc Let_def p_def)
  ultimately show ?thesis using clear(2) s1(4) by auto
qed (use v in auto)

lemma unmap_skip:
  assumes wf: "pt_wf s root" and inv: "kmem_inv s fl" and k: "k < 67108864" "vpage k < lim"
    and v: "pte (ram s) root (vpage k) AND PTE_V = 0"
  shows "uvmunmap_loop root (vpage k) lim do_free s = uvmunmap_loop root (vpage (Suc k)) lim do_free s"
  by (rule walk_find [OF wf inv vpage_less_MAXVA [OF k(1)]])
    (use v k in \<open>simp_all add: uvmunmap_loop.simps [of _ "vpage k"] vpage_Suc Let_def\<close>)

lemma unmap_range_0 [simp]: "unmap_range g k 0 = g"
  by (rule ext) (auto simp: unmap_range_def)

lemma unmap_range_Suc:
  assumes "k < 67108864" and g: "\<And>vb. pgno vb = k \<Longrightarrow> g vb = g (vpage k)"
  shows "unmap_range g k (Suc n) =
    unmap_range (if g (vpage k) AND PTE_V \<noteq> 0 then upd_page g (vpage k) 0 else g) (Suc k) n"
proof
  fix vb
  show "unmap_range g k (Suc n) vb =
    unmap_range (if g (vpage k) AND PTE_V \<noteq> 0 then upd_page g (vpage k) 0 else g) (Suc k) n vb"
    using g [of vb] assms(1)
    by (cases "pgno vb = k") (auto simp: unmap_range_def upd_page_def)
qed

lemma releasable_shrunk:
  assumes "releasable s root (ps @ qs)" and "shrunk root s fl s' ps"
    and wf: "pt_wf s root"
  shows "releasable s' root qs"
proof -
  have same: "same_outside (nodes (ram s) root \<union> set ps) s s'" using assms(2) by (simp add: shrunk_def)
  have "sole_owner s' q" if q: "q \<in> set qs" for q
  proof -
    have own: "sole_owner s q" "q \<notin> nodes (ram s) root" "q \<notin> set ps"
      using assms(1) q by (auto simp: releasable_def)
    have "pgno q \<noteq> pgno x" if "x \<in> nodes (ram s) root \<union> set ps" for x
      using that own pt_wfD(1) [OF wf] assms(1) sole_owner_pgno [OF own(1)]
      by (auto simp: releasable_def)
    then have "pgno q \<notin> pgno ` (nodes (ram s) root \<union> set ps)" by blast
    with same own(1) show ?thesis by (simp add: sole_owner_def same_outside_def)
  qed
  with assms show ?thesis by (auto simp: releasable_def shrunk_def)
qed

lemma uvmunmap_loop_unmaps:
  assumes "pt_wf s root" and "kmem_inv s fl" and "k + n < 67108864" and "lim = vpage (k + n)"
    and "\<And>j. k \<le> j \<Longrightarrow> j < k + n \<Longrightarrow> PTE_FLAGS (pte (ram s) root (vpage j)) \<noteq> PTE_V"
    and "do_free \<Longrightarrow> releasable s root (leaf_pages (pte (ram s) root) k n)"
  shows "\<exists>s'. uvmunmap_loop root (vpage k) lim do_free s = Ok s' \<and>
    shrunk root s fl s' (if do_free then leaf_pages (pte (ram s) root) k n else []) \<and>
    pte (ram s') root = unmap_range (pte (ram s) root) k n"
  using assms
proof (induction n arbitrary: s fl k)
  case 0
  then show ?case
    by (simp add: uvmunmap_loop.simps leaf_pages_def shrunk_refl)
next
  case (Suc n)
  let ?g = "pte (ram s) root"
  have k: "k < 67108864" "vpage k < lim" using Suc.prems(3,4) by (simp_all add: vpage_less)
  have page: "\<And>vb. pgno vb = k \<Longrightarrow> ?g vb = ?g (vpage k)" using pte_page k(1) by simp
  note split = unmap_range_Suc [where g = ?g and n = n, OF k(1) page] leaf_pages_Suc [of ?g k n]
  show ?case
  proof (cases "?g (vpage k) AND PTE_V = 0")
    case True
    with Suc.IH [OF Suc.prems(1,2), of "Suc k"] Suc.prems(3-6) unmap_skip [OF Suc.prems(1,2) k True] split
    show ?thesis by (cases do_free) simp_all
  next
    case False
    let ?p = "PTE2PA (?g (vpage k))"
    let ?ps = "if do_free then [?p] else []"
    have p: "do_free \<Longrightarrow> sole_owner s ?p \<and> ?p \<notin> nodes (ram s) root"
      using Suc.prems(6) False split(2) by (simp add: releasable_def)
    obtain s1 where s1: "uvmunmap_loop root (vpage k) lim do_free s = uvmunmap_loop root (vpage (Suc k)) lim do_free s1"
      "shrunk root s fl s1 ?ps" "pte (ram s1) root = upd_page ?g (vpage k) 0"
      using unmap_page [OF Suc.prems(1,2) k False Suc.prems(5) p] by auto
    have later: "pte (ram s1) root (vpage j) = ?g (vpage j)" if "Suc k \<le> j" "j < Suc k + n" for j
      using that Suc.prems(3) s1(3) k(1) by (simp add: upd_page_def)
    then have pages: "leaf_pages (pte (ram s1) root) (Suc k) n = leaf_pages ?g (Suc k) n"
      by (rule leaf_pages_cong)
    have "do_free \<Longrightarrow> releasable s1 root (leaf_pages ?g (Suc k) n)"
      using releasable_shrunk [OF _ s1(2) Suc.prems(1)] Suc.prems(6) split(2) False by simp
    moreover have "pt_wf s1 root" "kmem_inv s1 (rev ?ps @ fl)" using s1(2) by (simp_all add: shrunk_def)
    ultimately obtain s' where s': "uvmunmap_loop root (vpage (Suc k)) lim do_free s1 = Ok s'"
      "shrunk root s1 (rev ?ps @ fl) s' (if do_free then leaf_pages ?g (Suc k) n else [])"
      "pte (ram s') root = unmap_range (pte (ram s1) root) (Suc k) n"
      using Suc.IH [of s1 "rev ?ps @ fl" "Suc k", unfolded pages] Suc.prems(3-5) later by auto
    from shrunk_trans [OF s1(2) s'(2)] s' s1 split False show ?thesis by auto
  qed
qed

section \<open>Empty tables\<close>

lemma empty_table:
  assumes own: "sole_owner s root" and zero: "\<And>b. pgno b = pgno root \<Longrightarrow> ram s b = 0"
  shows "pt_wf s root" and "nodes (ram s) root = {root}" and "pte (ram s) root = (\<lambda>_. 0)"
proof -
  have "next_tbl (ram s) root i = None" if "i < 512" for i
    using load64_zero_page [OF sole_owner_aligned [OF own] that zero] by (simp add: next_tbl_def)
  then have node: "node (ram s) root p = (if p = [] then Some root else None)" if "p \<in> paths" for p
    using that by (cases p) (auto simp: paths_def)
  then show nodes: "nodes (ram s) root = {root}" by (auto simp: nodes_def split: if_splits)
  have "leaf_path va \<noteq> []" for va by (simp add: leaf_path_def)
  then show "pte (ram s) root = (\<lambda>_. 0)"
    by (intro ext) (simp add: pte_def node)
  show "pt_wf s root"
    unfolding pt_wf_def nodes
    using own node load64_zero_page [OF sole_owner_aligned [OF own] _ zero]
    by (auto split: if_splits)
qed

text \<open>
  A machine with three pages above the kernel: an empty page table and two free pages, for the
  witnesses.
\<close>

definition three_pages :: kmem_state where
  "three_pages = \<lparr>kend = 0x87ffd000, ram = store64 (\<lambda>_. 0) 0x87ffd000 0x87ffe000,
     freelist = 0x87ffd000, refcount = (\<lambda>n. if n = pgno 0x87fff000 then 1 else 0)\<rparr>"

lemma page_ok_three: "page_ok 0x87ffd000 p \<longleftrightarrow> p \<in> {0x87ffd000, 0x87ffe000, 0x87fff000}"
proof
  assume ok: "page_ok 0x87ffd000 p"
  then obtain k where k: "unat p = 4096 * k" by (auto simp: page_ok_def elim: alignedE)
  with ok have "557053 \<le> k" "k < 557056"
    by (auto simp: page_ok_def word_le_nat_alt word_less_nat_alt)
  then have "k \<in> {557053, 557054, 557055}" by auto
  with k show "p \<in> {0x87ffd000, 0x87ffe000, 0x87fff000}" by (auto simp: word_unat_eq_iff)
qed (auto simp: page_ok_def aligned_unat)

lemma three_pages_ok:
  "kmem_inv three_pages [0x87ffd000, 0x87ffe000]" "sole_owner three_pages 0x87fff000"
  "\<And>b. pgno b = pgno 0x87fff000 \<Longrightarrow> ram three_pages b = 0"
proof -
  have "load64 (store64 (\<lambda>_. 0) 0x87ffd000 0x87ffe000) 0x87ffe000 = 0"
    by (subst load64_store64_disjoint) (auto simp: cell64_expand load64_def bytes8_def le_cons_def)
  then show "kmem_inv three_pages [0x87ffd000, 0x87ffe000]"
    by (auto simp: kmem_inv_def kmem_inv_on_def three_pages_def page_ok_three pgno_def)
  show "sole_owner three_pages 0x87fff000"
    by (simp add: sole_owner_def three_pages_def page_ok_three)
  show "ram three_pages b = 0" if "pgno b = pgno 0x87fff000" for b
  proof -
    have "store64 (\<lambda>_. 0) 0x87ffd000 0x87ffe000 b = 0"
      by (subst store64_other_page) (use that in \<open>auto simp: aligned_unat pgno_def\<close>)
    then show ?thesis by (simp add: three_pages_def)
  qed
qed

section \<open>Properties\<close>

lemma page_range:
  fixes va sz :: u64
  assumes range: "0 < sz" "unat va + unat sz \<le> unat MAXVA"
  obtains n where "pgno (va + sz - 1) = pgno va + n" "pgno va + n < 67108864"
    "PGROUNDDOWN (va + sz - 1) = PGROUNDDOWN va + of_nat n * 4096"
proof
  let ?e = "va + sz - 1"
  let ?n = "pgno ?e - pgno va"
  have sum: "unat (va + sz) = unat va + unat sz"
    using range(2) by (subst unat_add_lem [THEN iffD1]) simp_all
  have sz: "0 < unat sz" using range(1) by (simp add: word_less_nat_alt)
  then have "1 \<le> va + sz" using sum by (simp add: word_le_nat_alt)
  then have e: "unat ?e = unat va + unat sz - 1" using sum by (simp add: unat_sub)
  have le: "pgno va \<le> pgno ?e" unfolding pgno_def by (rule div_le_mono) (use e sz in simp)
  then show n: "pgno ?e = pgno va + ?n" by simp
  have "unat ?e < 67108864 * 4096" using e sz range(2) by simp
  then have "pgno ?e < 67108864" by (simp add: pgno_def div_less_iff_less_mult)
  then show hi: "pgno va + ?n < 67108864" using n by simp
  have "unat (PGROUNDDOWN va + of_nat (?n * 4096)) = 4096 * pgno va + ?n * 4096"
    using hi by (subst unat_add_of_nat) (simp_all add: unat_PGROUNDDOWN)
  moreover have "4096 * pgno va + ?n * 4096 = 4096 * pgno ?e" using n by linarith
  ultimately have "unat (PGROUNDDOWN va + of_nat (?n * 4096)) = unat (PGROUNDDOWN ?e)"
    by (simp add: unat_PGROUNDDOWN)
  then show "PGROUNDDOWN ?e = PGROUNDDOWN va + of_nat ?n * 4096"
    by (simp add: word_unat_eq_iff)
qed

text \<open>
  C2: \<^verbatim>\<open>mappages\<close> on a well-formed table whose range is unmapped and lies below
  \<^verbatim>\<open>MAXVA\<close>: it returns 0 after entering the consecutive physical pages from \<open>pa\<close>, with
  the given permissions, for exactly the pages that meet the range, or -1 when the free list ran
  empty, with a prefix of the pages entered.  The table stays well formed, every page it took
  from the free list is now a page-table page, and nothing outside the table changes.
\<close>

theorem mappages_maps:
  fixes s :: "'a kmem_state_scheme"
  assumes wf: "pt_wf s root" and inv: "kmem_inv s fl"
    and range: "0 < sz" "unat va + unat sz \<le> unat MAXVA"
    and free: "\<And>vb. pgno va \<le> pgno vb \<Longrightarrow> pgno vb \<le> pgno (va + sz - 1) \<Longrightarrow>
      pte (ram s) root vb AND PTE_V = 0"
  shows "\<exists>j s' fl' ps. j \<le> pgno (va + sz - 1) - pgno va + 1 \<and>
    mappages root va sz pa perm s =
      Ok (if j = pgno (va + sz - 1) - pgno va + 1 then 0 else -1, s') \<and>
    grown root s fl s' fl' ps \<and> length ps \<le> 2 * (pgno (va + sz - 1) - pgno va + 1) \<and>
    (j \<le> pgno (va + sz - 1) - pgno va \<longrightarrow> fl' = []) \<and>
    pte (ram s') root = map_range (pte (ram s) root) (pgno va) j pa perm"
proof -
  obtain n where n: "pgno (va + sz - 1) = pgno va + n" "pgno va + n < 67108864"
    "PGROUNDDOWN (va + sz - 1) = PGROUNDDOWN va + of_nat n * 4096"
    by (rule page_range [OF range])
  have "mappages root va sz pa perm s =
      mappages_loop root (PGROUNDDOWN va) (PGROUNDDOWN (va + sz - 1)) pa perm s"
    using range(1) by (auto simp: mappages_def)
  then show ?thesis
    using mappages_loop_maps [OF wf inv aligned_PGROUNDDOWN _ n(3), of pa perm] n(2) free
    by (simp add: n(1))
qed

theorem mappages_maps_witness:
  "\<exists>j s' fl' ps. mappages 0x87fff000 0 4096 0x87ffe000 6 three_pages = Ok (if j = 1 then 0 else -1, s') \<and>
    grown 0x87fff000 three_pages [0x87ffd000, 0x87ffe000] s' fl' ps \<and>
    pte (ram s') 0x87fff000 = map_range (\<lambda>_. 0) 0 j 0x87ffe000 6"
proof -
  note t = empty_table [OF three_pages_ok(2,3)]
  have pg: "pgno 4095 = 0" "pgno 0 = 0" by (simp_all add: pgno_def)
  from mappages_maps [OF t(1) three_pages_ok(1), of 4096 0 "0x87ffe000" 6] obtain j s' fl' ps where
    "mappages 0x87fff000 0 4096 0x87ffe000 6 three_pages = Ok (if j = 1 then 0 else -1, s')"
    "grown 0x87fff000 three_pages [0x87ffd000, 0x87ffe000] s' fl' ps"
    "pte (ram s') 0x87fff000 = map_range (\<lambda>_. 0) 0 j 0x87ffe000 6"
    by (auto simp: pg t(3))
  then show ?thesis by blast
qed



end
