(* ===== verification/Copyuser.thy ===== *)
theory Copyuser
  imports Addrspace Spinlock
begin

text \<open>
  Copies between kernel buffers and user memory (\<^verbatim>\<open>copyout\<close>, \<^verbatim>\<open>copyin\<close>,
  \<^verbatim>\<open>copyinstr\<close> of \<^verbatim>\<open>kernel/vm.c\<close>), on user ranges that are mapped: the page-wise
  loops move exactly the bytes of the virtual range.
\<close>

section \<open>Copy loops\<close>

lemma move_obj_to_word:
  fixes m :: mem
  assumes "n \<le> 18446744073709551616"
  shows "move_obj m d src k n b = (if unat (b - d) < n then src (k + unat (b - d)) else m b)"
  using assms
proof (induction n arbitrary: m d k)
  case (Suc n)
  have IH: "move_obj (m(d := src k)) (d + 1) src (k + 1) n b =
      (if unat (b - (d + 1)) < n then src (k + 1 + unat (b - (d + 1))) else (m(d := src k)) b)"
    by (rule Suc.IH) (use Suc.prems in simp)
  show ?case
  proof (cases "b = d")
    case True
    have "unat (- 1 :: u64) = 18446744073709551615"
      by (simp add: unsigned_minus_1_eq_mask mask_numeral)
    with True IH Suc.prems show ?thesis by simp
  next
    case False
    with IH unat_minus_Suc [OF False] show ?thesis by simp
  qed
qed simp

lemma move_obj_to_nat:
  fixes dst :: cptr and src :: mem
  shows "move_obj dst k src a n j = (if k \<le> j \<and> j < k + n then src (a + of_nat (j - k)) else dst j)"
proof (induction n arbitrary: dst k a)
  case (Suc n)
  have "j - k = Suc (j - (k + 1))" if "k < j" using that by simp
  then show ?case by (auto simp: Suc.IH algebra_simps)
qed auto

section \<open>User addresses\<close>

definition upage :: "mem \<Rightarrow> u64 \<Rightarrow> u64 \<Rightarrow> u64" where
  "upage m root va = PTE2PA (pte m root va)"

definition uaddr :: "mem \<Rightarrow> u64 \<Rightarrow> u64 \<Rightarrow> u64" where
  "uaddr m root va = upage m root va + (va - PGROUNDDOWN va)"

definition urange :: "u64 \<Rightarrow> nat \<Rightarrow> u64 set" where
  "urange va n = {vb. unat va \<le> unat vb \<and> unat vb < unat va + n}"

text \<open>
  The \<open>n\<close> bytes from \<open>va\<close> are mapped for the user, to pages that are not page-table pages, and
  different virtual pages of the range are mapped to different physical pages.
\<close>

definition user_range :: "'a kmem_state_scheme \<Rightarrow> u64 \<Rightarrow> u64 \<Rightarrow> nat \<Rightarrow> bool" where
  "user_range s root va n \<longleftrightarrow> unat va + n \<le> unat MAXVA \<and>
     (\<forall>vb \<in> urange va n. pte (ram s) root vb AND PTE_V \<noteq> 0 \<and> pte (ram s) root vb AND PTE_U \<noteq> 0 \<and>
        sole_owner s (upage (ram s) root vb) \<and> upage (ram s) root vb \<notin> nodes (ram s) root) \<and>
     (\<forall>vb \<in> urange va n. \<forall>vc \<in> urange va n.
        upage (ram s) root vb = upage (ram s) root vc \<longrightarrow> pgno vb = pgno vc)"

lemma user_rangeD:
  assumes "user_range s root va n"
  shows "unat va + n \<le> unat MAXVA"
    and "\<And>vb. vb \<in> urange va n \<Longrightarrow> pte (ram s) root vb AND PTE_V \<noteq> 0"
    and "\<And>vb. vb \<in> urange va n \<Longrightarrow> pte (ram s) root vb AND PTE_U \<noteq> 0"
    and "\<And>vb. vb \<in> urange va n \<Longrightarrow> sole_owner s (upage (ram s) root vb)"
    and "\<And>vb. vb \<in> urange va n \<Longrightarrow> upage (ram s) root vb \<notin> nodes (ram s) root"
    and "\<And>vb vc. vb \<in> urange va n \<Longrightarrow> vc \<in> urange va n \<Longrightarrow>
      upage (ram s) root vb = upage (ram s) root vc \<Longrightarrow> pgno vb = pgno vc"
  using assms unfolding user_range_def by blast+

lemma user_range_sub:
  assumes "user_range s root va n" and "unat vb = unat va + i" and "i + n' \<le> n"
  shows "user_range s root vb n'"
proof -
  have "urange vb n' \<subseteq> urange va n" using assms(2,3) by (auto simp: urange_def)
  moreover have "unat vb + n' \<le> unat MAXVA" using assms(2,3) user_rangeD(1) [OF assms(1)] by linarith
  ultimately show ?thesis using assms(1) unfolding user_range_def by blast
qed

lemma user_range_cong:
  assumes "user_range s root va n" and "pte (ram s') root = pte (ram s) root"
    and "nodes (ram s') root = nodes (ram s) root" and "kend s' = kend s" and "refcount s' = refcount s"
  shows "user_range s' root va n"
  using assms(1) unfolding user_range_def upage_def sole_owner_def assms(2-5) .

lemma pte_PGROUNDDOWN: "va < MAXVA \<Longrightarrow> pte m root (PGROUNDDOWN va) = pte m root va"
  by (rule pte_page) simp_all

lemma walkaddr_user:
  fixes s :: "'a kernel_state_scheme"
  assumes wf: "pt_wf s root" and inv: "kmem_inv s fl" and r: "user_range s root va n" and n: "0 < n"
  shows "walkaddr root (PGROUNDDOWN va) s = Ok (upage (ram s) root va, s)" and "upage (ram s) root va \<noteq> 0"
proof -
  have in_range: "va \<in> urange va n" using n by (simp add: urange_def)
  have va: "va < MAXVA" using user_rangeD(1) [OF r] n by (simp add: word_less_nat_alt)
  then have va0: "PGROUNDDOWN va < MAXVA" by (simp add: less_MAXVA_pgno)
  note p = user_rangeD(2-4) [OF r in_range]
  show "upage (ram s) root va \<noteq> 0"
    using p(3) kmem_invD(1) [OF inv] by (auto simp: sole_owner_def page_ok_def)
  have walkaddr: "walkaddr root (PGROUNDDOWN va) s = bnd (walk root (PGROUNDDOWN va) False s) (\<lambda>(pte, s).
        let v = load64 (ram s) pte
        in if pte = 0 \<or> v AND PTE_V = 0
           then deref (myproc s) (\<lambda>p.
             if PGROUNDDOWN va \<ge> p_sz (ptable s p) \<or> PGROUNDDOWN va < PGROUNDUP (tf_get TF_sp p s) then Ok (0, s)
             else bnd (kalloc s) (\<lambda>(pa, s).
               if pa = 0 then Ok (0, s)
               else bnd (mappages (p_pagetable (ptable s p)) (PGROUNDDOWN va) PGSIZE pa 30 s) (\<lambda>(r, s).
                 if r \<noteq> 0 then bnd (kfree pa s) (\<lambda>s. Ok (0, s)) else Ok (pa, s))))
           else if v AND PTE_U = 0 then Ok (0, s)
           else Ok (PTE2PA v, s))"
    using va0 by (simp add: walkaddr_def flip: not_le)
  show "walkaddr root (PGROUNDDOWN va) s = Ok (upage (ram s) root va, s)"
    by (rule walk_find [OF wf inv va0])
      (use p in \<open>simp_all add: walkaddr pte_PGROUNDDOWN [OF va] upage_def Let_def\<close>)
qed

lemma div_page_same:
  fixes x i :: nat
  assumes "x mod 4096 + i < 4096"
  shows "(x + i) div 4096 = x div 4096"
proof -
  obtain q r where "x = 4096 * q + r" "r < 4096" by (metis mod_less_divisor mult_div_mod_eq zero_less_numeral)
  then show ?thesis using assms by simp
qed

lemma div_page_next:
  fixes x i :: nat
  assumes "4096 \<le> x mod 4096 + i"
  shows "x div 4096 < (x + i) div 4096"
proof -
  obtain q r where qr: "x = 4096 * q + r" "r < 4096" by (metis mod_less_divisor mult_div_mod_eq zero_less_numeral)
  then have "q * 4096 + 1 * 4096 \<le> x + i" using assms by simp
  then have "(q + 1) * 4096 \<le> x + i" by (simp only: add_mult_distrib)
  then have "q + 1 \<le> (x + i) div 4096" by (subst less_eq_div_iff_mult_less_eq) simp_all
  then show ?thesis using qr by simp
qed

lemma page_offset_of_nat: "va - PGROUNDDOWN va = of_nat (unat va mod 4096)"
proof -
  have "unat (of_nat (unat va mod 4096) :: u64) = unat va mod 4096"
    by (rule unat_of_nat_64) (rule less_trans [of _ 4096], simp_all)
  then show ?thesis by (simp only: word_unat_eq_iff unat_page_offset)
qed

lemma same_page:
  assumes "unat va mod 4096 + i < 4096"
  shows "unat (va + of_nat i) = unat va + i" "pgno (va + of_nat i) = pgno va"
    "PGROUNDDOWN (va + of_nat i) = PGROUNDDOWN va"
proof -
  have div: "4096 * (unat va div 4096) + unat va mod 4096 = unat va" by simp
  have "unat va div 4096 < 4503599627370496" using unat_u64_lt [of va] by (simp add: div_less_iff_less_mult)
  then have "unat va + i < 18446744073709551616" using assms div by linarith
  then show u: "unat (va + of_nat i) = unat va + i" by (subst unat_add_of_nat) simp_all
  have "(unat va + i) div 4096 = unat va div 4096" by (rule div_page_same [OF assms])
  then show p: "pgno (va + of_nat i) = pgno va" by (simp add: pgno_def u)
  show "PGROUNDDOWN (va + of_nat i) = PGROUNDDOWN va"
    by (simp add: word_unat_eq_iff unat_PGROUNDDOWN p)
qed

lemma uaddr_same_page:
  assumes "unat va mod 4096 + i < 4096" and "va < MAXVA"
  shows "uaddr m root (va + of_nat i) = uaddr m root va + of_nat i"
  using same_page [OF assms(1)] pte_page [OF assms(2), of "va + of_nat i" m root]
  by (simp add: uaddr_def upage_def)

lemma pgno_uaddr:
  assumes "aligned (upage m root va)"
  shows "pgno (uaddr m root va) = pgno (upage m root va)"
  using same_page(2) [of "upage m root va" "unat va mod 4096"] assms
  by (simp add: uaddr_def aligned_unat page_offset_of_nat)

text \<open>One page of a copy: the bytes that go through the page of \<open>va\<close>.\<close>

lemma chunk_bounds:
  assumes "user_range s root va n" and "c = min (4096 - unat va mod 4096) n" and "i < n"
  shows "va + of_nat i \<in> urange va n" and "va + of_nat i < MAXVA"
    and "i < c \<Longrightarrow> uaddr m root (va + of_nat i) = uaddr m root va + of_nat i"
    and "i < c \<Longrightarrow> pgno (va + of_nat i) = pgno va"
    and "c \<le> i \<Longrightarrow> pgno (va + of_nat i) \<noteq> pgno va"
proof -
  have n: "unat va + n \<le> unat MAXVA" by (rule user_rangeD(1) [OF assms(1)])
  then have u: "unat (va + of_nat i) = unat va + i" using assms(3) by (subst unat_add_of_nat) simp_all
  then show "va + of_nat i \<in> urange va n" using assms(3) by (simp add: urange_def)
  show "va + of_nat i < MAXVA" using u n assms(3) by (simp add: word_less_nat_alt)
  have va: "va < MAXVA" using n assms(3) by (simp add: word_less_nat_alt)
  show "uaddr m root (va + of_nat i) = uaddr m root va + of_nat i" "pgno (va + of_nat i) = pgno va" if "i < c"
    using that assms(2) same_page(2) [of va i] uaddr_same_page [of va i m root] va by (simp_all add: less_diff_conv add.commute)
  show "pgno (va + of_nat i) \<noteq> pgno va" if "c \<le> i"
  proof -
    have "4096 \<le> unat va mod 4096 + i" using that assms(2,3) by (simp add: min_def split: if_splits)
    from div_page_next [OF this] show ?thesis by (simp add: pgno_def u)
  qed
qed

text \<open>Storing in one page that is neither a table nor free changes no table and no free page.\<close>

lemma store_page_frame:
  fixes s :: "'a kmem_state_scheme"
  assumes wf: "pt_wf s root" and inv: "kmem_inv s fl" and own: "sole_owner s pa" "pa \<notin> nodes (ram s) root"
    and m: "\<And>b. pgno b \<noteq> pgno pa \<Longrightarrow> m b = ram s b"
  shows "pt_wf (s\<lparr>ram := m\<rparr>) root" and "nodes m root = nodes (ram s) root"
    and "pte m root = pte (ram s) root" and "kmem_inv (s\<lparr>ram := m\<rparr>) fl"
proof -
  have same: "same_outside {pa} s (s\<lparr>ram := m\<rparr>)" using m by (simp add: same_outside_def)
  have "pgno pa \<noteq> pgno q" if "q \<in> nodes (ram s) root" for q
    using own that pt_wfD(1) [OF wf that] by (metis aligned_pgno_inj sole_owner_aligned)
  then have P: "pgno ` {pa} \<inter> pgno ` nodes (ram s) root = {}" by auto
  from pt_frame [OF wf same P] show "pt_wf (s\<lparr>ram := m\<rparr>) root" "nodes m root = nodes (ram s) root"
    "pte m root = pte (ram s) root" by simp_all
  have "pgno pa \<noteq> pgno q" if "q \<in> set fl" for q
    using owned_not_free [OF inv own(1)] kmem_invD(5) [OF inv that] own(1) that
    by (metis aligned_pgno_inj sole_owner_aligned)
  then show "kmem_inv (s\<lparr>ram := m\<rparr>) fl" using m by (intro kmem_inv_ram [OF inv]) metis
qed

definition copied_out :: "mem \<Rightarrow> u64 \<Rightarrow> u64 \<Rightarrow> (nat \<Rightarrow> u8) \<Rightarrow> nat \<Rightarrow> mem \<Rightarrow> bool" where
  "copied_out m0 root va src n m \<longleftrightarrow>
     (\<forall>i<n. m (uaddr m0 root (va + of_nat i)) = src i) \<and>
     (\<forall>b. (\<forall>i<n. b \<noteq> uaddr m0 root (va + of_nat i)) \<longrightarrow> m b = m0 b)"

lemma copyout_chunk:
  fixes s :: "'a kernel_state_scheme" and src :: cptr and k :: nat
  assumes wf: "pt_wf s root" and inv: "kmem_inv s fl" and r: "user_range s root va (unat len)" and pos: "0 < len"
  defines "c \<equiv> unat (page_chunk va len)"
    and "m \<equiv> move_obj (ram s) (uaddr (ram s) root va) src k (unat (page_chunk va len))"
  shows "copyout_loop root va src k len s =
      copyout_loop root (PGROUNDDOWN va + PGSIZE) src (k + c) (len - page_chunk va len) (s\<lparr>ram := m\<rparr>)"
    and "pt_wf (s\<lparr>ram := m\<rparr>) root" and "kmem_inv (s\<lparr>ram := m\<rparr>) fl" and "pte m root = pte (ram s) root"
    and "user_range (s\<lparr>ram := m\<rparr>) root va (unat len)"
    and "copied_out (ram s) root va (\<lambda>i. src (k + i)) c m" and "nodes m root = nodes (ram s) root"
proof -
  have n: "0 < unat len" using pos by (simp add: word_less_nat_alt)
  note w = walkaddr_user [OF wf inv r n]
  have c: "c = min (4096 - unat va mod 4096) (unat len)" by (simp add: c_def unat_page_chunk)
  show "copyout_loop root va src k len s =
      copyout_loop root (PGROUNDDOWN va + PGSIZE) src (k + c) (len - page_chunk va len) (s\<lparr>ram := m\<rparr>)"
    using pos w by (subst copyout_loop.simps) (simp add: Let_def c_def m_def uaddr_def)
  have "c \<le> 4096" by (simp add: c)
  then have m: "m b = (if unat (b - uaddr (ram s) root va) < c then src (k + unat (b - uaddr (ram s) root va)) else ram s b)" for b
    unfolding m_def c_def [symmetric] by (rule move_obj_to_word [OF order_trans]) simp
  have va: "va \<in> urange va (unat len)" using n by (simp add: urange_def)
  have own: "sole_owner s (upage (ram s) root va)" "upage (ram s) root va \<notin> nodes (ram s) root"
    using user_rangeD(4,5) [OF r va] .
  have addr: "b = uaddr (ram s) root (va + of_nat (unat (b - uaddr (ram s) root va)))" "unat (b - uaddr (ram s) root va) < unat len"
      if "unat (b - uaddr (ram s) root va) < c" for b
    using that chunk_bounds(3) [OF r c, of "unat (b - uaddr (ram s) root va)" "ram s"] c by simp_all
  have page: "m b = ram s b" if "pgno b \<noteq> pgno (upage (ram s) root va)" for b
  proof (rule ccontr)
    assume "m b \<noteq> ram s b"
    then have i: "unat (b - uaddr (ram s) root va) < c" by (simp add: m split: if_splits)
    let ?v = "va + of_nat (unat (b - uaddr (ram s) root va))"
    have "upage (ram s) root ?v = upage (ram s) root va"
      using chunk_bounds(2,4) [OF r c addr(2) [OF i]] i n r
        pte_page [of va ?v "ram s" root] user_rangeD(1) [OF r] by (simp add: upage_def word_less_nat_alt)
    then have "pgno b = pgno (upage (ram s) root va)"
      using addr(1) [OF i] pgno_uaddr [of "ram s" root ?v] sole_owner_aligned [OF own(1)] by simp
    with that show False by simp
  qed
  note fr = store_page_frame [OF wf inv own, of m]
  show "pt_wf (s\<lparr>ram := m\<rparr>) root" by (rule fr(1)) (rule page)
  show nodes: "nodes m root = nodes (ram s) root" by (rule fr(2)) (rule page)
  show pte: "pte m root = pte (ram s) root" by (rule fr(3)) (rule page)
  show "kmem_inv (s\<lparr>ram := m\<rparr>) fl" by (rule fr(4)) (rule page)
  show "user_range (s\<lparr>ram := m\<rparr>) root va (unat len)"
    by (rule user_range_cong [OF r]) (simp_all add: nodes pte)
  show "copied_out (ram s) root va (\<lambda>i. src (k + i)) c m"
    unfolding copied_out_def
  proof (intro conjI allI impI)
    fix i assume i: "i < c"
    then have "i < unat len" by (simp add: c)
    then have "uaddr (ram s) root (va + of_nat i) - uaddr (ram s) root va = of_nat i"
      using chunk_bounds(3) [OF r c, of i] i by simp
    moreover have "unat (of_nat i :: u64) = i" using i \<open>c \<le> 4096\<close> by (intro unat_of_nat_64) simp
    ultimately show "m (uaddr (ram s) root (va + of_nat i)) = src (k + i)" using i by (simp add: m)
  next
    fix b assume "\<forall>i<c. b \<noteq> uaddr (ram s) root (va + of_nat i)"
    then have "\<not> unat (b - uaddr (ram s) root va) < c" using addr(1) by blast
    then show "m b = ram s b" by (simp add: m)
  qed
qed

lemma uaddr_inj:
  assumes r: "user_range s root va n" and ij: "i < n" "j < n"
    and eq: "uaddr (ram s) root (va + of_nat i) = uaddr (ram s) root (va + of_nat j)"
  shows "pgno (va + of_nat i) = pgno (va + of_nat j)"
proof -
  note in_range = chunk_bounds(1) [OF r refl ij(1)] chunk_bounds(1) [OF r refl ij(2)]
  note own = user_rangeD(4) [OF r in_range(1)] user_rangeD(4) [OF r in_range(2)]
  have "pgno (upage (ram s) root (va + of_nat i)) = pgno (upage (ram s) root (va + of_nat j))"
    using eq pgno_uaddr [OF sole_owner_aligned [OF own(1)]] pgno_uaddr [OF sole_owner_aligned [OF own(2)]] by simp
  then have "upage (ram s) root (va + of_nat i) = upage (ram s) root (va + of_nat j)"
    using aligned_pgno_inj [OF sole_owner_aligned [OF own(1)] sole_owner_aligned [OF own(2)]] by simp
  then show ?thesis by (rule user_rangeD(6) [OF r in_range])
qed

lemma uaddr_inj_index:
  assumes r: "user_range s root va n" and ij: "i < n" "j < n"
    and eq: "uaddr (ram s) root (va + of_nat i) = uaddr (ram s) root (va + of_nat j)"
  shows "i = j"
proof -
  let ?i = "va + of_nat i" and ?j = "va + of_nat j"
  have pg: "pgno ?i = pgno ?j" by (rule uaddr_inj [OF assms])
  have m: "?i < MAXVA" "?j < MAXVA" using chunk_bounds(2) [OF r refl] ij by blast+
  have "upage (ram s) root ?i = upage (ram s) root ?j" using pte_page [OF m(2) pg] by (simp add: upage_def)
  then have "?i - PGROUNDDOWN ?i = ?j - PGROUNDDOWN ?j" using eq by (simp add: uaddr_def)
  moreover have "PGROUNDDOWN ?i = PGROUNDDOWN ?j" using pg by (simp add: word_unat_eq_iff unat_PGROUNDDOWN)
  ultimately have "?i = ?j" by simp
  moreover have "unat (va + of_nat x) = unat va + x" if "x < n" for x
    using that user_rangeD(1) [OF r] by (subst unat_add_of_nat) simp_all
  ultimately show ?thesis using ij by (metis add_left_cancel)
qed

lemma copied_out_app:
  assumes r: "user_range s root va n" and c: "c = min (4096 - unat va mod 4096) n" "c < n"
    and va': "va' = va + of_nat c" and "pte m root = pte (ram s) root"
    and fst: "copied_out (ram s) root va src c m"
    and snd: "copied_out m root va' (\<lambda>i. src (c + i)) (n - c) m'"
  shows "copied_out (ram s) root va src n m'"
proof -
  have ua: "uaddr m root = uaddr (ram s) root" using assms(5) by (simp add: uaddr_def upage_def fun_eq_iff)
  have shift: "va' + of_nat i = va + of_nat (c + i)" for i by (simp add: va' algebra_simps)
  have far: "uaddr (ram s) root (va + of_nat i) \<noteq> uaddr (ram s) root (va + of_nat (c + j))" if "i < c" "j < n - c" for i j
  proof -
    have "c + j < n" "i < n" using that c(2) by simp_all
    then show ?thesis
      using uaddr_inj [OF r, of i "c + j"] chunk_bounds(4) [OF r c(1), of i] chunk_bounds(5) [OF r c(1), of "c + j"] that
      by auto
  qed
  show ?thesis
    unfolding copied_out_def
  proof (intro conjI allI impI)
    fix i assume i: "i < n"
    show "m' (uaddr (ram s) root (va + of_nat i)) = src i"
    proof (cases "i < c")
      case True
      then have "m' (uaddr (ram s) root (va + of_nat i)) = m (uaddr (ram s) root (va + of_nat i))"
        using snd far [OF True] by (simp add: copied_out_def ua shift)
      then show ?thesis using fst True by (simp add: copied_out_def)
    next
      case False
      then have "m' (uaddr (ram s) root (va + of_nat (c + (i - c)))) = src (c + (i - c))"
        using snd i by (simp only: copied_out_def ua shift)
      then show ?thesis using False by simp
    qed
  next
    fix b assume b: "\<forall>i<n. b \<noteq> uaddr (ram s) root (va + of_nat i)"
    then have "b \<noteq> uaddr m root (va' + of_nat i)" if "i < n - c" for i
      using that unfolding ua shift by (simp add: less_diff_conv add.commute del: of_nat_add)
    then have "m' b = m b" using snd by (simp add: copied_out_def)
    also have "m b = ram s b" using fst b c(2) by (simp add: copied_out_def)
    finally show "m' b = ram s b" .
  qed
qed

lemma copyout_loop_user:
  fixes s :: "'a kernel_state_scheme"
  assumes "pt_wf s root" and "kmem_inv s fl" and "user_range s root va (unat len)"
  shows "\<exists>m. copyout_loop root va src k len s = Ok (0, s\<lparr>ram := m\<rparr>) \<and> pt_wf (s\<lparr>ram := m\<rparr>) root \<and>
    kmem_inv (s\<lparr>ram := m\<rparr>) fl \<and> pte m root = pte (ram s) root \<and>
    nodes m root = nodes (ram s) root \<and>
    copied_out (ram s) root va (\<lambda>i. src (k + i)) (unat len) m"
  using assms
proof (induction "unat len" arbitrary: s va k len rule: less_induct)
  case less
  show ?case
  proof (cases "len = 0")
    case True
    then show ?thesis using less.prems
      by (intro exI [of _ "ram s"]) (simp add: copyout_loop.simps copied_out_def)
  next
    case False
    then have pos: "0 < len" by (simp add: word_gt_0)
    let ?c = "unat (page_chunk va len)"
    define m where "m = move_obj (ram s) (uaddr (ram s) root va) src k ?c"
    let ?s = "s\<lparr>ram := m\<rparr>" and ?va = "PGROUNDDOWN va + PGSIZE" and ?len = "len - page_chunk va len"
    note ch = copyout_chunk [OF less.prems pos, where src = src and k = k, folded m_def]
    have c: "?c = min (4096 - unat va mod 4096) (unat len)" by (rule unat_page_chunk)
    have len': "unat ?len = unat len - ?c" using c by (subst unat_sub) (simp_all add: word_le_nat_alt)
    show ?thesis
    proof (cases "?c < unat len")
      case True
      then have c': "?c = 4096 - unat va mod 4096" using c by simp
      have "unat va mod 4096 < 4096" by simp
      then have va': "?va = va + of_nat ?c"
        using page_offset_of_nat [of va] by (simp add: c' of_nat_diff algebra_simps)
      have "unat ?va = unat va + ?c"
        unfolding va' using user_rangeD(1) [OF less.prems(3)] True by (subst unat_add_of_nat) simp_all
      then have r': "user_range ?s root ?va (unat ?len)"
        using user_range_sub [OF ch(5), of ?va ?c "unat ?len"] True len' by simp
      from less.hyps [OF page_chunk_progress [OF pos] ch(2,3) r', of "k + ?c"]
      obtain m' where m': "copyout_loop root ?va src (k + ?c) ?len ?s = Ok (0, ?s\<lparr>ram := m'\<rparr>)"
        "pt_wf (?s\<lparr>ram := m'\<rparr>) root" "kmem_inv (?s\<lparr>ram := m'\<rparr>) fl" "pte m' root = pte m root"
        "nodes m' root = nodes m root"
        "copied_out m root ?va (\<lambda>i. src (k + ?c + i)) (unat len - ?c) m'"
        unfolding len' by auto
      have "copied_out (ram s) root va (\<lambda>i. src (k + i)) (unat len) m'"
        by (rule copied_out_app [OF less.prems(3) c True va' ch(4,6)]) (use m'(6) in \<open>simp add: add.assoc\<close>)
      then show ?thesis
        using m' ch(1,4,7) by (intro exI [of _ m']) simp
    next
      case False
      then have "?c = unat len" "?len = 0" using c len' by (simp_all add: unat_eq_zero)
      then show ?thesis using ch
        by (intro exI [of _ m]) (simp add: copyout_loop.simps)
    qed
  qed
qed

definition copied_in :: "mem \<Rightarrow> u64 \<Rightarrow> u64 \<Rightarrow> cptr \<Rightarrow> nat \<Rightarrow> nat \<Rightarrow> cptr \<Rightarrow> bool" where
  "copied_in m root va dst k n d \<longleftrightarrow>
     (\<forall>j. d j = (if k \<le> j \<and> j < k + n then m (uaddr m root (va + of_nat (j - k))) else dst j))"

lemma copyin_loop_user:
  fixes s :: "'a kernel_state_scheme"
  assumes wf: "pt_wf s root" and inv: "kmem_inv s fl" and "user_range s root va (unat len)"
  shows "\<exists>d. copyin_loop root dst k va len s = Ok (0, d, s) \<and> copied_in (ram s) root va dst k (unat len) d"
  using assms(3)
proof (induction "unat len" arbitrary: va dst k len rule: less_induct)
  case less
  note r = less.prems
  show ?case
  proof (cases "len = 0")
    case True
    then show ?thesis by (intro exI [of _ dst]) (auto simp: copyin_loop.simps copied_in_def)
  next
    case False
    then have pos: "0 < len" "0 < unat len" by (simp_all add: word_gt_0 unat_gt_0)
    let ?c = "unat (page_chunk va len)" and ?va = "PGROUNDDOWN va + PGSIZE" and ?len = "len - page_chunk va len"
    define d where "d = move_obj dst k (ram s) (uaddr (ram s) root va) ?c"
    have step: "copyin_loop root dst k va len s = copyin_loop root d (k + ?c) ?va ?len s"
      using pos walkaddr_user [OF wf inv r pos(2)]
      by (subst copyin_loop.simps) (simp add: Let_def d_def uaddr_def)
    have c: "?c = min (4096 - unat va mod 4096) (unat len)" by (rule unat_page_chunk)
    have len': "unat ?len = unat len - ?c" using c by (subst unat_sub) (simp_all add: word_le_nat_alt)
    have d: "copied_in (ram s) root va dst k ?c d"
      unfolding copied_in_def d_def move_obj_to_nat
    proof
      fix j
      have "uaddr (ram s) root va + of_nat (j - k) = uaddr (ram s) root (va + of_nat (j - k))" if "j - k < ?c"
        using that chunk_bounds(3) [OF r c, of "j - k" "ram s"] c by simp
      then show "(if k \<le> j \<and> j < k + ?c then ram s (uaddr (ram s) root va + of_nat (j - k)) else dst j) =
          (if k \<le> j \<and> j < k + ?c then ram s (uaddr (ram s) root (va + of_nat (j - k))) else dst j)"
        by (auto simp del: of_nat_diff simp: less_diff_conv2)
    qed
    show ?thesis
    proof (cases "?c < unat len")
      case True
      then have c': "?c = 4096 - unat va mod 4096" using c by simp
      have "unat va mod 4096 < 4096" by simp
      then have va': "?va = va + of_nat ?c"
        using page_offset_of_nat [of va] by (simp add: c' of_nat_diff algebra_simps)
      have "unat ?va = unat va + ?c"
        unfolding va' using user_rangeD(1) [OF r] True by (subst unat_add_of_nat) simp_all
      then have r': "user_range s root ?va (unat ?len)"
        using user_range_sub [OF r, of ?va ?c "unat ?len"] True len' by simp
      from less.hyps [OF page_chunk_progress [OF pos(1)] r', of d "k + ?c"]
      obtain d' where d': "copyin_loop root d (k + ?c) ?va ?len s = Ok (0, d', s)"
        "copied_in (ram s) root ?va d (k + ?c) (unat len - ?c) d'"
        unfolding len' by auto
      have "copied_in (ram s) root va dst k (unat len) d'"
        unfolding copied_in_def
      proof
        fix j
        have "?va + of_nat (j - (k + ?c)) = va + of_nat (j - k)" if "k + ?c \<le> j"
          unfolding va' using that by (simp add: of_nat_diff algebra_simps)
        moreover have "d' j = (if k + ?c \<le> j \<and> j < k + ?c + (unat len - ?c)
            then ram s (uaddr (ram s) root (?va + of_nat (j - (k + ?c)))) else d j)"
          using d'(2) unfolding copied_in_def by (rule spec)
        moreover have "d j = (if k \<le> j \<and> j < k + ?c then ram s (uaddr (ram s) root (va + of_nat (j - k))) else dst j)"
          using d unfolding copied_in_def by (rule spec)
        ultimately show "d' j = (if k \<le> j \<and> j < k + unat len then ram s (uaddr (ram s) root (va + of_nat (j - k))) else dst j)"
          using True by (cases "k + ?c \<le> j") (simp_all del: of_nat_diff of_nat_add)
      qed
      then show ?thesis using d' step by auto
    next
      case False
      then have "?c = unat len" "?len = 0" using c len' by (simp_all add: unat_eq_zero)
      then show ?thesis using step d by (auto simp: copyin_loop.simps)
    qed
  qed
qed

text \<open>
  C3: what the kernel copies out to a mapped user range it reads back: \<^verbatim>\<open>copyout\<close> of
  \<open>len\<close> bytes succeeds, whatever pages the range crosses, and \<^verbatim>\<open>copyin\<close> of the same range
  then returns the same bytes and leaves the rest of its buffer alone.  \<^verbatim>\<open>copyout\<close> changes
  no byte of RAM but the ones the range is mapped to, and no page table entry.
\<close>

theorem copyout_copyin_roundtrip:
  fixes s :: "'a kernel_state_scheme"
  assumes wf: "pt_wf s root" and inv: "kmem_inv s fl" and r: "user_range s root va (unat len)"
  shows "\<exists>m d. copyout root va src len s = Ok (0, s\<lparr>ram := m\<rparr>) \<and>
    copyin root dst va len (s\<lparr>ram := m\<rparr>) = Ok (0, d, s\<lparr>ram := m\<rparr>) \<and>
    (\<forall>i. d i = (if i < unat len then src i else dst i)) \<and>
    pte m root = pte (ram s) root \<and>
    (\<forall>b. (\<forall>i<unat len. b \<noteq> uaddr (ram s) root (va + of_nat i)) \<longrightarrow> m b = ram s b)"
proof -
  from copyout_loop_user [OF assms, of src 0] obtain m where
    m: "copyout_loop root va src 0 len s = Ok (0, s\<lparr>ram := m\<rparr>)" "pt_wf (s\<lparr>ram := m\<rparr>) root"
      "kmem_inv (s\<lparr>ram := m\<rparr>) fl" "pte m root = pte (ram s) root" "nodes m root = nodes (ram s) root"
      "copied_out (ram s) root va src (unat len) m"
    by auto
  have r': "user_range (s\<lparr>ram := m\<rparr>) root va (unat len)"
    by (rule user_range_cong [OF r]) (simp_all add: m)
  from copyin_loop_user [OF m(2,3) r', of dst 0] obtain d where
    d: "copyin_loop root dst 0 va len (s\<lparr>ram := m\<rparr>) = Ok (0, d, s\<lparr>ram := m\<rparr>)"
      "copied_in m root va dst 0 (unat len) d" by auto
  have "uaddr m root = uaddr (ram s) root" using m(4) by (simp add: uaddr_def upage_def fun_eq_iff)
  then have "\<forall>i. d i = (if i < unat len then src i else dst i)"
    using d(2) m(6) by (simp add: copied_in_def copied_out_def)
  then show ?thesis using m d by (auto simp: copyout_def copyin_def copied_out_def)
qed

text \<open>
  For the witness: an empty page table, a page for the user and three free pages, and the
  state after mapping the page at address 0.
\<close>

definition five_pages :: kernel_state where
  "five_pages = boot_state\<lparr>kend := 0x87ffb000,
     ram := store64 (store64 (\<lambda>_. 0) 0x87ffc000 0x87ffd000) 0x87ffb000 0x87ffc000,
     freelist := 0x87ffb000,
     refcount := (\<lambda>n. if n = pgno 0x87fff000 \<or> n = pgno 0x87ffe000 then 1 else 0)\<rparr>"

lemma page_ok_five:
  "page_ok 0x87ffb000 p \<longleftrightarrow> p \<in> {0x87ffb000, 0x87ffc000, 0x87ffd000, 0x87ffe000, 0x87fff000}"
proof
  assume ok: "page_ok 0x87ffb000 p"
  then obtain k where k: "unat p = 4096 * k" by (auto simp: page_ok_def elim: alignedE)
  with ok have "557051 \<le> k" "k < 557056"
    by (auto simp: page_ok_def word_le_nat_alt word_less_nat_alt)
  then have "k \<in> {557051, 557052, 557053, 557054, 557055}" by auto
  with k show "p \<in> {0x87ffb000, 0x87ffc000, 0x87ffd000, 0x87ffe000, 0x87fff000}" by (auto simp: word_unat_eq_iff)
qed (auto simp: page_ok_def aligned_unat)

lemma five_pages_ok:
  "kmem_inv five_pages [0x87ffb000, 0x87ffc000, 0x87ffd000]" "sole_owner five_pages 0x87fff000"
  "sole_owner five_pages 0x87ffe000" "\<And>b. pgno b = pgno 0x87fff000 \<Longrightarrow> ram five_pages b = 0"
proof -
  let ?m = "store64 (store64 (\<lambda>_. 0) 0x87ffc000 0x87ffd000) 0x87ffb000 0x87ffc000"
  have c: "cell64 0x87ffd000 \<inter> cell64 0x87ffb000 = {}" "cell64 0x87ffd000 \<inter> cell64 0x87ffc000 = {}"
    "cell64 0x87ffc000 \<inter> cell64 0x87ffb000 = {}"
    by (simp_all add: cell64_expand)
  have "load64 (\<lambda>_. 0) 0x87ffd000 = 0" by (simp add: load64_def bytes8_def le_cons_def)
  then have "load64 ?m 0x87ffd000 = 0" "load64 ?m 0x87ffc000 = 0x87ffd000"
    by (simp_all add: load64_store64_disjoint c)
  then show "kmem_inv five_pages [0x87ffb000, 0x87ffc000, 0x87ffd000]"
    by (auto simp: kmem_inv_def kmem_inv_on_def five_pages_def page_ok_five pgno_def)
  show "sole_owner five_pages 0x87fff000" "sole_owner five_pages 0x87ffe000"
    by (simp_all add: sole_owner_def five_pages_def page_ok_five)
  show "ram five_pages b = 0" if "pgno b = pgno 0x87fff000" for b
  proof -
    have "?m b = 0"
      by (subst store64_other_page, use that in \<open>auto simp: aligned_unat pgno_def\<close>)+
    then show ?thesis by (simp add: five_pages_def)
  qed
qed

lemma user_page_mapped:
  "\<exists>s fl. pt_wf s 0x87fff000 \<and> kmem_inv s fl \<and> user_range (s :: kernel_state) 0x87fff000 8 100"
proof -
  note t = empty_table [OF five_pages_ok(2,4)]
  have pg: "pgno 0 = 0" by (simp add: pgno_def)
  from mappages_loop_maps [OF t(1) five_pages_ok(1), of 0 0 0 "0x87ffe000" 30] obtain j s' fl' ps where
    s': "j \<le> 1" "grown 0x87fff000 five_pages [0x87ffb000, 0x87ffc000, 0x87ffd000] s' fl' ps" "length ps \<le> 2"
      "j \<le> 0 \<longrightarrow> fl' = []" "pte (ram s') 0x87fff000 = map_range (\<lambda>_. 0) 0 j 0x87ffe000 30"
    by (auto simp: pg t(3) aligned_def)
  have fl: "[0x87ffb000, 0x87ffc000, 0x87ffd000] = ps @ fl'" using s'(2) by (simp add: grown_def)
  then have "fl' \<noteq> []" using s'(3) by (metis append_Nil2 length_Cons list.size(3) not_less_eq_eq numeral_2_eq_2 order_refl)
  then have j: "j = 1" using s'(1,4) by auto
  have pte: "pte (ram s') 0x87fff000 vb = PA2PTE 0x87ffe000 OR 30 OR PTE_V" if "pgno vb = 0" for vb
    using that by (simp add: s'(5) j map_range_def)
  have ps: "set ps \<subseteq> {0x87ffb000, 0x87ffc000, 0x87ffd000}" using arg_cong [OF fl, of set] by auto
  have nodes: "nodes (ram s') 0x87fff000 = {0x87fff000} \<union> set ps"
    and same: "same_outside ({0x87fff000} \<union> set ps) five_pages s'"
    using s'(2) t(2) by (simp_all add: grown_def)
  have "pgno 0x87ffe000 \<notin> pgno ` ({0x87fff000} \<union> set ps)" using ps by (auto simp: pgno_def)
  then have own: "sole_owner s' 0x87ffe000"
    using same five_pages_ok(3) by (simp add: sole_owner_def same_outside_def)
  have notin: "0x87ffe000 \<notin> nodes (ram s') 0x87fff000" using ps nodes by auto
  have v: "PTE2PA (PA2PTE 0x87ffe000 OR 30 OR PTE_V) = 0x87ffe000" "(PA2PTE 0x87ffe000 OR 30 OR PTE_V) AND PTE_V \<noteq> 0"
      "(PA2PTE 0x87ffe000 OR 30 OR PTE_V) AND PTE_U \<noteq> 0"
    by (simp_all add: PTE2PA_def PA2PTE_def)
  have low: "pgno vb = 0" if "vb \<in> urange 8 100" for vb
    using that by (simp add: urange_def pgno_def)
  have "user_range s' 0x87fff000 8 100"
    unfolding user_range_def using own notin low v by (simp add: upage_def pte)
  then show ?thesis using s'(2) by (auto simp: grown_def)
qed

theorem copyout_copyin_roundtrip_witness:
  "\<exists>(s :: kernel_state) root m d. copyout root 8 (\<lambda>i. of_nat i) 100 s = Ok (0, s\<lparr>ram := m\<rparr>) \<and>
    copyin root (\<lambda>_. 0) 8 100 (s\<lparr>ram := m\<rparr>) = Ok (0, d, s\<lparr>ram := m\<rparr>) \<and> d 99 = 99 \<and> d 100 = 0"
proof -
  from user_page_mapped obtain s :: kernel_state and fl where
    s: "pt_wf s 0x87fff000" "kmem_inv s fl" "user_range s 0x87fff000 8 (unat (100 :: u64))" by auto
  from copyout_copyin_roundtrip [OF s, of "\<lambda>i. of_nat i" "\<lambda>_. 0"] obtain m d where
    "copyout 0x87fff000 8 (\<lambda>i. of_nat i) 100 s = Ok (0, s\<lparr>ram := m\<rparr>)"
    "copyin 0x87fff000 (\<lambda>_. 0) 8 100 (s\<lparr>ram := m\<rparr>) = Ok (0, d, s\<lparr>ram := m\<rparr>)" "d 99 = 99" "d 100 = 0"
    by auto
  then show ?thesis by blast
qed

end
