(* ===== verification/Pipe.thy ===== *)
theory Pipe
  imports Dir Ring Copyuser
begin

text \<open>
  Pipes, \<^verbatim>\<open>kernel/pipe.c\<close>, and the file table they are opened through.  A pipe is a
  structure in a page of its own; \<open>pipes\<close> gives the structure at a page address.  Reading
  and writing sleep, so they run in turns, each one critical section of the pipe's lock.
\<close>

section \<open>State\<close>

abbreviation (input) PIPESIZE :: nat where "PIPESIZE \<equiv> 512"

datatype fdtype = FD_NONE | FD_PIPE | FD_INODE | FD_DEVICE

record kfile =
  f_type :: fdtype
  f_ref :: i32
  f_readable :: u8
  f_writable :: u8
  f_pipe :: u64
  f_ip :: "nat option"
  f_off :: u32
  f_major :: i16

record pipe =
  pi_data :: "nat \<Rightarrow> u8"
  pi_nread :: u32
  pi_nwrite :: u32
  pi_readopen :: i32
  pi_writeopen :: i32

record file_state = fs_state +
  ftable :: "nat \<Rightarrow> kfile"
  pipes :: "u64 \<Rightarrow> pipe"

text \<open>The file table with its static data zeroed.\<close>

definition file_zero :: file_state where
  "file_zero = fs_state.extend fs_zero (file_state.fields (\<lambda>_. \<lparr>f_type = FD_NONE, f_ref = 0, f_readable = 0, f_writable = 0, f_pipe = 0, f_ip = None, f_off = 0, f_major = 0\<rparr>)
       (\<lambda>_. \<lparr>pi_data = (\<lambda>_. 0), pi_nread = 0, pi_nwrite = 0, pi_readopen = 0, pi_writeopen = 0\<rparr>))"

lemmas file_zero_simps [zero_simps] = file_zero_def fs_state.defs file_state.defs

definition upd_file :: "nat \<Rightarrow> (kfile \<Rightarrow> kfile) \<Rightarrow> 'a file_state_scheme \<Rightarrow> 'a file_state_scheme" where
  "upd_file i f s = s\<lparr>ftable := (ftable s)(i := f (ftable s i))\<rparr>"

definition upd_pipe :: "u64 \<Rightarrow> (pipe \<Rightarrow> pipe) \<Rightarrow> 'a file_state_scheme \<Rightarrow> 'a file_state_scheme" where
  "upd_pipe a f s = s\<lparr>pipes := (pipes s)(a := f (pipes s a))\<rparr>"

section \<open>Operations\<close>

definition pipeclose :: "u64 \<Rightarrow> u8 \<Rightarrow> 'a file_state_scheme \<Rightarrow> 'a file_state_scheme res" where
  "pipeclose pi writable s = deref_pa pi (
     let s = (if writable \<noteq> 0 then wakeup (Pipe_nread pi) (upd_pipe pi (\<lambda>q. q\<lparr>pi_writeopen := 0\<rparr>) s)
              else wakeup (Pipe_nwrite pi) (upd_pipe pi (\<lambda>q. q\<lparr>pi_readopen := 0\<rparr>) s))
     in if pi_readopen (pipes s pi) = 0 \<and> pi_writeopen (pipes s pi) = 0 then kfree pi s else Ok s)"

definition pipe_full :: "pipe \<Rightarrow> bool" where
  "pipe_full q \<longleftrightarrow> pi_nwrite q = pi_nread q + of_nat PIPESIZE"

definition pipe_empty :: "pipe \<Rightarrow> bool" where
  "pipe_empty q \<longleftrightarrow> pi_nread q = pi_nwrite q"

definition pipe_put :: "u8 \<Rightarrow> pipe \<Rightarrow> pipe" where
  "pipe_put c q = q\<lparr>pi_data := (pi_data q)(unat (pi_nwrite q) mod PIPESIZE := c), pi_nwrite := pi_nwrite q + 1\<rparr>"

definition pipe_get :: "pipe \<Rightarrow> u8 \<times> pipe" where
  "pipe_get q = (pi_data q (unat (pi_nread q) mod PIPESIZE), q\<lparr>pi_nread := pi_nread q + 1\<rparr>)"

text \<open>
  A turn of \<^verbatim>\<open>pipewrite\<close> by the process \<open>pr\<close>, which has written \<open>i\<close> bytes and has \<open>k\<close> left.
  The local variable at a sleep is \<open>i\<close>.
\<close>

fun pipewrite_loop ::
  "u64 \<Rightarrow> nat \<Rightarrow> u64 \<Rightarrow> nat \<Rightarrow> nat \<Rightarrow> 'a file_state_scheme \<Rightarrow> (i32, nat, 'a file_state_scheme) turn res" where
  "pipewrite_loop pi pr addr 0 i s = Ok (Return (of_nat i) (wakeup (Pipe_nread pi) s))"
| "pipewrite_loop pi pr addr (Suc k) i s =
     (if pi_readopen (pipes s pi) = 0 \<or> p_killed (ptable s pr) \<noteq> 0 then Ok (Return (- 1) s)
      else if pipe_full (pipes s pi)
      then bnd (sleep_on (Pipe_nwrite pi) (wakeup (Pipe_nread pi) s)) (\<lambda>s. Ok (Sleep i s))
      else bnd (copyin (p_pagetable (ptable s pr)) (\<lambda>_. 0) (addr + of_nat i) 1 s) (\<lambda>(r, ch, s).
        if r = - 1 then Ok (Return (of_nat i) (wakeup (Pipe_nread pi) s))
        else pipewrite_loop pi pr addr k (Suc i) (upd_pipe pi (pipe_put (ch 0)) s)))"

definition pipewrite ::
  "u64 \<Rightarrow> u64 \<Rightarrow> i32 \<Rightarrow> 'a file_state_scheme \<Rightarrow> (i32, nat, 'a file_state_scheme) turn res" where
  "pipewrite pi addr n s = deref_pa pi (deref (myproc s) (\<lambda>pr. pipewrite_loop pi pr addr (nat (sint n)) 0 s))"

definition pipewrite_resume ::
  "u64 \<Rightarrow> u64 \<Rightarrow> i32 \<Rightarrow> nat \<Rightarrow> 'a file_state_scheme \<Rightarrow> (i32, nat, 'a file_state_scheme) turn res" where
  "pipewrite_resume pi addr n i s =
     bnd (sleep_resume s) (\<lambda>s. deref (myproc s) (\<lambda>pr. pipewrite_loop pi pr addr (nat (sint n) - i) i s))"

fun piperead_loop ::
  "u64 \<Rightarrow> nat \<Rightarrow> u64 \<Rightarrow> nat \<Rightarrow> nat \<Rightarrow> 'a file_state_scheme \<Rightarrow> (nat \<times> 'a file_state_scheme) res" where
  "piperead_loop pi pr addr 0 i s = Ok (i, s)"
| "piperead_loop pi pr addr (Suc k) i s =
     (if pipe_empty (pipes s pi) then Ok (i, s)
      else case pipe_get (pipes s pi) of (ch, q) \<Rightarrow>
        bnd (copyout (p_pagetable (ptable s pr)) (addr + of_nat i) (\<lambda>_. ch) 1 (upd_pipe pi (\<lambda>_. q) s)) (\<lambda>(r, s).
          if r = - 1 then Ok (i, s) else piperead_loop pi pr addr k (Suc i) s))"

definition piperead_turn ::
  "u64 \<Rightarrow> u64 \<Rightarrow> i32 \<Rightarrow> 'a file_state_scheme \<Rightarrow> (i32, unit, 'a file_state_scheme) turn res" where
  "piperead_turn pi addr n s = deref_pa pi (deref (myproc s) (\<lambda>pr.
     if pipe_empty (pipes s pi) \<and> pi_writeopen (pipes s pi) \<noteq> 0
     then if p_killed (ptable s pr) \<noteq> 0 then Ok (Return (- 1) s)
          else bnd (sleep_on (Pipe_nread pi) s) (\<lambda>s. Ok (Sleep () s))
     else bnd (piperead_loop pi pr addr (nat (sint n)) 0 s) (\<lambda>(i, s).
          Ok (Return (of_nat i) (wakeup (Pipe_nwrite pi) s)))))"

definition piperead ::
  "u64 \<Rightarrow> u64 \<Rightarrow> i32 \<Rightarrow> 'a file_state_scheme \<Rightarrow> (i32, unit, 'a file_state_scheme) turn res" where
  "piperead pi addr n s = piperead_turn pi addr n s"

definition piperead_resume ::
  "u64 \<Rightarrow> u64 \<Rightarrow> i32 \<Rightarrow> 'a file_state_scheme \<Rightarrow> (i32, unit, 'a file_state_scheme) turn res" where
  "piperead_resume pi addr n s = bnd (sleep_resume s) (piperead_turn pi addr n)"

section \<open>The ring buffer as a queue\<close>

definition pipe_contents :: "pipe \<Rightarrow> u8 list" where
  "pipe_contents q = ring_list PIPESIZE (pi_data q) (pi_nread q) (pi_nwrite q)"

lemma pipe_full_iff:
  assumes "length (pipe_contents q) \<le> PIPESIZE"
  shows "pipe_full q \<longleftrightarrow> length (pipe_contents q) = PIPESIZE"
proof -
  have "pi_nwrite q = pi_nread q + 512 \<longleftrightarrow> pi_nwrite q - pi_nread q = 512" by (simp add: algebra_simps)
  also have "\<dots> \<longleftrightarrow> unat (pi_nwrite q - pi_nread q) = 512" by (simp add: word_unat_eq_iff)
  finally show ?thesis by (simp add: pipe_full_def pipe_contents_def)
qed

lemma pipe_empty_iff: "pipe_empty q \<longleftrightarrow> pipe_contents q = []"
  by (simp add: pipe_empty_def pipe_contents_def)

lemma pipe_contents_put:
  "length (pipe_contents q) < PIPESIZE \<Longrightarrow> pipe_contents (pipe_put c q) = pipe_contents q @ [c]"
  unfolding pipe_contents_def pipe_put_def by (simp add: ring_list_put)

lemma pipe_contents_get:
  "pipe_contents q \<noteq> [] \<Longrightarrow> pipe_contents q = fst (pipe_get q) # pipe_contents (snd (pipe_get q))"
  by (simp add: pipe_contents_def pipe_get_def ring_list_get)

interpretation pq: fifo pipe_put pipe_get pipe_full pipe_empty pipe_contents PIPESIZE
  by unfold_locales (rule pipe_full_iff pipe_empty_iff pipe_contents_put pipe_contents_get; assumption)+

lemma pipe_put_fields [simp]:
  "pi_readopen (pipe_put c q) = pi_readopen q" "pi_writeopen (pipe_put c q) = pi_writeopen q"
  by (simp_all add: pipe_put_def)

section \<open>Writing\<close>

lemma upd_pipe_simps [simp]:
  "pipes (upd_pipe pi f s) = (pipes s)(pi := f (pipes s pi))" "ram (upd_pipe pi f s) = ram s"
  "ptable (upd_pipe pi f s) = ptable s" "kend (upd_pipe pi f s) = kend s" "refcount (upd_pipe pi f s) = refcount s"
  "freelist (upd_pipe pi f s) = freelist s" "myproc (upd_pipe pi f s) = myproc s" "cpus (upd_pipe pi f s) = cpus s"
  by (simp_all add: upd_pipe_def myproc_def mycpu_def cpuid_def)

lemma upd_pipe_upd_pipe: "upd_pipe pi f (upd_pipe pi g s) = upd_pipe pi (f \<circ> g) s"
  by (simp add: upd_pipe_def)

text \<open>What \<^verbatim>\<open>user_range\<close> and the table invariants depend on.\<close>

definition user_ok :: "u64 \<Rightarrow> u64 \<Rightarrow> nat \<Rightarrow> 'a kmem_state_scheme \<Rightarrow> bool" where
  "user_ok root va n s \<longleftrightarrow> pt_wf s root \<and> (\<exists>fl. kmem_inv s fl) \<and> user_range s root va n"

lemma user_ok_cong:
  assumes "ram s' = ram s" "kend s' = kend s" "refcount s' = refcount s" "freelist s' = freelist s"
  shows "user_ok root va n s' = user_ok root va n s"
  using assms unfolding user_ok_def pt_wf_def kmem_inv_def kmem_inv_on_def user_range_def sole_owner_def by simp

lemma user_ok_upd_pipe [simp]: "user_ok root va n (upd_pipe pi f s) = user_ok root va n s"
  by (rule user_ok_cong) simp_all

lemma user_ok_sub:
  assumes "user_ok root va n s" and "i + k \<le> n"
  shows "user_ok root (va + of_nat i) k s"
proof -
  have "unat va + n \<le> unat MAXVA" using assms(1) user_rangeD(1) unfolding user_ok_def by blast
  then have "unat (va + of_nat i) = unat va + i" using assms(2) by (subst unat_add_of_nat) simp_all
  then show ?thesis using assms user_range_sub unfolding user_ok_def by blast
qed

lemma copyin_byte:
  assumes "user_ok root va n s" and "i < n"
  shows "\<exists>d. copyin root dst (va + of_nat i) 1 s = Ok (0, d, s) \<and> d 0 = ram s (uaddr (ram s) root (va + of_nat i))"
proof -
  have "user_ok root (va + of_nat i) (unat (1 :: u64)) s" using user_ok_sub [OF assms(1), of i 1] assms(2) by simp
  then obtain fl where "pt_wf s root" "kmem_inv s fl" "user_range s root (va + of_nat i) (unat (1 :: u64))"
    unfolding user_ok_def by blast
  from copyin_loop_user [OF this, of dst 0] show ?thesis by (auto simp: copyin_def copied_in_def)
qed

text \<open>The user's bytes from \<open>i\<close> on.\<close>

definition user_bytes :: "mem \<Rightarrow> u64 \<Rightarrow> u64 \<Rightarrow> nat \<Rightarrow> nat \<Rightarrow> u8 list" where
  "user_bytes m root va i n = map (\<lambda>j. m (uaddr m root (va + of_nat (i + j)))) [0..<n]"

lemma user_bytes_Suc:
  "user_bytes m root va i (Suc n) = m (uaddr m root (va + of_nat i)) # user_bytes m root va (Suc i) n"
  by (simp add: user_bytes_def upt_rec [of 0 "Suc n"] map_Suc_upt [symmetric] comp_def ac_simps del: upt_Suc)

lemma pipewrite_loop_writes:
  fixes s :: "'a file_state_scheme"
  assumes "root = p_pagetable (ptable s pr)" and "room = PIPESIZE - length (pipe_contents (pipes s pi))"
    and ok: "user_ok root addr n s" "i + k = n" and op: "pi_readopen (pipes s pi) \<noteq> 0" "p_killed (ptable s pr) = 0"
    and cap: "length (pipe_contents (pipes s pi)) \<le> PIPESIZE"
  shows "\<exists>q. pipe_contents q = pipe_contents (pipes s pi) @ user_bytes (ram s) root addr i (min k room) \<and>
    pipewrite_loop pi pr addr k i s =
      (if k \<le> room then Ok (Return (of_nat n) (wakeup (Pipe_nread pi) (upd_pipe pi (\<lambda>_. q) s)))
       else bnd (sleep_on (Pipe_nwrite pi) (wakeup (Pipe_nread pi) (upd_pipe pi (\<lambda>_. q) s))) (\<lambda>s. Ok (Sleep (i + room) s)))"
  using assms
proof (induction k arbitrary: i s room root)
  case 0
  then show ?case
    by (intro exI [of _ "pipes s pi"]) (simp add: user_bytes_def upd_pipe_def)
next
  case (Suc k)
  let ?q = "pipes s pi" and ?r = "p_pagetable (ptable s pr)"
  show ?case
  proof (cases "length (pipe_contents ?q) = PIPESIZE")
    case True
    then have "pipe_full ?q" using pipe_full_iff by simp
    then show ?thesis using Suc.prems True
      by (intro exI [of _ ?q]) (simp add: user_bytes_def upd_pipe_def)
  next
    case False
    then have room: "length (pipe_contents ?q) < PIPESIZE" using Suc.prems by simp
    then have "\<not> pipe_full ?q" using pipe_full_iff [of ?q] by simp
    obtain d where d: "copyin ?r (\<lambda>_. 0) (addr + of_nat i) 1 s = Ok (0, d, s)" "d 0 = ram s (uaddr (ram s) ?r (addr + of_nat i))"
      using copyin_byte [of ?r addr n s i "\<lambda>_. 0"] Suc.prems by auto
    let ?s = "upd_pipe pi (pipe_put (d 0)) s"
    have c: "pipe_contents (pipes ?s pi) = pipe_contents ?q @ [d 0]" by (simp add: pipe_contents_put [OF room])
    have step: "pipewrite_loop pi pr addr (Suc k) i s = pipewrite_loop pi pr addr k (Suc i) ?s"
      using Suc.prems d \<open>\<not> pipe_full ?q\<close> by simp
    obtain q where q: "pipe_contents q = pipe_contents (pipes ?s pi) @
        user_bytes (ram s) ?r addr (Suc i) (min k (PIPESIZE - length (pipe_contents (pipes ?s pi))))"
      "pipewrite_loop pi pr addr k (Suc i) ?s =
      (if k \<le> PIPESIZE - length (pipe_contents (pipes ?s pi)) then Ok (Return (of_nat n) (wakeup (Pipe_nread pi) (upd_pipe pi (\<lambda>_. q) ?s)))
       else bnd (sleep_on (Pipe_nwrite pi) (wakeup (Pipe_nread pi) (upd_pipe pi (\<lambda>_. q) ?s)))
         (\<lambda>s. Ok (Sleep (Suc i + (PIPESIZE - length (pipe_contents (pipes ?s pi)))) s)))"
      using Suc.IH [of ?r ?s "PIPESIZE - length (pipe_contents (pipes ?s pi))" "Suc i"] Suc.prems room c by auto
    have r: "PIPESIZE - length (pipe_contents ?q) = Suc (PIPESIZE - length (pipe_contents (pipes ?s pi)))"
      unfolding c using room by simp
    show ?thesis
      unfolding step Suc.prems(1,2) r min_Suc_Suc user_bytes_Suc using q c d(2) r
      by (intro exI [of _ q]) (simp add: upd_pipe_def)
  qed
qed

section \<open>Reading\<close>

lemma copyout_byte:
  fixes s :: "'a kernel_state_scheme"
  assumes ok: "user_ok root va n s" and i: "i < n"
  defines "a \<equiv> uaddr (ram s) root (va + of_nat i)"
  shows "copyout root (va + of_nat i) (\<lambda>_. c) 1 s = Ok (0, s\<lparr>ram := (ram s)(a := c)\<rparr>)"
    and "user_ok root va n (s\<lparr>ram := (ram s)(a := c)\<rparr>)"
    and "uaddr ((ram s)(a := c)) root = uaddr (ram s) root"
proof -
  have "user_ok root (va + of_nat i) (unat (1 :: u64)) s" using user_ok_sub [OF ok, of i 1] i by simp
  then obtain fl where "pt_wf s root" "kmem_inv s fl" "user_range s root (va + of_nat i) (unat (1 :: u64))"
    unfolding user_ok_def by blast
  from copyout_loop_user [OF this, of "\<lambda>_. c" 0] obtain m where
    m: "copyout root (va + of_nat i) (\<lambda>_. c) 1 s = Ok (0, s\<lparr>ram := m\<rparr>)" "pt_wf (s\<lparr>ram := m\<rparr>) root"
      "kmem_inv (s\<lparr>ram := m\<rparr>) fl" "pte m root = pte (ram s) root" "nodes m root = nodes (ram s) root"
      "copied_out (ram s) root (va + of_nat i) (\<lambda>_. c) 1 m"
    by (auto simp: copyout_def)
  have eq: "m = (ram s)(a := c)" using m(6) by (auto simp: copied_out_def a_def fun_eq_iff)
  show "copyout root (va + of_nat i) (\<lambda>_. c) 1 s = Ok (0, s\<lparr>ram := (ram s)(a := c)\<rparr>)" using m(1) eq by simp
  have "user_range s root va n" using ok by (simp add: user_ok_def)
  then have "user_range (s\<lparr>ram := m\<rparr>) root va n" by (rule user_range_cong) (simp_all add: m)
  then show "user_ok root va n (s\<lparr>ram := (ram s)(a := c)\<rparr>)" using m eq by (auto simp: user_ok_def)
  show "uaddr ((ram s)(a := c)) root = uaddr (ram s) root"
    using m(4) unfolding eq by (simp add: uaddr_def upage_def fun_eq_iff)
qed

lemma piperead_loop_reads:
  fixes s :: "'a file_state_scheme"
  assumes "root = p_pagetable (ptable s pr)" and "cs = pipe_contents (pipes s pi)" and "j = min k (length cs)"
    and ok: "user_ok root addr n s" "i + k = n"
  shows "\<exists>q m. piperead_loop pi pr addr k i s = Ok (i + j, (upd_pipe pi (\<lambda>_. q) s)\<lparr>ram := m\<rparr>) \<and>
    pipe_contents q = drop j cs \<and> user_bytes m root addr i j = take j cs \<and>
    (\<forall>b. (\<forall>x<j. b \<noteq> uaddr (ram s) root (addr + of_nat (i + x))) \<longrightarrow> m b = ram s b) \<and>
    uaddr m root = uaddr (ram s) root"
  using assms
proof (induction k arbitrary: i s cs j root)
  case 0
  then show ?case
    by (intro exI [of _ "pipes s pi"] exI [of _ "ram s"]) (simp add: user_bytes_def upd_pipe_def)
next
  case (Suc k)
  let ?q = "pipes s pi" and ?r = "p_pagetable (ptable s pr)"
  show ?case
  proof (cases "pipe_contents ?q")
    case Nil
    then show ?thesis using Suc.prems
      by (intro exI [of _ ?q] exI [of _ "ram s"]) (simp add: user_bytes_def upd_pipe_def pipe_empty_iff)
  next
    case (Cons c cs')
    obtain q1 where q1: "pipe_get ?q = (c, q1)" "pipe_contents q1 = cs'"
      using pipe_contents_get [of ?q] Cons by (cases "pipe_get ?q") auto
    let ?a = "uaddr (ram s) ?r (addr + of_nat i)" and ?s1 = "upd_pipe pi (\<lambda>_. q1) s"
    let ?s2 = "?s1\<lparr>ram := (ram s)(?a := c)\<rparr>"
    have i: "i < n" and ok: "user_ok ?r addr n ?s1" using Suc.prems by simp_all
    note co = copyout_byte [OF ok i, of c, simplified]
    have step: "piperead_loop pi pr addr (Suc k) i s = piperead_loop pi pr addr k (Suc i) ?s2"
      using Cons q1 co(1) by (simp add: pipe_empty_iff)
    let ?j = "min k (length cs')"
    have sel: "ptable ?s2 = ptable s" "pipes ?s2 pi = q1" "ram ?s2 = (ram s)(?a := c)" by simp_all
    have "Suc i + k = n" using Suc.prems by simp
    from Suc.IH [of ?r ?s2 cs' ?j "Suc i", unfolded sel, OF refl q1(2) [symmetric] refl co(2) this, unfolded co(3)]
    obtain q m where qm: "piperead_loop pi pr addr k (Suc i) ?s2 = Ok (Suc i + ?j, (upd_pipe pi (\<lambda>_. q) ?s2)\<lparr>ram := m\<rparr>)"
      "pipe_contents q = drop ?j cs'" "user_bytes m ?r addr (Suc i) ?j = take ?j cs'"
      "\<forall>b. (\<forall>x<?j. b \<noteq> uaddr (ram s) ?r (addr + of_nat (Suc i + x))) \<longrightarrow> m b = ((ram s)(?a := c)) b"
      "uaddr m ?r = uaddr (ram s) ?r"
      by blast
    have "m ?a = c"
    proof -
      have "?a \<noteq> uaddr (ram s) ?r (addr + of_nat (Suc i + x))" if "x < ?j" for x
        using uaddr_inj_index [of s ?r addr n i "Suc i + x"] that Suc.prems by (auto simp: user_ok_def)
      then show ?thesis using qm(4) by simp
    qed
    moreover have "m b = ram s b" if "\<forall>x<Suc ?j. b \<noteq> uaddr (ram s) ?r (addr + of_nat (i + x))" for b
    proof -
      have "b \<noteq> ?a" using that [rule_format, of 0] by simp
      moreover have "b \<noteq> uaddr (ram s) ?r (addr + of_nat (Suc i + x))" if "x < ?j" for x
        using \<open>\<forall>x<Suc ?j. _\<close> [rule_format, of "Suc x"] that by simp
      ultimately show ?thesis using qm(4) by simp
    qed
    moreover have "j = Suc ?j" using Suc.prems Cons by simp
    ultimately show ?thesis
      using qm Suc.prems Cons step by (intro exI [of _ q] exI [of _ m]) (simp add: user_bytes_Suc upd_pipe_def)
  qed
qed

section \<open>The operations on a pipe\<close>

text \<open>
  C11: A write of \<open>n\<close> bytes to a pipe with an open read end appends the first bytes of the
  user's buffer to the pipe, as many as there is room for, and wakes the readers.  It returns
  \<open>n\<close> if all fitted; otherwise the pipe is full and the writer sleeps on \<^verbatim>\<open>&pi->nwrite\<close>
  with the number of bytes written so far.
\<close>

theorem pipewrite_appends:
  fixes s :: "'a file_state_scheme"
  assumes "myproc s = Some pr" and "pi \<noteq> 0" and "0 \<le> sint n"
    and "user_ok (p_pagetable (ptable s pr)) addr (nat (sint n)) s"
    and "pi_readopen (pipes s pi) \<noteq> 0" and "p_killed (ptable s pr) = 0"
    and "length (pipe_contents (pipes s pi)) \<le> PIPESIZE"
  shows "\<exists>q room. room = PIPESIZE - length (pipe_contents (pipes s pi)) \<and>
    pipe_contents q = pipe_contents (pipes s pi) @
      user_bytes (ram s) (p_pagetable (ptable s pr)) addr 0 (min (nat (sint n)) room) \<and>
    pipewrite pi addr n s =
      (if sint n \<le> int room then Ok (Return n (wakeup (Pipe_nread pi) (upd_pipe pi (\<lambda>_. q) s)))
       else bnd (sleep_on (Pipe_nwrite pi) (wakeup (Pipe_nread pi) (upd_pipe pi (\<lambda>_. q) s))) (\<lambda>s. Ok (Sleep room s)))"
proof -
  let ?room = "PIPESIZE - length (pipe_contents (pipes s pi))"
  have n: "of_nat (nat (sint n)) = n" using assms(3) by simp
  have "nat (sint n) \<le> ?room \<longleftrightarrow> sint n \<le> int ?room" using assms(3) by linarith
  moreover from pipewrite_loop_writes [OF refl refl assms(4) _ assms(5-7), of 0 "nat (sint n)"]
  obtain q where "pipe_contents q = pipe_contents (pipes s pi) @
      user_bytes (ram s) (p_pagetable (ptable s pr)) addr 0 (min (nat (sint n)) ?room)"
    "pipewrite_loop pi pr addr (nat (sint n)) 0 s =
      (if nat (sint n) \<le> ?room then Ok (Return n (wakeup (Pipe_nread pi) (upd_pipe pi (\<lambda>_. q) s)))
       else bnd (sleep_on (Pipe_nwrite pi) (wakeup (Pipe_nread pi) (upd_pipe pi (\<lambda>_. q) s))) (\<lambda>s. Ok (Sleep ?room s)))"
    unfolding n by auto
  ultimately show ?thesis using assms(1,2) by (intro exI [of _ q] exI [of _ ?room]) (simp add: pipewrite_def)
qed

definition pipe_user :: "u32 \<Rightarrow> 'a kmem_state_scheme \<Rightarrow> file_state" where
  "pipe_user w k = file_zero\<lparr>ram := ram k, kend := kend k, refcount := refcount k, freelist := freelist k,
     cpus := (\<lambda>_. idle_cpu\<lparr>c_proc := Some 0\<rparr>), ptable := (\<lambda>_. idle_proc\<lparr>p_pagetable := 0x87fff000\<rparr>),
     pipes := (\<lambda>_. \<lparr>pi_data = (\<lambda>i. of_nat i), pi_nread = 0, pi_nwrite = w, pi_readopen = 1, pi_writeopen = 1\<rparr>)\<rparr>"

lemma pipe_user_ok:
  "\<exists>k :: kernel_state. user_ok 0x87fff000 8 100 (pipe_user w k)"
proof -
  obtain k :: kernel_state and fl where k: "pt_wf k 0x87fff000 \<and> kmem_inv k fl \<and> user_range k 0x87fff000 8 100"
    using user_page_mapped by blast
  then have "user_ok 0x87fff000 8 100 k" by (auto simp: user_ok_def)
  moreover have "user_ok 0x87fff000 8 100 (pipe_user w k) = user_ok 0x87fff000 8 100 k"
    by (rule user_ok_cong) (simp_all add: pipe_user_def)
  ultimately show ?thesis by blast
qed

lemma pipe_user_simps:
  "myproc (pipe_user w k) = Some 0" "p_pagetable (ptable (pipe_user w k) i) = 0x87fff000"
  "p_killed (ptable (pipe_user w k) i) = 0" "pi_readopen (pipes (pipe_user w k) pi) = 1"
  by (simp_all add: pipe_user_def myproc_def mycpu_def idle_cpu_def idle_proc_def)

lemma pipe_user_contents:
  "pipe_contents (pipes (pipe_user 0 k) pi) = []" "pipe_contents (pipes (pipe_user 3 k) pi) = [0, 1, 2]"
proof -
  have "[0..<3] = [0, 1, 2 :: nat]" by (simp add: numeral_3_eq_3)
  then show "pipe_contents (pipes (pipe_user 0 k) pi) = []" "pipe_contents (pipes (pipe_user 3 k) pi) = [0, 1, 2]"
    by (simp_all add: pipe_user_def pipe_contents_def ring_list_def)
qed

theorem pipewrite_appends_witness:
  "\<exists>k :: kernel_state. \<exists>q. pipe_contents q = user_bytes (ram (pipe_user 0 k)) 0x87fff000 8 0 100 \<and>
    pipewrite 0x87ff0000 8 100 (pipe_user 0 k) =
      Ok (Return 100 (wakeup (Pipe_nread 0x87ff0000) (upd_pipe 0x87ff0000 (\<lambda>_. q) (pipe_user 0 k))))"
proof -
  obtain k :: kernel_state where k: "user_ok 0x87fff000 8 100 (pipe_user 0 k)" using pipe_user_ok by blast
  show ?thesis
    using pipewrite_appends [of "pipe_user 0 k" 0 "0x87ff0000" 100 8] k by (intro exI [of _ k]) (simp add: pipe_user_simps pipe_user_contents)
qed

text \<open>
  C12: A read of up to \<open>n\<close> bytes from a pipe that is not empty, or whose write end is closed,
  takes the oldest bytes out of the pipe, as many as there are, stores them in order in the
  user's buffer and nothing else in memory, wakes the writers and returns their number.  A read
  from an empty pipe with a writer sleeps without changing the pipe.
\<close>

theorem piperead_delivers:
  fixes s :: "'a file_state_scheme"
  assumes "myproc s = Some pr" and "pi \<noteq> 0" and "0 \<le> sint n"
    and "user_ok (p_pagetable (ptable s pr)) addr (nat (sint n)) s" and "p_killed (ptable s pr) = 0"
    and "root = p_pagetable (ptable s pr)" and "cs = pipe_contents (pipes s pi)" and "j = min (nat (sint n)) (length cs)"
  shows "if cs = [] \<and> pi_writeopen (pipes s pi) \<noteq> 0
    then piperead pi addr n s = bnd (sleep_on (Pipe_nread pi) s) (\<lambda>s. Ok (Sleep () s))
    else \<exists>q m. piperead pi addr n s = Ok (Return (of_nat j) (wakeup (Pipe_nwrite pi) ((upd_pipe pi (\<lambda>_. q) s)\<lparr>ram := m\<rparr>))) \<and>
      pipe_contents q = drop j cs \<and> user_bytes m root addr 0 j = take j cs \<and>
      (\<forall>b. (\<forall>x<j. b \<noteq> uaddr (ram s) root (addr + of_nat x)) \<longrightarrow> m b = ram s b)"
proof (cases "cs = [] \<and> pi_writeopen (pipes s pi) \<noteq> 0")
  case True
  then show ?thesis using assms by (simp add: piperead_def piperead_turn_def pipe_empty_iff)
next
  case False
  from piperead_loop_reads [OF assms(6,7,8), of addr "nat (sint n)" 0] assms(4,6) obtain q m where
    "piperead_loop pi pr addr (nat (sint n)) 0 s = Ok (j, (upd_pipe pi (\<lambda>_. q) s)\<lparr>ram := m\<rparr>)"
    "pipe_contents q = drop j cs" "user_bytes m root addr 0 j = take j cs"
    "\<forall>b. (\<forall>x<j. b \<noteq> uaddr (ram s) root (addr + of_nat x)) \<longrightarrow> m b = ram s b"
    by auto
  then show ?thesis using False assms(1,2,7) by (intro if_not_P [THEN iffD2])
      (auto simp: piperead_def piperead_turn_def pipe_empty_iff)
qed

theorem piperead_delivers_witness:
  "\<exists>k :: kernel_state. \<exists>q m. piperead 0x87ff0000 8 100 (pipe_user 3 k) =
      Ok (Return 3 (wakeup (Pipe_nwrite 0x87ff0000) ((upd_pipe 0x87ff0000 (\<lambda>_. q) (pipe_user 3 k))\<lparr>ram := m\<rparr>))) \<and>
    pipe_contents q = [] \<and> user_bytes m 0x87fff000 8 0 3 = [0, 1, 2]"
proof -
  obtain k :: kernel_state where k: "user_ok 0x87fff000 8 100 (pipe_user 3 k)" using pipe_user_ok by blast
  from piperead_delivers [of "pipe_user 3 k" 0 "0x87ff0000" 100 8 "0x87fff000" "[0, 1, 2]" 3] k
  obtain q m where "piperead 0x87ff0000 8 100 (pipe_user 3 k) =
      Ok (Return 3 (wakeup (Pipe_nwrite 0x87ff0000) ((upd_pipe 0x87ff0000 (\<lambda>_. q) (pipe_user 3 k))\<lparr>ram := m\<rparr>)))"
    "pipe_contents q = []" "user_bytes m 0x87fff000 8 0 3 = [0, 1, 2]"
    unfolding pipe_user_simps pipe_user_contents by (simp del: One_nat_def) blast
  then show ?thesis by blast
qed

text \<open>
  C10: A pipe refines a bounded first-in-first-out queue, also when its indices wrap around: for
  every sequence of reads and writes of single bytes, where a write to a full pipe and a read
  from an empty one do nothing, the bytes written so far are the bytes read so far followed by
  the bytes still in the pipe, which never holds more than \<^verbatim>\<open>PIPESIZE\<close>.
\<close>

theorem pipe_refines_queue:
  assumes "length (pipe_contents q) \<le> PIPESIZE" and "queue_run pipe_put pipe_get pipe_full pipe_empty ops q = (ins, outs, q')"
  shows "pipe_contents q @ ins = outs @ pipe_contents q' \<and> length (pipe_contents q') \<le> PIPESIZE"
  by (rule pq.run_fifo [OF assms])

definition wrapped_pipe :: pipe where
  "wrapped_pipe = \<lparr>pi_data = (\<lambda>_. 0), pi_nread = 0xffffffff, pi_nwrite = 0xffffffff, pi_readopen = 1, pi_writeopen = 1\<rparr>"

theorem pipe_refines_queue_witness:
  "\<exists>q'. queue_run pipe_put pipe_get pipe_full pipe_empty [Put 7, Put 8, Get, Put 9, Get] wrapped_pipe = ([7, 8, 9], [7, 8], q') \<and>
    pipe_contents q' = [9]"
proof -
  obtain q' where q': "queue_run pipe_put pipe_get pipe_full pipe_empty [Put 7, Put 8, Get, Put 9, Get] wrapped_pipe = ([7, 8, 9], [7, 8], q')"
    by (simp add: wrapped_pipe_def pipe_put_def pipe_get_def pipe_full_def pipe_empty_def)
  have "pipe_contents wrapped_pipe = []" by (simp add: wrapped_pipe_def pipe_contents_def)
  then show ?thesis using pipe_refines_queue [OF _ q'] q' by simp
qed

end
