(* ===== verification/File.thy ===== *)
theory File
  imports Pipe
begin

text \<open>
  Open files, \<^verbatim>\<open>kernel/file.c\<close>, and \<^verbatim>\<open>pipealloc\<close> of \<^verbatim>\<open>kernel/pipe.c\<close>, which makes two of
  them.
\<close>

abbreviation (input) NFILE :: nat where "NFILE \<equiv> 100"
abbreviation (input) NDEV :: int where "NDEV \<equiv> 10"

definition filealloc :: "'a file_state_scheme \<Rightarrow> nat option \<times> 'a file_state_scheme" where
  "filealloc s =
     (case first_slot (\<lambda>i. f_ref (ftable s i) = 0) NFILE of
        Some i \<Rightarrow> (Some i, upd_file i (\<lambda>f. f\<lparr>f_ref := 1\<rparr>) s)
      | None \<Rightarrow> (None, s))"

definition filedup :: "nat \<Rightarrow> 'a file_state_scheme \<Rightarrow> (nat \<times> 'a file_state_scheme) res" where
  "filedup i s =
     (if sint (f_ref (ftable s i)) < 1 then Panic ''filedup''
      else Ok (i, upd_file i (\<lambda>f. f\<lparr>f_ref := f_ref f + 1\<rparr>) s))"

definition fileclose :: "nat \<Rightarrow> 'a file_state_scheme \<Rightarrow> 'a file_state_scheme res" where
  "fileclose i s =
     (if sint (f_ref (ftable s i)) < 1 then Panic ''fileclose''
      else let s = upd_file i (\<lambda>f. f\<lparr>f_ref := f_ref f - 1\<rparr>) s
           in if 0 < sint (f_ref (ftable s i)) then Ok s
              else let ff = ftable s i;
                       s = upd_file i (\<lambda>f. f\<lparr>f_ref := 0, f_type := FD_NONE\<rparr>) s
                   in if f_type ff = FD_PIPE then pipeclose (f_pipe ff) (f_writable ff) s
                      else if f_type ff = FD_INODE \<or> f_type ff = FD_DEVICE
                      then bnd (begin_op s) (\<lambda>s. bnd (iput (f_ip ff) s) end_op)
                      else Ok s)"

text \<open>The bytes of a \<^verbatim>\<open>struct stat\<close>: four bytes of padding, which the code leaves unset and the
  model sets to zero, precede the size.\<close>

definition stat_bytes :: "stat \<Rightarrow> cptr" where
  "stat_bytes st =
     (let d = put32 (\<lambda>_. 0) 0 (st_dev st);
          d = put32 d 4 (st_ino st);
          d = put16 d 8 (st_type st);
          d = put16 d 10 (st_nlink st);
          d = put32 d 16 (ucast (st_size st))
      in put32 d 20 (ucast (drop_bit 32 (st_size st))))"

definition filestat :: "nat \<Rightarrow> u64 \<Rightarrow> 'a file_state_scheme \<Rightarrow> (i32 \<times> 'a file_state_scheme) res" where
  "filestat i addr s = deref (myproc s) (\<lambda>p.
     let f = ftable s i
     in if f_type f = FD_INODE \<or> f_type f = FD_DEVICE
        then bnd (ilock (f_ip f) s) (\<lambda>s.
             deref (f_ip f) (\<lambda>ip.
             let st = stati ip s
             in bnd (iunlock (f_ip f) s) (\<lambda>s.
                bnd (copyout (p_pagetable (ptable s p)) addr (stat_bytes st) 24 s) (\<lambda>(r, s).
                Ok (if sint r < 0 then - 1 else 0, s)))))
        else Ok (- 1, s))"

definition fileread :: "nat \<Rightarrow> u64 \<Rightarrow> i32 \<Rightarrow> 'a file_state_scheme \<Rightarrow> (i32 \<times> 'a file_state_scheme) res" where
  "fileread i addr n s =
     (let f = ftable s i
      in if f_readable f = 0 then Ok (- 1, s)
         else case f_type f of
           FD_PIPE \<Rightarrow> one_turn (piperead (f_pipe f) addr n s)
         | FD_DEVICE \<Rightarrow>
             if sint (f_major f) < 0 \<or> NDEV \<le> sint (f_major f) \<or>
                devsw_read s (nat (sint (f_major f))) = None then Ok (- 1, s)
             else bnd (one_turn (consoleread (User addr) n (\<lambda>_. 0, s))) (\<lambda>(r, _, s). Ok (r, s))
         | FD_INODE \<Rightarrow>
             bnd (ilock (f_ip f) s) (\<lambda>s.
             deref (f_ip f) (\<lambda>ip.
             bnd (readi ip (User addr) (f_off (ftable s i)) n (\<lambda>_. 0) s) (\<lambda>(r, _, s).
             let s = (if 0 < sint r then upd_file i (\<lambda>g. g\<lparr>f_off := f_off g + r\<rparr>) s else s)
             in bnd (iunlock (f_ip f) s) (\<lambda>s. Ok (r, s)))))
         | FD_NONE \<Rightarrow> Panic ''fileread'')"

text \<open>
  Writes to an inode go in pieces of at most \<^verbatim>\<open>max\<close> bytes, each in a transaction of its own;
  \<open>k\<close> is \<^verbatim>\<open>n - i\<close>.
\<close>

abbreviation (input) WRITE_MAX :: nat where "WRITE_MAX \<equiv> 3072"

function filewrite_loop ::
  "nat \<Rightarrow> u64 \<Rightarrow> nat \<Rightarrow> nat \<Rightarrow> 'a file_state_scheme \<Rightarrow> (nat \<times> 'a file_state_scheme) res" where
  "filewrite_loop i addr cnt k s =
     (if k = 0 then Ok (cnt, s)
      else let n1 = (if WRITE_MAX < k then WRITE_MAX else k); ip = f_ip (ftable s i)
           in bnd (begin_op s) (\<lambda>s.
              bnd (ilock ip s) (\<lambda>s.
              deref ip (\<lambda>j.
              bnd (writei j (User (addr + of_nat cnt)) (f_off (ftable s i)) (of_nat n1) (\<lambda>_. 0) s) (\<lambda>(r, s).
              let s = (if 0 < sint r then upd_file i (\<lambda>g. g\<lparr>f_off := f_off g + r\<rparr>) s else s)
              in bnd (iunlock ip s) (\<lambda>s.
                 bnd (end_op s) (\<lambda>s.
                 if r \<noteq> of_nat n1 then Ok (cnt, s)
                 else filewrite_loop i addr (cnt + n1) (k - n1) s)))))))"
  by pat_completeness auto
termination
  by (relation "measure (\<lambda>(i, addr, d, k, s). k)") auto

declare filewrite_loop.simps [simp del]

definition filewrite :: "nat \<Rightarrow> u64 \<Rightarrow> i32 \<Rightarrow> 'a file_state_scheme \<Rightarrow> (i32 \<times> 'a file_state_scheme) res" where
  "filewrite i addr n s =
     (let f = ftable s i
      in if f_writable f = 0 then Ok (- 1, s)
         else case f_type f of
           FD_PIPE \<Rightarrow> one_turn (pipewrite (f_pipe f) addr n s)
         | FD_DEVICE \<Rightarrow>
             if sint (f_major f) < 0 \<or> NDEV \<le> sint (f_major f) \<or>
                devsw_write s (nat (sint (f_major f))) = None then Ok (- 1, s)
             else consolewrite (User addr) n (\<lambda>_. 0) s
         | FD_INODE \<Rightarrow>
             bnd (filewrite_loop i addr 0 (nat (sint n)) s) (\<lambda>(i, s).
             Ok (if int i = sint n then n else - 1, s))
         | FD_NONE \<Rightarrow> Panic ''filewrite'')"

section \<open>Opening a pipe\<close>

definition close_opt :: "nat option \<Rightarrow> 'a file_state_scheme \<Rightarrow> 'a file_state_scheme res" where
  "close_opt f s = (case f of None \<Rightarrow> Ok s | Some i \<Rightarrow> fileclose i s)"

definition pipealloc_bad ::
  "nat option \<Rightarrow> nat option \<Rightarrow> 'a file_state_scheme \<Rightarrow> ((nat \<times> nat) option \<times> 'a file_state_scheme) res" where
  "pipealloc_bad f0 f1 s = bnd (close_opt f0 s) (\<lambda>s. bnd (close_opt f1 s) (\<lambda>s. Ok (None, s)))"

text \<open>\<open>None\<close> stands for the result \<open>-1\<close>.\<close>

definition pipealloc :: "'a file_state_scheme \<Rightarrow> ((nat \<times> nat) option \<times> 'a file_state_scheme) res" where
  "pipealloc s =
     (case filealloc s of
        (None, s) \<Rightarrow> pipealloc_bad None None s
      | (Some f0, s) \<Rightarrow>
          (case filealloc s of
             (None, s) \<Rightarrow> pipealloc_bad (Some f0) None s
           | (Some f1, s) \<Rightarrow>
               bnd (kalloc s) (\<lambda>(pi, s).
                 if pi = 0 then pipealloc_bad (Some f0) (Some f1) s
                 else let s = upd_pipe pi (\<lambda>q. q\<lparr>pi_readopen := 1, pi_writeopen := 1, pi_nwrite := 0, pi_nread := 0\<rparr>) s;
                          s = upd_file f0 (\<lambda>f. f\<lparr>f_type := FD_PIPE, f_readable := 1, f_writable := 0, f_pipe := pi\<rparr>) s;
                          s = upd_file f1 (\<lambda>f. f\<lparr>f_type := FD_PIPE, f_readable := 0, f_writable := 1, f_pipe := pi\<rparr>) s
                      in Ok (Some (f0, f1), s))))"

end
