(* ===== verification/Proc.thy ===== *)
theory Proc
  imports File
begin

text \<open>
  The life of a process, from \<^verbatim>\<open>kernel/proc.c\<close>: allocation with its page tables and
  kernel stack, \<^verbatim>\<open>fork\<close>, \<^verbatim>\<open>exit\<close>, \<^verbatim>\<open>wait\<close> and release.  The critical sections of
  \<^verbatim>\<open>wait_lock\<close> and of the process locks are steps; \<^verbatim>\<open>exit\<close> takes the process lock
  explicitly, because it gives up the CPU with the lock held.
\<close>

section \<open>Page tables of a process\<close>

definition proc_pagetable :: "nat \<Rightarrow> 'a kernel_state_scheme \<Rightarrow> (u64 \<times> 'a kernel_state_scheme) res" where
  "proc_pagetable p s =
     bnd (uvmcreate s) (\<lambda>(pagetable, s).
       if pagetable = 0 then Ok (0, s)
       else bnd (mappages pagetable TRAMPOLINE PGSIZE (trampoline s) 10 s) (\<lambda>(r, s).
         if sint r < 0 then bnd (uvmfree pagetable 0 s) (\<lambda>s. Ok (0, s))
         else bnd (mappages pagetable TRAPFRAME PGSIZE (p_trapframe (ptable s p)) 6 s) (\<lambda>(r, s).
           if sint r < 0
           then bnd (uvmunmap pagetable TRAMPOLINE 1 False s) (\<lambda>s.
                bnd (uvmfree pagetable 0 s) (\<lambda>s. Ok (0, s)))
           else Ok (pagetable, s))))"

definition proc_freepagetable :: "u64 \<Rightarrow> u64 \<Rightarrow> 'a kernel_state_scheme \<Rightarrow> 'a kernel_state_scheme res" where
  "proc_freepagetable pagetable sz s =
     bnd (uvmunmap pagetable TRAMPOLINE 1 False s) (\<lambda>s.
     bnd (uvmunmap pagetable TRAPFRAME 1 False s) (uvmfree pagetable sz))"

definition proc_freekernpgtbl :: "u64 \<Rightarrow> u64 \<Rightarrow> u64 \<Rightarrow> 'a kernel_state_scheme \<Rightarrow> 'a kernel_state_scheme res" where
  "proc_freekernpgtbl kern_pgtable kstack_addr sz s =
     bnd (uvmunmap kern_pgtable UART0 1 False s) (\<lambda>s.
     bnd (uvmunmap kern_pgtable VIRTIO0 1 False s) (\<lambda>s.
     bnd (uvmunmap kern_pgtable PLIC (0x400000 div PGSIZE) False s) (\<lambda>s.
     bnd (uvmunmap kern_pgtable KERNBASE ((etext s - KERNBASE) div PGSIZE) False s) (\<lambda>s.
     bnd (uvmunmap kern_pgtable (etext s) ((PHYSTOP - etext s) div PGSIZE) False s) (\<lambda>s.
     bnd (uvmunmap kern_pgtable TRAMPOLINE 1 False s) (\<lambda>s.
     uvmfreepage kern_pgtable kstack_addr 1 s))))))"

section \<open>Allocation and release\<close>

definition freeproc :: "nat \<Rightarrow> 'a kernel_state_scheme \<Rightarrow> 'a kernel_state_scheme res" where
  "freeproc i s =
     bnd (if p_trapframe (ptable s i) \<noteq> 0 then kfree (p_trapframe (ptable s i)) s else Ok s) (\<lambda>s.
     let s = upd_proc i (\<lambda>p. p\<lparr>p_trapframe := 0\<rparr>) s
     in bnd (if p_pagetable (ptable s i) \<noteq> 0
             then proc_freepagetable (p_pagetable (ptable s i)) (p_sz (ptable s i)) s else Ok s) (\<lambda>s.
        bnd (if p_kerntable (ptable s i) \<noteq> 0
             then proc_freekernpgtbl (p_kerntable (ptable s i)) (p_kstack (ptable s i)) (p_sz (ptable s i)) s
             else Ok s) (\<lambda>s.
        Ok (upd_proc i (\<lambda>p. p\<lparr>p_kerntable := 0, p_pagetable := 0, p_sz := 0, p_pid := 0, p_parent := None,
              p_name := (p_name p)(0 := 0), p_chan := Null_chan, p_killed := 0, p_xstate := 0,
              p_state := UNUSED\<rparr>) s))))"

text \<open>\<open>forkret\<close> is the address of the function a new process starts in.\<close>

definition allocproc_found ::
  "u64 \<Rightarrow> nat \<Rightarrow> 'a kernel_state_scheme \<Rightarrow> (nat option \<times> 'a kernel_state_scheme) res" where
  "allocproc_found forkret i s =
     (case allocpid s of (pid, s) \<Rightarrow>
      let s = upd_proc i (\<lambda>p. p\<lparr>p_pid := pid, p_state := USED\<rparr>) s
      in bnd (kalloc s) (\<lambda>(tf, s).
         let s = upd_proc i (\<lambda>p. p\<lparr>p_trapframe := tf\<rparr>) s
         in if tf = 0 then bnd (freeproc i s) (\<lambda>s. Ok (None, s))
            else let s = upd_proc i (\<lambda>p. p\<lparr>p_trapalarm := (p_trapalarm p)\<lparr>ta_interval := 0, ta_handler := 0,
                       ta_ticks := 0, ta_state := 0\<rparr>\<rparr>) s
                 in bnd (kvminit_kern s) (\<lambda>(kt, s).
                    let s = upd_proc i (\<lambda>p. p\<lparr>p_kerntable := kt\<rparr>) s
                    in if kt = 0 then bnd (freeproc i s) (\<lambda>s. Ok (None, s))
                       else bnd (kalloc s) (\<lambda>(pa, s).
                         if pa = 0 then Panic ''kern_pagetable kalloc''
                         else let va = TRAMPOLINE - 2 * PGSIZE
                              in bnd (mappages_ignore kt va PGSIZE pa 6 s) (\<lambda>s.
                                 let s = upd_proc i (\<lambda>p. p\<lparr>p_kstack := va\<rparr>) s
                                 in bnd (proc_pagetable i s) (\<lambda>(pt, s).
                                    let s = upd_proc i (\<lambda>p. p\<lparr>p_pagetable := pt\<rparr>) s
                                    in if pt = 0 then bnd (freeproc i s) (\<lambda>s. Ok (None, s))
                                       else Ok (Some i, upd_proc i (\<lambda>p. p\<lparr>p_context :=
                                              \<lparr>ctx_ra = forkret, ctx_sp = p_kstack p + PGSIZE,
                                               ctx_s = replicate 12 0\<rparr>\<rparr>) s)))))))"

definition allocproc :: "u64 \<Rightarrow> 'a kernel_state_scheme \<Rightarrow> (nat option \<times> 'a kernel_state_scheme) res" where
  "allocproc forkret s =
     (case first_slot (\<lambda>i. p_state (ptable s i) = UNUSED) NPROC of
        None \<Rightarrow> Ok (None, s)
      | Some i \<Rightarrow> allocproc_found forkret i s)"

definition initcode :: "u8 list" where
  "initcode =
    [0x17, 0x05, 0x00, 0x00, 0x13, 0x05, 0x45, 0x02,
     0x97, 0x05, 0x00, 0x00, 0x93, 0x85, 0x35, 0x02,
     0x93, 0x08, 0x70, 0x00, 0x73, 0x00, 0x00, 0x00,
     0x93, 0x08, 0x20, 0x00, 0x73, 0x00, 0x00, 0x00,
     0xef, 0xf0, 0x9f, 0xff, 0x2f, 0x69, 0x6e, 0x69,
     0x74, 0x00, 0x00, 0x24, 0x00, 0x00, 0x00, 0x00,
     0x00, 0x00, 0x00, 0x00]"

definition userinit :: "u64 \<Rightarrow> 'a fs_state_scheme \<Rightarrow> 'a fs_state_scheme res" where
  "userinit forkret s =
     bnd (allocproc forkret s) (\<lambda>(np, s).
     let s = s\<lparr>initproc := np\<rparr>
     in deref np (\<lambda>p.
        bnd (uvminit (p_pagetable (ptable s p)) (cbytes initcode) 52 s) (\<lambda>s.
        let s = upd_proc p (\<lambda>q. q\<lparr>p_sz := PGSIZE\<rparr>) s;
            s = tf_set TF_epc 0 p s;
            s = tf_set TF_sp PGSIZE p s;
            s = upd_proc p (\<lambda>q. q\<lparr>p_name := safestrcpy (p_name q) 0 (lit ''initcode'') 16\<rparr>) s
        in bnd (namei (map of_char ''/'') s) (\<lambda>(ip, s).
           Ok (upd_proc p (\<lambda>q. q\<lparr>p_cwd := ip, p_state := RUNNABLE\<rparr>) s)))))"

definition growproc :: "i32 \<Rightarrow> 'a kernel_state_scheme \<Rightarrow> (i32 \<times> 'a kernel_state_scheme) res" where
  "growproc n s = deref (myproc s) (\<lambda>p.
     let pt = p_pagetable (ptable s p); sz = ucast (p_sz (ptable s p)) :: u32
     in if 0 < sint n
        then bnd (uvmalloc pt (ucast sz) (ucast (sz + n)) s) (\<lambda>(r, s).
             let sz = ucast r :: u32
             in if sz = 0 then Ok (- 1, s) else Ok (0, upd_proc p (\<lambda>q. q\<lparr>p_sz := ucast sz\<rparr>) s))
        else if sint n < 0
        then bnd (uvmdealloc pt (ucast sz) (ucast (sz + n)) s) (\<lambda>(r, s).
             Ok (0, upd_proc p (\<lambda>q. q\<lparr>p_sz := ucast (ucast r :: u32)\<rparr>) s))
        else Ok (0, upd_proc p (\<lambda>q. q\<lparr>p_sz := ucast sz\<rparr>) s))"

section \<open>Fork, exit and wait\<close>

definition copy_trapframe :: "nat \<Rightarrow> nat \<Rightarrow> 'a kernel_state_scheme \<Rightarrow> 'a kernel_state_scheme" where
  "copy_trapframe np p s =
     s\<lparr>ram := move_obj (ram s) (p_trapframe (ptable s np)) (ram s) (p_trapframe (ptable s p)) TF_size\<rparr>"

definition dup_files :: "nat \<Rightarrow> nat \<Rightarrow> 'a file_state_scheme \<Rightarrow> 'a file_state_scheme res" where
  "dup_files p np s =
     fold_res (\<lambda>fd s.
       case p_ofile (ptable s p) fd of
         None \<Rightarrow> Ok s
       | Some f \<Rightarrow> bnd (filedup f s) (\<lambda>(f, s).
           Ok (upd_proc np (\<lambda>q. q\<lparr>p_ofile := (p_ofile q)(fd := Some f)\<rparr>) s))) [0..<NOFILE] s"

definition fork :: "u64 \<Rightarrow> 'a file_state_scheme \<Rightarrow> (i32 \<times> 'a file_state_scheme) res" where
  "fork forkret s = deref (myproc s) (\<lambda>p.
     bnd (allocproc forkret s) (\<lambda>(np, s).
       case np of
         None \<Rightarrow> Ok (- 1, s)
       | Some np \<Rightarrow>
           bnd (uvmcopy (p_pagetable (ptable s p)) (p_pagetable (ptable s np)) (p_sz (ptable s p)) s) (\<lambda>(r, s).
             if sint r < 0 then bnd (freeproc np s) (\<lambda>s. Ok (- 1, s))
             else let s = upd_proc np (\<lambda>q. q\<lparr>p_sz := p_sz (ptable s p)\<rparr>) s;
                      s = copy_trapframe np p s;
                      s = tf_set TF_a0 0 np s
                  in bnd (dup_files p np s) (\<lambda>s.
                     bnd (idup (p_cwd (ptable s p)) s) (\<lambda>(cwd, s).
                     let s = upd_proc np (\<lambda>q. q\<lparr>p_cwd := cwd,
                           p_name := safestrcpy (p_name q) 0 (p_name (ptable s p)) 16,
                           p_mask := p_mask (ptable s p)\<rparr>) s;
                         pid = p_pid (ptable s np);
                         s = upd_proc np (\<lambda>q. q\<lparr>p_parent := Some p\<rparr>) s
                     in Ok (pid, upd_proc np (\<lambda>q. q\<lparr>p_state := RUNNABLE\<rparr>) s))))))"

definition proc_chan :: "nat option \<Rightarrow> chan" where
  "proc_chan p = (case p of None \<Rightarrow> Null_chan | Some i \<Rightarrow> Proc_chan i)"

definition reparent :: "nat \<Rightarrow> 'a kernel_state_scheme \<Rightarrow> 'a kernel_state_scheme" where
  "reparent p s =
     fold (\<lambda>i s. if p_parent (ptable s i) = Some p
                 then wakeup (proc_chan (initproc s)) (upd_proc i (\<lambda>q. q\<lparr>p_parent := initproc s\<rparr>) s)
                 else s) [0..<NPROC] s"

definition close_files :: "nat \<Rightarrow> 'a file_state_scheme \<Rightarrow> 'a file_state_scheme res" where
  "close_files p s =
     fold_res (\<lambda>fd s.
       case p_ofile (ptable s p) fd of
         None \<Rightarrow> Ok s
       | Some f \<Rightarrow> bnd (fileclose f s) (\<lambda>s.
           Ok (upd_proc p (\<lambda>q. q\<lparr>p_ofile := (p_ofile q)(fd := None)\<rparr>) s))) [0..<NOFILE] s"

text \<open>\<^verbatim>\<open>exit\<close> does not return: its result is the state in which the CPU is handed over.\<close>

definition exit :: "i32 \<Rightarrow> 'a file_state_scheme \<Rightarrow> 'a file_state_scheme res" where
  "exit status s = deref (myproc s) (\<lambda>p.
     if Some p = initproc s then Panic ''init exiting''
     else bnd (close_files p s) (\<lambda>s.
          bnd (begin_op s) (\<lambda>s.
          bnd (iput (p_cwd (ptable s p)) s) (\<lambda>s.
          bnd (end_op s) (\<lambda>s.
          let s = upd_proc p (\<lambda>q. q\<lparr>p_cwd := None\<rparr>) s;
              s = reparent p s;
              s = wakeup (proc_chan (p_parent (ptable s p))) s
          in bnd (acquire_proc p s) (\<lambda>s.
             let s = upd_proc p (\<lambda>q. q\<lparr>p_xstate := status, p_state := ZOMBIE\<rparr>) s
             in bnd (sched_enter s) (\<lambda>(_, s). Ok s)))))))"

text \<open>One turn of \<^verbatim>\<open>wait\<close>: the scan of the table, up to the result or the sleep.\<close>

definition wait_turn ::
  "u64 \<Rightarrow> 'a kernel_state_scheme \<Rightarrow> (i32, unit, 'a kernel_state_scheme) turn res" where
  "wait_turn addr s = deref (myproc s) (\<lambda>p.
     case first_slot (\<lambda>i. p_parent (ptable s i) = Some p \<and> p_state (ptable s i) = ZOMBIE) NPROC of
       Some np \<Rightarrow>
         let pid = p_pid (ptable s np)
         in bnd (if addr \<noteq> 0
                 then copyout (p_pagetable (ptable s p)) addr (put32 (\<lambda>_. 0) 0 (p_xstate (ptable s np))) 4 s
                 else Ok (0, s)) (\<lambda>(r, s).
            if sint r < 0 then Ok (Return (- 1) s)
            else bnd (freeproc np s) (\<lambda>s. Ok (Return pid s)))
     | None \<Rightarrow>
         if (\<forall>i<NPROC. p_parent (ptable s i) \<noteq> Some p) \<or> p_killed (ptable s p) \<noteq> 0 then Ok (Return (- 1) s)
         else bnd (sleep_on (Proc_chan p) s) (\<lambda>s. Ok (Sleep () s)))"

definition wait :: "u64 \<Rightarrow> 'a kernel_state_scheme \<Rightarrow> (i32, unit, 'a kernel_state_scheme) turn res" where
  "wait addr s = wait_turn addr s"

definition wait_resume :: "u64 \<Rightarrow> 'a kernel_state_scheme \<Rightarrow> (i32, unit, 'a kernel_state_scheme) turn res" where
  "wait_resume addr s = bnd (sleep_resume s) (wait_turn addr)"

end
