(* ===== verification/Sysargs.thy ===== *)
theory Sysargs
  imports Proc
begin

text \<open>
  The arguments of system calls, from \<^verbatim>\<open>kernel/syscall.c\<close>: the registers of the trapframe
  and the strings and words of user memory they point to.  \<^verbatim>\<open>argint\<close> and \<^verbatim>\<open>argaddr\<close> always
  return 0, so their model has only the value they store.
\<close>

definition fetchaddr :: "u64 \<Rightarrow> 'a kernel_state_scheme \<Rightarrow> (i32 \<times> u64 \<times> 'a kernel_state_scheme) res" where
  "fetchaddr addr s = deref (myproc s) (\<lambda>p.
     if p_sz (ptable s p) \<le> addr \<or> p_sz (ptable s p) < addr + 8 then Ok (- 1, 0, s)
     else bnd (copyin (p_pagetable (ptable s p)) (\<lambda>_. 0) addr 8 s) (\<lambda>(r, d, s).
          if r \<noteq> 0 then Ok (- 1, 0, s) else Ok (0, bytes8 (d 0) (d 1) (d 2) (d 3) (d 4) (d 5) (d 6) (d 7), s)))"

text \<open>\<^verbatim>\<open>strlen\<close> of a buffer without a zero does not return.\<close>

definition fetchstr :: "u64 \<Rightarrow> cptr \<Rightarrow> i32 \<Rightarrow> 'a kernel_state_scheme \<Rightarrow> (i32 \<times> cptr \<times> 'a kernel_state_scheme) res" where
  "fetchstr addr buf mx s = deref (myproc s) (\<lambda>p.
     bnd (copyinstr (p_pagetable (ptable s p)) buf addr (scast mx) s) (\<lambda>(err, buf, s).
       if sint err < 0 then Ok (err, buf, s)
       else case strlen buf of None \<Rightarrow> Waits ''strlen'' | Some n \<Rightarrow> Ok (of_nat n, buf, s)))"

definition argraw :: "nat \<Rightarrow> 'a kernel_state_scheme \<Rightarrow> u64 res" where
  "argraw n s = deref (myproc s) (\<lambda>p.
     if n = 0 then Ok (tf_get TF_a0 p s)
     else if n = 1 then Ok (tf_get TF_a1 p s)
     else if n = 2 then Ok (tf_get TF_a2 p s)
     else if n = 3 then Ok (tf_get TF_a3 p s)
     else if n = 4 then Ok (tf_get TF_a4 p s)
     else if n = 5 then Ok (tf_get TF_a5 p s)
     else Panic ''argraw'')"

definition argint :: "nat \<Rightarrow> 'a kernel_state_scheme \<Rightarrow> i32 res" where
  "argint n s = bnd (argraw n s) (\<lambda>v. Ok (ucast v))"

definition argaddr :: "nat \<Rightarrow> 'a kernel_state_scheme \<Rightarrow> u64 res" where
  "argaddr n s = argraw n s"

definition argstr :: "nat \<Rightarrow> cptr \<Rightarrow> i32 \<Rightarrow> 'a kernel_state_scheme \<Rightarrow> (i32 \<times> cptr \<times> 'a kernel_state_scheme) res" where
  "argstr n buf mx s = bnd (argaddr n s) (\<lambda>addr. fetchstr addr buf mx s)"

text \<open>A path argument: the string in a buffer of \<^verbatim>\<open>MAXPATH\<close> bytes, or \<open>None\<close> on error.\<close>

abbreviation (input) MAXPATH :: nat where "MAXPATH \<equiv> 128"

definition argpath :: "nat \<Rightarrow> 'a kernel_state_scheme \<Rightarrow> (u8 list option \<times> 'a kernel_state_scheme) res" where
  "argpath n s =
     bnd (argstr n (\<lambda>_. 0) 128 s) (\<lambda>(r, buf, s).
       Ok (if sint r < 0 then None else Some (cstr MAXPATH buf), s))"

end
