(* ===== verification/Exec.thy ===== *)
theory Exec
  imports Sysargs
begin

text \<open>
  Program loading, \<^verbatim>\<open>kernel/exec.c\<close>.  The ELF header and a program header are read into
  local objects and their fields taken at the offsets of the structures.
\<close>

abbreviation (input) MAXARG :: nat where "MAXARG \<equiv> 32"
abbreviation (input) ELF_MAGIC :: u32 where "ELF_MAGIC \<equiv> 0x464C457F"

definition get64 :: "cptr \<Rightarrow> nat \<Rightarrow> u64" where
  "get64 d k = bytes8 (d k) (d (k + 1)) (d (k + 2)) (d (k + 3)) (d (k + 4)) (d (k + 5)) (d (k + 6)) (d (k + 7))"

record elfhdr =
  elf_magic :: u32
  elf_entry :: u64
  elf_phoff :: u64
  elf_phnum :: u16

record proghdr =
  ph_type :: u32
  ph_off :: u64
  ph_vaddr :: u64
  ph_filesz :: u64
  ph_memsz :: u64

definition elf_of :: "cptr \<Rightarrow> elfhdr" where
  "elf_of d = \<lparr>elf_magic = get32 d 0, elf_entry = get64 d 24, elf_phoff = get64 d 32, elf_phnum = get16 d 56\<rparr>"

definition ph_of :: "cptr \<Rightarrow> proghdr" where
  "ph_of d = \<lparr>ph_type = get32 d 0, ph_off = get64 d 8, ph_vaddr = get64 d 16, ph_filesz = get64 d 32, ph_memsz = get64 d 40\<rparr>"

section \<open>Segments\<close>

function loadseg_loop ::
  "u64 \<Rightarrow> u64 \<Rightarrow> nat \<Rightarrow> u32 \<Rightarrow> nat \<Rightarrow> nat \<Rightarrow> 'a fs_state_scheme \<Rightarrow> (i32 \<times> 'a fs_state_scheme) res" where
  "loadseg_loop pagetable va ip offset sz i s =
     (if i < sz
      then bnd (walkaddr pagetable (va + of_nat i) s) (\<lambda>(pa, s).
        if pa = 0 then Panic ''loadseg: address should exist''
        else let n = (if sz - i < 4096 then sz - i else 4096)
             in bnd (readi ip (Kram pa) (offset + of_nat i) (of_nat n) (\<lambda>_. 0) s) (\<lambda>(r, _, s).
                if r \<noteq> of_nat n then Ok (- 1, s) else loadseg_loop pagetable va ip offset sz (i + 4096) s))
      else Ok (0, s))"
  by pat_completeness auto
termination
  by (relation "measure (\<lambda>(pt, va, ip, offset, sz, i, s). sz - i)") auto

declare loadseg_loop.simps [simp del]

definition loadseg ::
  "u64 \<Rightarrow> u64 \<Rightarrow> nat \<Rightarrow> u32 \<Rightarrow> u32 \<Rightarrow> 'a fs_state_scheme \<Rightarrow> (i32 \<times> 'a fs_state_scheme) res" where
  "loadseg pagetable va ip offset sz s = loadseg_loop pagetable va ip offset (unat sz) 0 s"

text \<open>The loop over the \<open>k\<close> program headers from \<open>off\<close>; \<open>False\<close> stands for \<^verbatim>\<open>goto bad\<close>.\<close>

fun load_program ::
  "nat \<Rightarrow> i32 \<Rightarrow> nat \<Rightarrow> u64 \<Rightarrow> u64 \<Rightarrow> 'a fs_state_scheme \<Rightarrow> (bool \<times> u64 \<times> 'a fs_state_scheme) res" where
  "load_program 0 off ip pagetable sz s = Ok (True, sz, s)"
| "load_program (Suc k) off ip pagetable sz s =
     bnd (readi ip (Kobj 0) off 56 (\<lambda>_. 0) s) (\<lambda>(r, d, s).
       let ph = ph_of d
       in if r \<noteq> 56 then Ok (False, sz, s)
          else if ph_type ph \<noteq> 1 then load_program k (off + 56) ip pagetable sz s
          else if ph_memsz ph < ph_filesz ph then Ok (False, sz, s)
          else if ph_vaddr ph + ph_memsz ph < ph_vaddr ph then Ok (False, sz, s)
          else bnd (uvmalloc pagetable sz (ph_vaddr ph + ph_memsz ph) s) (\<lambda>(sz1, s).
            if sz1 = 0 then Ok (False, sz, s)
            else if ph_vaddr ph mod PGSIZE \<noteq> 0 then Ok (False, sz1, s)
            else bnd (loadseg pagetable (ph_vaddr ph) ip (ucast (ph_off ph)) (ucast (ph_filesz ph)) s) (\<lambda>(r, s).
              if sint r < 0 then Ok (False, sz1, s)
              else load_program k (off + 56) ip pagetable sz1 s)))"

section \<open>The stack\<close>

definition align_sp :: "u64 \<Rightarrow> u64" where
  "align_sp sp = sp - sp mod 16"

text \<open>
  The argument strings, at the kernel addresses \<open>argv\<close>; the result has the addresses of the
  copies in \<open>ustack\<close>, or \<open>None\<close> for \<^verbatim>\<open>goto bad\<close>.
\<close>

fun push_args ::
  "u64 list \<Rightarrow> u64 \<Rightarrow> u64 \<Rightarrow> u64 \<Rightarrow> u64 list \<Rightarrow> 'a kernel_state_scheme \<Rightarrow>
    ((u64 list \<times> u64) option \<times> 'a kernel_state_scheme) res" where
  "push_args [] pagetable stackbase sp ustack s = Ok (Some (ustack, sp), s)"
| "push_args (a # argv) pagetable stackbase sp ustack s =
     (if MAXARG \<le> length ustack then Ok (None, s)
      else case strlen (\<lambda>i. ram s (a + of_nat i)) of
        None \<Rightarrow> Waits ''strlen''
      | Some n \<Rightarrow>
          let sp = align_sp (sp - (of_nat n + 1))
          in if sp < stackbase then Ok (None, s)
             else bnd (copyout pagetable sp (\<lambda>i. ram s (a + of_nat i)) (of_nat n + 1) s) (\<lambda>(r, s).
               if sint r < 0 then Ok (None, s)
               else push_args argv pagetable stackbase sp (ustack @ [sp]) s))"

definition words_bytes :: "u64 list \<Rightarrow> cptr" where
  "words_bytes ws i = (if i div 8 < length ws then byte_at (i mod 8) (ws ! (i div 8)) else 0)"

text \<open>The part of the path after its last slash.\<close>

fun after_slash :: "u8 list \<Rightarrow> u8 list \<Rightarrow> u8 list" where
  "after_slash l [] = l"
| "after_slash l (c # cs) = after_slash (if c = 47 then cs else l) cs"

section \<open>Exec\<close>

definition exec_bad ::
  "u64 \<Rightarrow> u64 \<Rightarrow> nat option \<Rightarrow> 'a fs_state_scheme \<Rightarrow> (i32 \<times> 'a fs_state_scheme) res" where
  "exec_bad pagetable sz ip s =
     bnd (if pagetable \<noteq> 0 then proc_freepagetable pagetable sz s else Ok s) (\<lambda>s.
     bnd (if ip \<noteq> None then bnd (iunlockput ip s) end_op else Ok s) (\<lambda>s. Ok (- 1, s)))"

text \<open>From the user stack on.\<close>

definition exec_stack ::
  "u8 list \<Rightarrow> u64 list \<Rightarrow> u64 \<Rightarrow> u64 \<Rightarrow> u64 \<Rightarrow> 'a fs_state_scheme \<Rightarrow> (i32 \<times> 'a fs_state_scheme) res" where
  "exec_stack path argv entry_pc pagetable sz s = deref (myproc s) (\<lambda>p.
     let oldsz = p_sz (ptable s p); sz = PGROUNDUP sz
     in bnd (uvmalloc pagetable sz (sz + 2 * PGSIZE) s) (\<lambda>(sz1, s).
        if sz1 = 0 then exec_bad pagetable sz None s
        else bnd (uvmclear pagetable (sz1 - 2 * PGSIZE) s) (\<lambda>s.
             let stackbase = sz1 - PGSIZE
             in bnd (push_args argv pagetable stackbase sz1 [] s) (\<lambda>(u, s).
                case u of
                  None \<Rightarrow> exec_bad pagetable sz1 None s
                | Some (ustack, sp) \<Rightarrow>
                    let argc = length ustack;
                        sp = align_sp (sp - (of_nat argc + 1) * 8)
                    in if sp < stackbase then exec_bad pagetable sz1 None s
                       else bnd (copyout pagetable sp (words_bytes (ustack @ [0])) ((of_nat argc + 1) * 8) s) (\<lambda>(r, s).
                         if sint r < 0 then exec_bad pagetable sz1 None s
                         else let s = tf_set TF_a1 sp p s;
                                  s = upd_proc p (\<lambda>q. q\<lparr>p_name := safestrcpy (p_name q) 0 (cbytes (after_slash path path)) 16\<rparr>) s;
                                  oldpagetable = p_pagetable (ptable s p);
                                  s = upd_proc p (\<lambda>q. q\<lparr>p_pagetable := pagetable, p_sz := sz1\<rparr>) s;
                                  s = tf_set TF_epc entry_pc p s;
                                  s = tf_set TF_sp sp p s
                              in bnd (proc_freepagetable oldpagetable oldsz s) (\<lambda>s.
                                 bnd (if p_pid (ptable s p) = 1 then pgtblprint s else Ok s) (\<lambda>s.
                                 Ok (of_nat argc, s))))))))"

definition exec :: "u8 list \<Rightarrow> u64 list \<Rightarrow> 'a fs_state_scheme \<Rightarrow> (i32 \<times> 'a fs_state_scheme) res" where
  "exec path argv s = deref (myproc s) (\<lambda>p.
     bnd (begin_op s) (\<lambda>s.
     bnd (namei path s) (\<lambda>(ip, s).
       case ip of
         None \<Rightarrow> bnd (end_op s) (\<lambda>s. Ok (- 1, s))
       | Some i \<Rightarrow>
           bnd (ilock ip s) (\<lambda>s.
           bnd (readi i (Kobj 0) 0 64 (\<lambda>_. 0) s) (\<lambda>(r, d, s).
             let elf = elf_of d
             in if r \<noteq> 64 \<or> elf_magic elf \<noteq> ELF_MAGIC then exec_bad 0 0 ip s
                else bnd (proc_pagetable p s) (\<lambda>(pagetable, s).
                  if pagetable = 0 then exec_bad 0 0 ip s
                  else bnd (load_program (unat (elf_phnum elf)) (ucast (elf_phoff elf)) i pagetable 0 s) (\<lambda>(ok, sz, s).
                    if \<not> ok then exec_bad pagetable sz ip s
                    else bnd (iunlockput ip s) (\<lambda>s.
                         bnd (end_op s) (exec_stack path argv (elf_entry elf) pagetable sz)))))))))"

end
