(* ===== verification/Sysfile.thy ===== *)
theory Sysfile
  imports Exec
begin

text \<open>
  The file-system calls, \<^verbatim>\<open>kernel/sysfile.c\<close>, and \<^verbatim>\<open>sys_symlink\<close> of
  \<^verbatim>\<open>kernel/syscallv2.c\<close>.  Results are the 64-bit words that the dispatcher stores in
  \<open>a0\<close>; a C \<^verbatim>\<open>int\<close> is sign-extended.
\<close>

type_synonym 's sysres = "(u64 \<times> 's) res"

section \<open>Descriptors\<close>

text \<open>The descriptor and the file, or \<open>None\<close> for the result \<open>-1\<close>.\<close>

definition argfd :: "nat \<Rightarrow> 'a kernel_state_scheme \<Rightarrow> (nat \<times> nat) option res" where
  "argfd n s =
     bnd (argint n s) (\<lambda>fd.
       if sint fd < 0 \<or> int NOFILE \<le> sint fd then Ok None
       else deref (myproc s) (\<lambda>p.
         case p_ofile (ptable s p) (nat (sint fd)) of
           None \<Rightarrow> Ok None
         | Some f \<Rightarrow> Ok (Some (nat (sint fd), f))))"

definition fdalloc :: "nat \<Rightarrow> 'a kernel_state_scheme \<Rightarrow> (nat option \<times> 'a kernel_state_scheme) res" where
  "fdalloc f s = deref (myproc s) (\<lambda>p.
     case first_slot (\<lambda>fd. p_ofile (ptable s p) fd = None) NOFILE of
       Some fd \<Rightarrow> Ok (Some fd, upd_proc p (\<lambda>q. q\<lparr>p_ofile := (p_ofile q)(fd := Some f)\<rparr>) s)
     | None \<Rightarrow> Ok (None, s))"

definition clear_fd :: "nat \<Rightarrow> nat \<Rightarrow> 'a kernel_state_scheme \<Rightarrow> 'a kernel_state_scheme" where
  "clear_fd p fd s = upd_proc p (\<lambda>q. q\<lparr>p_ofile := (p_ofile q)(fd := None)\<rparr>) s"

definition sys_dup :: "'a file_state_scheme \<Rightarrow> 'a file_state_scheme sysres" where
  "sys_dup s =
     bnd (argfd 0 s) (\<lambda>a. case a of
       None \<Rightarrow> Ok (- 1, s)
     | Some (_, f) \<Rightarrow>
         bnd (fdalloc f s) (\<lambda>(fd, s). case fd of
           None \<Rightarrow> Ok (- 1, s)
         | Some fd \<Rightarrow> bnd (filedup f s) (\<lambda>(_, s). Ok (of_nat fd, s))))"

definition sys_read :: "'a file_state_scheme \<Rightarrow> 'a file_state_scheme sysres" where
  "sys_read s =
     bnd (argfd 0 s) (\<lambda>a. case a of
       None \<Rightarrow> Ok (- 1, s)
     | Some (_, f) \<Rightarrow>
         bnd (argint 2 s) (\<lambda>n. bnd (argaddr 1 s) (\<lambda>p.
         bnd (fileread f p n s) (\<lambda>(r, s). Ok (scast r, s)))))"

definition sys_write :: "'a file_state_scheme \<Rightarrow> 'a file_state_scheme sysres" where
  "sys_write s =
     bnd (argfd 0 s) (\<lambda>a. case a of
       None \<Rightarrow> Ok (- 1, s)
     | Some (_, f) \<Rightarrow>
         bnd (argint 2 s) (\<lambda>n. bnd (argaddr 1 s) (\<lambda>p.
         bnd (filewrite f p n s) (\<lambda>(r, s). Ok (scast r, s)))))"

definition sys_close :: "'a file_state_scheme \<Rightarrow> 'a file_state_scheme sysres" where
  "sys_close s =
     bnd (argfd 0 s) (\<lambda>a. case a of
       None \<Rightarrow> Ok (- 1, s)
     | Some (fd, f) \<Rightarrow> deref (myproc s) (\<lambda>p.
         bnd (fileclose f (clear_fd p fd s)) (\<lambda>s. Ok (0, s))))"

definition sys_fstat :: "'a file_state_scheme \<Rightarrow> 'a file_state_scheme sysres" where
  "sys_fstat s =
     bnd (argfd 0 s) (\<lambda>a. case a of
       None \<Rightarrow> Ok (- 1, s)
     | Some (_, f) \<Rightarrow> bnd (argaddr 1 s) (\<lambda>st. bnd (filestat f st s) (\<lambda>(r, s). Ok (scast r, s))))"

section \<open>Links\<close>

text \<open>End the transaction with the given result.\<close>

definition end_with :: "u64 \<Rightarrow> 'a fs_state_scheme \<Rightarrow> 'a fs_state_scheme sysres" where
  "end_with r s = bnd (end_op s) (\<lambda>s. Ok (r, s))"

definition add_nlink :: "i16 \<Rightarrow> nat \<Rightarrow> 'a fs_state_scheme \<Rightarrow> 'a fs_state_scheme res" where
  "add_nlink d i s = iupdate i (upd_inode i (\<lambda>x. x\<lparr>i_nlink := i_nlink x + d\<rparr>) s)"

definition link_bad :: "nat \<Rightarrow> 'a fs_state_scheme \<Rightarrow> 'a fs_state_scheme sysres" where
  "link_bad i s =
     bnd (ilock (Some i) s) (\<lambda>s.
     bnd (add_nlink (- 1) i s) (\<lambda>s.
     bnd (iunlockput (Some i) s) (end_with (- 1))))"

definition link_new :: "u8 list \<Rightarrow> nat \<Rightarrow> 'a fs_state_scheme \<Rightarrow> 'a fs_state_scheme sysres" where
  "link_new new i s =
     bnd (nameiparent new (\<lambda>_. 0) s) (\<lambda>(dp, name, s). case dp of
       None \<Rightarrow> link_bad i s
     | Some d \<Rightarrow>
         bnd (ilock dp s) (\<lambda>s.
         bnd (if i_dev (inodes s d) \<noteq> i_dev (inodes s i) then Ok (- 1, s)
              else dirlink d name (i_inum (inodes s i)) s) (\<lambda>(r, s).
         if sint r < 0 then bnd (iunlockput dp s) (link_bad i)
         else bnd (iunlockput dp s) (\<lambda>s.
              bnd (iput (Some i) s) (end_with 0)))))"

definition sys_link :: "'a fs_state_scheme \<Rightarrow> 'a fs_state_scheme sysres" where
  "sys_link s =
     bnd (argpath 0 s) (\<lambda>(old, s). case old of
       None \<Rightarrow> Ok (- 1, s)
     | Some old \<Rightarrow>
         bnd (argpath 1 s) (\<lambda>(new, s). case new of
           None \<Rightarrow> Ok (- 1, s)
         | Some new \<Rightarrow>
             bnd (begin_op s) (\<lambda>s.
             bnd (namei old s) (\<lambda>(ip, s). case ip of
               None \<Rightarrow> end_with (- 1) s
             | Some i \<Rightarrow>
                 bnd (ilock ip s) (\<lambda>s.
                   if i_type (inodes s i) = T_DIR then bnd (iunlockput ip s) (end_with (- 1))
                   else bnd (add_nlink 1 i s) (\<lambda>s.
                        bnd (iunlock ip s) (link_new new i)))))))"

text \<open>\<open>sz\<close> is \<^verbatim>\<open>dp->size\<close>, as in the other loops over entries.\<close>

function isdirempty_loop ::
  "nat \<Rightarrow> nat \<Rightarrow> nat \<Rightarrow> cptr \<Rightarrow> 'a fs_state_scheme \<Rightarrow> (bool \<times> 'a fs_state_scheme) res" where
  "isdirempty_loop dp sz off de s =
     (if off < sz
      then bnd (read_dirent dp (of_nat off) de s) (\<lambda>(r, de, s).
        if r \<noteq> 16 then Panic ''isdirempty: readi''
        else if de_inum de \<noteq> 0 then Ok (False, s)
        else isdirempty_loop dp sz (off + DIRENT) de s)
      else Ok (True, s))"
  by pat_completeness auto
termination
  by (relation "measure (\<lambda>(dp, sz, off, de, s). sz - off)") auto

declare isdirempty_loop.simps [simp del]

definition isdirempty :: "nat \<Rightarrow> 'a fs_state_scheme \<Rightarrow> (bool \<times> 'a fs_state_scheme) res" where
  "isdirempty dp s = isdirempty_loop dp (unat (i_size (inodes s dp))) 32 (\<lambda>_. 0) s"

definition unlink_bad :: "nat \<Rightarrow> 'a fs_state_scheme \<Rightarrow> 'a fs_state_scheme sysres" where
  "unlink_bad d s = bnd (iunlockput (Some d) s) (end_with (- 1))"

definition unlink_entry :: "nat \<Rightarrow> nat \<Rightarrow> u32 \<Rightarrow> 'a fs_state_scheme \<Rightarrow> 'a fs_state_scheme sysres" where
  "unlink_entry d i off s =
     bnd (writei d (Kobj 0) off 16 (\<lambda>_. 0) s) (\<lambda>(r, s).
       if r \<noteq> 16 then Panic ''unlink: writei''
       else bnd (if i_type (inodes s i) = T_DIR then add_nlink (- 1) d s else Ok s) (\<lambda>s.
            bnd (iunlockput (Some d) s) (\<lambda>s.
            bnd (add_nlink (- 1) i s) (\<lambda>s.
            bnd (iunlockput (Some i) s) (end_with 0)))))"

definition sys_unlink :: "'a fs_state_scheme \<Rightarrow> 'a fs_state_scheme sysres" where
  "sys_unlink s =
     bnd (argpath 0 s) (\<lambda>(path, s). case path of
       None \<Rightarrow> Ok (- 1, s)
     | Some path \<Rightarrow>
         bnd (begin_op s) (\<lambda>s.
         bnd (nameiparent path (\<lambda>_. 0) s) (\<lambda>(dp, name, s). case dp of
           None \<Rightarrow> end_with (- 1) s
         | Some d \<Rightarrow>
             bnd (ilock dp s) (\<lambda>s.
               if namecmp name (lit ''.'') = 0 \<or> namecmp name (lit ''..'') = 0 then unlink_bad d s
               else bnd (dirlookup d name s) (\<lambda>(ip, off, s). case ip of
                 None \<Rightarrow> unlink_bad d s
               | Some i \<Rightarrow>
                   bnd (ilock ip s) (\<lambda>s.
                     if sint (i_nlink (inodes s i)) < 1 then Panic ''unlink: nlink < 1''
                     else bnd (if i_type (inodes s i) = T_DIR then isdirempty i s else Ok (True, s)) (\<lambda>(e, s).
                       if \<not> e then bnd (iunlockput ip s) (unlink_bad d)
                       else unlink_entry d i off s)))))))"

section \<open>Creating and opening\<close>

definition create_dots :: "nat \<Rightarrow> nat \<Rightarrow> 'a fs_state_scheme \<Rightarrow> 'a fs_state_scheme res" where
  "create_dots d i s =
     bnd (add_nlink 1 d s) (\<lambda>s.
     bnd (dirlink i (lit ''.'') (i_inum (inodes s i)) s) (\<lambda>(r, s).
     if sint r < 0 then Panic ''create dots''
     else bnd (dirlink i (lit ''..'') (i_inum (inodes s d)) s) (\<lambda>(r, s).
          if sint r < 0 then Panic ''create dots'' else Ok s)))"

definition create_new ::
  "nat \<Rightarrow> cptr \<Rightarrow> i16 \<Rightarrow> i16 \<Rightarrow> i16 \<Rightarrow> 'a fs_state_scheme \<Rightarrow> (nat option \<times> 'a fs_state_scheme) res" where
  "create_new d name type major minor s =
     bnd (ialloc (i_dev (inodes s d)) type s) (\<lambda>(ip, s). case ip of
       None \<Rightarrow> Panic ''create: ialloc''
     | Some i \<Rightarrow>
         bnd (ilock ip s) (\<lambda>s.
         bnd (iupdate i (upd_inode i (\<lambda>x. x\<lparr>i_major := major, i_minor := minor, i_nlink := 1\<rparr>) s)) (\<lambda>s.
         bnd (if type = T_DIR then create_dots d i s else Ok s) (\<lambda>s.
         bnd (dirlink d name (i_inum (inodes s i)) s) (\<lambda>(r, s).
         if sint r < 0 then Panic ''create: dirlink''
         else bnd (iunlockput (Some d) s) (\<lambda>s. Ok (ip, s)))))))"

definition create ::
  "u8 list \<Rightarrow> i16 \<Rightarrow> i16 \<Rightarrow> i16 \<Rightarrow> 'a fs_state_scheme \<Rightarrow> (nat option \<times> 'a fs_state_scheme) res" where
  "create path type major minor s =
     bnd (nameiparent path (\<lambda>_. 0) s) (\<lambda>(dp, name, s). case dp of
       None \<Rightarrow> Ok (None, s)
     | Some d \<Rightarrow>
         bnd (ilock dp s) (\<lambda>s.
         bnd (dirlookup d name s) (\<lambda>(ip, _, s). case ip of
           Some i \<Rightarrow>
             bnd (iunlockput dp s) (\<lambda>s.
             bnd (ilock ip s) (\<lambda>s.
               if type = T_FILE \<and> (i_type (inodes s i) = T_FILE \<or> i_type (inodes s i) = T_DEVICE) then Ok (ip, s)
               else bnd (iunlockput ip s) (\<lambda>s. Ok (None, s))))
         | None \<Rightarrow> create_new d name type major minor s)))"

text \<open>
  The target of a symbolic link is read into a buffer of \<^verbatim>\<open>MAXPATH\<close> bytes and used as a
  path; with no zero among them the code would read past the buffer.  The loop has \<open>cnt\<close>
  rounds left; \<open>None\<close> stands for a return of \<open>-1\<close>, with the transaction ended.
\<close>

definition link_target :: "cptr \<Rightarrow> u8 list res" where
  "link_target d = (if \<exists>i<MAXPATH. d i = 0 then Ok (cstr MAXPATH d) else Panic ''path overrun'')"

fun follow_links :: "nat \<Rightarrow> nat \<Rightarrow> 'a fs_state_scheme \<Rightarrow> (nat option \<times> 'a fs_state_scheme) res" where
  "follow_links 0 i s = Ok (Some i, s)"
| "follow_links (Suc cnt) i s =
     bnd (readi i (Kobj 0) 0 128 (\<lambda>_. 0) s) (\<lambda>(r, d, s).
       if r \<noteq> 128 then bnd (iunlockput (Some i) s) (\<lambda>s. bnd (end_op s) (\<lambda>s. Ok (None, s)))
       else bnd (iunlockput (Some i) s) (\<lambda>s.
            bnd (link_target d) (\<lambda>target.
            bnd (namei target s) (\<lambda>(ip, s). case ip of
              None \<Rightarrow> bnd (end_op s) (\<lambda>s. Ok (None, s))
            | Some j \<Rightarrow>
                bnd (ilock ip s) (\<lambda>s.
                  if i_type (inodes s j) \<noteq> T_SYMLINK then Ok (Some j, s)
                  else if cnt = 0 then bnd (iunlockput ip s) (\<lambda>s. bnd (end_op s) (\<lambda>s. Ok (None, s)))
                  else follow_links cnt j s)))))"

abbreviation (input) O_WRONLY :: i32 where "O_WRONLY \<equiv> 0x001"
abbreviation (input) O_RDWR :: i32 where "O_RDWR \<equiv> 0x002"
abbreviation (input) O_NOFOLLOW :: i32 where "O_NOFOLLOW \<equiv> 0x004"
abbreviation (input) O_CREATE :: i32 where "O_CREATE \<equiv> 0x200"
abbreviation (input) O_TRUNC :: i32 where "O_TRUNC \<equiv> 0x400"
abbreviation (input) MAXDEPTH :: nat where "MAXDEPTH \<equiv> 10"

definition open_fail :: "nat \<Rightarrow> 'a fs_state_scheme \<Rightarrow> 'a fs_state_scheme sysres" where
  "open_fail i s = bnd (iunlockput (Some i) s) (end_with (- 1))"

text \<open>The inode, locked, or \<open>None\<close> for a return of \<open>-1\<close>.\<close>

definition open_inode :: "u8 list \<Rightarrow> i32 \<Rightarrow> 'a fs_state_scheme \<Rightarrow> (nat option \<times> 'a fs_state_scheme) res" where
  "open_inode path omode s =
     (if omode AND O_CREATE \<noteq> 0
      then bnd (create path T_FILE 0 0 s) (\<lambda>(ip, s). case ip of
             None \<Rightarrow> bnd (end_op s) (\<lambda>s. Ok (None, s))
           | Some _ \<Rightarrow> Ok (ip, s))
      else bnd (namei path s) (\<lambda>(ip, s). case ip of
             None \<Rightarrow> bnd (end_op s) (\<lambda>s. Ok (None, s))
           | Some i \<Rightarrow>
               bnd (ilock ip s) (\<lambda>s.
                 if i_type (inodes s i) = T_DIR \<and> omode \<noteq> 0
                 then bnd (open_fail i s) (\<lambda>(_, s). Ok (None, s)) else Ok (ip, s))))"

definition open_file :: "i32 \<Rightarrow> nat \<Rightarrow> 'a file_state_scheme \<Rightarrow> 'a file_state_scheme sysres" where
  "open_file omode i s =
     (case filealloc s of
        (None, s) \<Rightarrow> open_fail i s
      | (Some f, s) \<Rightarrow>
          bnd (fdalloc f s) (\<lambda>(fd, s). case fd of
            None \<Rightarrow> bnd (fileclose f s) (open_fail i)
          | Some fd \<Rightarrow>
              let ino = inodes s i;
                  s = (if i_type ino = T_DEVICE
                       then upd_file f (\<lambda>x. x\<lparr>f_type := FD_DEVICE, f_major := i_major ino\<rparr>) s
                       else upd_file f (\<lambda>x. x\<lparr>f_type := FD_INODE, f_off := 0\<rparr>) s);
                  s = upd_file f (\<lambda>x. x\<lparr>f_ip := Some i,
                        f_readable := (if omode AND O_WRONLY = 0 then 1 else 0),
                        f_writable := (if omode AND O_WRONLY \<noteq> 0 \<or> omode AND O_RDWR \<noteq> 0 then 1 else 0)\<rparr>) s
              in bnd (if omode AND O_TRUNC \<noteq> 0 \<and> i_type ino = T_FILE then itrunc i s else Ok s) (\<lambda>s.
                 bnd (iunlock (Some i) s) (end_with (of_nat fd)))))"

definition sys_open :: "'a file_state_scheme \<Rightarrow> 'a file_state_scheme sysres" where
  "sys_open s =
     bnd (argpath 0 s) (\<lambda>(path, s). case path of
       None \<Rightarrow> Ok (- 1, s)
     | Some path \<Rightarrow>
         bnd (argint 1 s) (\<lambda>omode.
         bnd (begin_op s) (\<lambda>s.
         bnd (open_inode path omode s) (\<lambda>(ip, s). case ip of
           None \<Rightarrow> Ok (- 1, s)
         | Some i \<Rightarrow>
             bnd (if i_type (inodes s i) = T_SYMLINK \<and> omode AND O_NOFOLLOW = 0
                  then follow_links MAXDEPTH i s else Ok (Some i, s)) (\<lambda>(ip, s). case ip of
               None \<Rightarrow> Ok (- 1, s)
             | Some i \<Rightarrow>
                 let ino = inodes s i
                 in if i_type ino = T_DEVICE \<and> (sint (i_major ino) < 0 \<or> NDEV \<le> sint (i_major ino))
                    then open_fail i s else open_file omode i s)))))"

definition made :: "nat option \<Rightarrow> 'a fs_state_scheme \<Rightarrow> 'a fs_state_scheme sysres" where
  "made ip s = (case ip of None \<Rightarrow> end_with (- 1) s | Some _ \<Rightarrow> bnd (iunlockput ip s) (end_with 0))"

definition sys_mkdir :: "'a fs_state_scheme \<Rightarrow> 'a fs_state_scheme sysres" where
  "sys_mkdir s =
     bnd (begin_op s) (\<lambda>s.
     bnd (argpath 0 s) (\<lambda>(path, s). case path of
       None \<Rightarrow> end_with (- 1) s
     | Some path \<Rightarrow> bnd (create path T_DIR 0 0 s) (\<lambda>(ip, s). made ip s)))"

definition sys_mknod :: "'a fs_state_scheme \<Rightarrow> 'a fs_state_scheme sysres" where
  "sys_mknod s =
     bnd (begin_op s) (\<lambda>s.
     bnd (argpath 0 s) (\<lambda>(path, s). case path of
       None \<Rightarrow> end_with (- 1) s
     | Some path \<Rightarrow>
         bnd (argint 1 s) (\<lambda>major. bnd (argint 2 s) (\<lambda>minor.
         bnd (create path T_DEVICE (ucast major) (ucast minor) s) (\<lambda>(ip, s). made ip s)))))"

definition sys_symlink :: "'a fs_state_scheme \<Rightarrow> 'a fs_state_scheme sysres" where
  "sys_symlink s =
     bnd (argstr 0 (\<lambda>_. 0) 128 s) (\<lambda>(r, target, s).
       if sint r < 0 then Ok (- 1, s)
       else bnd (argpath 1 s) (\<lambda>(path, s). case path of
         None \<Rightarrow> Ok (- 1, s)
       | Some path \<Rightarrow>
           bnd (begin_op s) (\<lambda>s.
           bnd (create path T_SYMLINK 0 0 s) (\<lambda>(ip, s). case ip of
             None \<Rightarrow> end_with (- 1) s
           | Some i \<Rightarrow>
               bnd (writei i (Kobj 0) 0 128 target s) (\<lambda>(r, s).
                 bnd (iunlockput ip s) (end_with (if sint r < 128 then - 1 else 0)))))))"

definition sys_chdir :: "'a fs_state_scheme \<Rightarrow> 'a fs_state_scheme sysres" where
  "sys_chdir s = deref (myproc s) (\<lambda>p.
     bnd (begin_op s) (\<lambda>s.
     bnd (argpath 0 s) (\<lambda>(path, s). case path of
       None \<Rightarrow> end_with (- 1) s
     | Some path \<Rightarrow>
         bnd (namei path s) (\<lambda>(ip, s). case ip of
           None \<Rightarrow> end_with (- 1) s
         | Some i \<Rightarrow>
             bnd (ilock ip s) (\<lambda>s.
               if i_type (inodes s i) \<noteq> T_DIR then bnd (iunlockput ip s) (end_with (- 1))
               else bnd (iunlock ip s) (\<lambda>s.
                    bnd (iput (p_cwd (ptable s p)) s) (\<lambda>s.
                    bnd (end_op s) (\<lambda>s. Ok (0, upd_proc p (\<lambda>q. q\<lparr>p_cwd := ip\<rparr>) s)))))))))"

section \<open>Exec and pipe\<close>

text \<open>
  The argument pages: \<open>k\<close> entries of \<^verbatim>\<open>argv\<close> are left; \<open>False\<close> stands for
  \<^verbatim>\<open>goto bad\<close>, with the pages allocated so far.
\<close>

definition store_str :: "u64 \<Rightarrow> cptr \<Rightarrow> nat \<Rightarrow> 'a kmem_state_scheme \<Rightarrow> 'a kmem_state_scheme" where
  "store_str a d n s = s\<lparr>ram := move_obj (ram s) a d 0 n\<rparr>"

fun fetch_argv ::
  "nat \<Rightarrow> u64 \<Rightarrow> u64 list \<Rightarrow> 'a kernel_state_scheme \<Rightarrow> (bool \<times> u64 list \<times> 'a kernel_state_scheme) res" where
  "fetch_argv 0 uargv argv s = Ok (False, argv, s)"
| "fetch_argv (Suc k) uargv argv s =
     bnd (fetchaddr (uargv + 8 * of_nat (length argv)) s) (\<lambda>(r, uarg, s).
       if sint r < 0 then Ok (False, argv, s)
       else if uarg = 0 then Ok (True, argv, s)
       else bnd (kalloc s) (\<lambda>(a, s).
         if a = 0 then Ok (False, argv, s)
         else bnd (fetchstr uarg (\<lambda>i. ram s (a + of_nat i)) 4096 s) (\<lambda>(r, d, s).
           let s = store_str a d 4096 s
           in if sint r < 0 then Ok (False, argv @ [a], s)
              else fetch_argv k uargv (argv @ [a]) s)))"

definition sys_exec :: "'a fs_state_scheme \<Rightarrow> 'a fs_state_scheme sysres" where
  "sys_exec s =
     bnd (argpath 0 s) (\<lambda>(path, s). case path of
       None \<Rightarrow> Ok (- 1, s)
     | Some path \<Rightarrow>
         bnd (argaddr 1 s) (\<lambda>uargv.
         bnd (fetch_argv MAXARG uargv [] s) (\<lambda>(ok, argv, s).
         bnd (if ok then exec path argv s else Ok (- 1, s)) (\<lambda>(ret, s).
         bnd (fold_res kfree argv s) (\<lambda>s. Ok (scast ret, s))))))"

definition pipe_fail :: "nat \<Rightarrow> nat \<Rightarrow> 'a file_state_scheme \<Rightarrow> 'a file_state_scheme sysres" where
  "pipe_fail rfile wfile s = bnd (fileclose rfile s) (\<lambda>s. bnd (fileclose wfile s) (\<lambda>s. Ok (- 1, s)))"

definition copyout_int :: "u64 \<Rightarrow> u64 \<Rightarrow> i32 \<Rightarrow> 'a kernel_state_scheme \<Rightarrow> (i32 \<times> 'a kernel_state_scheme) res" where
  "copyout_int pagetable addr v s = copyout pagetable addr (put32 (\<lambda>_. 0) 0 v) 4 s"

definition sys_pipe :: "'a file_state_scheme \<Rightarrow> 'a file_state_scheme sysres" where
  "sys_pipe s = deref (myproc s) (\<lambda>p.
     bnd (argaddr 0 s) (\<lambda>fdarray.
     bnd (pipealloc s) (\<lambda>(fs, s). case fs of
       None \<Rightarrow> Ok (- 1, s)
     | Some (rfile, wfile) \<Rightarrow>
         bnd (fdalloc rfile s) (\<lambda>(fd0, s). case fd0 of
           None \<Rightarrow> pipe_fail rfile wfile s
         | Some fd0 \<Rightarrow>
             bnd (fdalloc wfile s) (\<lambda>(fd1, s). case fd1 of
               None \<Rightarrow> pipe_fail rfile wfile (clear_fd p fd0 s)
             | Some fd1 \<Rightarrow>
                 let pt = p_pagetable (ptable s p)
                 in bnd (copyout_int pt fdarray (of_nat fd0) s) (\<lambda>(r, s).
                    bnd (if sint r < 0 then Ok (r, s) else copyout_int pt (fdarray + 4) (of_nat fd1) s) (\<lambda>(r, s).
                    if sint r < 0 then pipe_fail rfile wfile (clear_fd p fd1 (clear_fd p fd0 s))
                    else Ok (0, s))))))))"

end
