(* ===== verification/Sysproc.thy ===== *)
theory Sysproc
  imports Sysfile
begin

text \<open>
  The process calls, \<^verbatim>\<open>kernel/sysproc.c\<close>, and the calls of \<^verbatim>\<open>kernel/syscallv2.c\<close> that
  trace, alarm and report.
\<close>

section \<open>Processes\<close>

definition sys_exit :: "'a file_state_scheme \<Rightarrow> 'a file_state_scheme res" where
  "sys_exit s = bnd (argint 0 s) (\<lambda>n. exit n s)"

definition sys_getpid :: "'a kernel_state_scheme \<Rightarrow> u64 res" where
  "sys_getpid s = deref (myproc s) (\<lambda>p. Ok (scast (p_pid (ptable s p))))"

definition sys_fork :: "u64 \<Rightarrow> 'a file_state_scheme \<Rightarrow> 'a file_state_scheme sysres" where
  "sys_fork forkret s = bnd (fork forkret s) (\<lambda>(r, s). Ok (scast r, s))"

definition sys_wait :: "'a kernel_state_scheme \<Rightarrow> 'a kernel_state_scheme sysres" where
  "sys_wait s = bnd (argaddr 0 s) (\<lambda>p. bnd (one_turn (wait p s)) (\<lambda>(r, s). Ok (scast r, s)))"

definition sys_sbrk :: "'a kernel_state_scheme \<Rightarrow> 'a kernel_state_scheme sysres" where
  "sys_sbrk s =
     bnd (argint 0 s) (\<lambda>n. deref (myproc s) (\<lambda>p.
       let oldsz = ucast (p_sz (ptable s p)) :: i32;
           newsz = scast (oldsz + n) :: u64
       in if MAXVA \<le> newsz \<or> newsz = 0 then Ok (scast oldsz, s)
          else bnd (if sint n < 0 then uvmdealloc (p_pagetable (ptable s p)) (scast oldsz) newsz s
                    else Ok (newsz, s)) (\<lambda>(r, s).
               if r \<noteq> newsz then Ok (- 1, s)
               else Ok (scast oldsz, upd_proc p (\<lambda>q. q\<lparr>p_sz := newsz\<rparr>) s))))"

text \<open>A turn of \<^verbatim>\<open>sys_sleep\<close>, which started at tick \<open>ticks0\<close>; the comparison is unsigned.\<close>

definition sleep_turn ::
  "i32 \<Rightarrow> u32 \<Rightarrow> 'a kernel_state_scheme \<Rightarrow> (u64, u32, 'a kernel_state_scheme) turn res" where
  "sleep_turn n ticks0 s =
     (if ticks s - ticks0 < n
      then deref (myproc s) (\<lambda>p.
        if p_killed (ptable s p) \<noteq> 0 then Ok (Return (- 1) s)
        else bnd (sleep_on Ticks_chan s) (\<lambda>s. Ok (Sleep ticks0 s)))
      else Ok (Return 0 s))"

definition sys_sleep :: "'a kernel_state_scheme \<Rightarrow> (u64, u32, 'a kernel_state_scheme) turn res" where
  "sys_sleep s = bnd (argint 0 s) (\<lambda>n. sleep_turn n (ticks s) s)"

definition sys_sleep_resume ::
  "i32 \<Rightarrow> u32 \<Rightarrow> 'a kernel_state_scheme \<Rightarrow> (u64, u32, 'a kernel_state_scheme) turn res" where
  "sys_sleep_resume n ticks0 s = bnd (sleep_resume s) (sleep_turn n ticks0)"

definition sys_kill :: "'a kernel_state_scheme \<Rightarrow> 'a kernel_state_scheme sysres" where
  "sys_kill s = bnd (argint 0 s) (\<lambda>pid. case kill pid s of (r, s) \<Rightarrow> Ok (scast r, s))"

definition sys_uptime :: "'a kernel_state_scheme \<Rightarrow> u64" where
  "sys_uptime s = ucast (ticks s)"

section \<open>Tracing, information and alarms\<close>

definition sys_strace :: "'a kernel_state_scheme \<Rightarrow> 'a kernel_state_scheme sysres" where
  "sys_strace s =
     bnd (argint 0 s) (\<lambda>mask. deref (myproc s) (\<lambda>p. Ok (0, upd_proc p (\<lambda>q. q\<lparr>p_mask := mask\<rparr>) s)))"

text \<open>\<^verbatim>\<open>kmemamount\<close> walks the free list and does not return when the list is not finite.\<close>

definition sys_sysinfo :: "'a kernel_state_scheme \<Rightarrow> 'a kernel_state_scheme sysres" where
  "sys_sysinfo s =
     bnd (argaddr 0 s) (\<lambda>addr. deref (myproc s) (\<lambda>p.
       case kmemamount s of
         None \<Rightarrow> Waits ''kmemamount''
       | Some freemem \<Rightarrow>
           bnd (copyout (p_pagetable (ptable s p)) addr (words_bytes [scast freemem, scast (procamount s)]) 16 s)
             (\<lambda>(r, s). Ok (if sint r < 0 then - 1 else 0, s))))"

definition sys_vmprint :: "'a uart_state_scheme \<Rightarrow> 'a uart_state_scheme sysres" where
  "sys_vmprint s = bnd (pgtblprint s) (\<lambda>s. Ok (0, s))"

definition upd_alarm :: "nat \<Rightarrow> (trapalarm \<Rightarrow> trapalarm) \<Rightarrow> 'a kernel_state_scheme \<Rightarrow> 'a kernel_state_scheme" where
  "upd_alarm p f s = upd_proc p (\<lambda>q. q\<lparr>p_trapalarm := f (p_trapalarm q)\<rparr>) s"

definition sys_sigalarm :: "'a kernel_state_scheme \<Rightarrow> 'a kernel_state_scheme sysres" where
  "sys_sigalarm s =
     bnd (argint 0 s) (\<lambda>interval. bnd (argaddr 1 s) (\<lambda>handler.
       if interval = 0 then Ok (0, s)
       else deref (myproc s) (\<lambda>p.
         Ok (0, upd_alarm p (\<lambda>t. t\<lparr>ta_interval := interval, ta_handler := handler, ta_ticks := 0\<rparr>) s))))"

definition sys_sigreturn :: "'a kernel_state_scheme \<Rightarrow> 'a kernel_state_scheme sysres" where
  "sys_sigreturn s = deref (myproc s) (\<lambda>p.
     let s = s\<lparr>ram := move_obj (ram s) (p_trapframe (ptable s p)) (ta_trapframe_cp (p_trapalarm (ptable s p))) 0 TF_size\<rparr>
     in Ok (0, upd_alarm p (\<lambda>t. t\<lparr>ta_trapframe_cp := memset (ta_trapframe_cp t) 0 0 288, ta_state := 0\<rparr>) s))"

end
