(* ===== verification/Syscall.thy ===== *)
theory Syscall
  imports Sysproc
begin

text \<open>
  System call dispatch, \<^verbatim>\<open>kernel/syscall.c\<close>, with the tracing output.  \<open>None\<close> as the result
  of a call means that it does not return (\<^verbatim>\<open>exit\<close>).
\<close>

datatype sysno = SYS_fork | SYS_exit | SYS_wait | SYS_pipe | SYS_read | SYS_kill | SYS_exec
  | SYS_fstat | SYS_chdir | SYS_dup | SYS_getpid | SYS_sbrk | SYS_sleep | SYS_uptime | SYS_open
  | SYS_write | SYS_mknod | SYS_unlink | SYS_link | SYS_mkdir | SYS_close | SYS_strace
  | SYS_sysinfo | SYS_symlink | SYS_vmprint | SYS_sigalarm | SYS_sigreturn

definition sys_names :: "(sysno \<times> string) list" where
  "sys_names =
    [(SYS_fork, ''fork''), (SYS_exit, ''exit''), (SYS_wait, ''wait''), (SYS_pipe, ''pipe''),
     (SYS_read, ''read''), (SYS_kill, ''kill''), (SYS_exec, ''exec''), (SYS_fstat, ''fstat''),
     (SYS_chdir, ''chdir''), (SYS_dup, ''dup''), (SYS_getpid, ''getpid''), (SYS_sbrk, ''sbrk''),
     (SYS_sleep, ''sleep''), (SYS_uptime, ''uptime''), (SYS_open, ''open''), (SYS_write, ''write''),
     (SYS_mknod, ''mknod''), (SYS_unlink, ''unlink''), (SYS_link, ''link''), (SYS_mkdir, ''mkdir''),
     (SYS_close, ''close''), (SYS_strace, ''strace''), (SYS_sysinfo, ''sysinfo''),
     (SYS_symlink, ''symlink''), (SYS_vmprint, ''vmprint''), (SYS_sigalarm, ''sigalarm''),
     (SYS_sigreturn, ''sigreturn'')]"

text \<open>The numbers of \<^verbatim>\<open>kernel/include/syscall.h\<close> start at 1, in the order of the table.\<close>

definition sysno_of :: "i32 \<Rightarrow> (sysno \<times> string) option" where
  "sysno_of num = (if 0 < sint num \<and> sint num < 28 then Some (sys_names ! nat (sint num - 1)) else None)"

definition ret :: "'s sysres \<Rightarrow> (u64 option \<times> 's) res" where
  "ret m = bnd m (\<lambda>(r, s). Ok (Some r, s))"

definition syscalls :: "u64 \<Rightarrow> sysno \<Rightarrow> 'a file_state_scheme \<Rightarrow> (u64 option \<times> 'a file_state_scheme) res" where
  "syscalls forkret num s =
     (case num of
        SYS_fork \<Rightarrow> ret (sys_fork forkret s)
      | SYS_exit \<Rightarrow> bnd (sys_exit s) (\<lambda>s. Ok (None, s))
      | SYS_wait \<Rightarrow> ret (sys_wait s)
      | SYS_pipe \<Rightarrow> ret (sys_pipe s)
      | SYS_read \<Rightarrow> ret (sys_read s)
      | SYS_kill \<Rightarrow> ret (sys_kill s)
      | SYS_exec \<Rightarrow> ret (sys_exec s)
      | SYS_fstat \<Rightarrow> ret (sys_fstat s)
      | SYS_chdir \<Rightarrow> ret (sys_chdir s)
      | SYS_dup \<Rightarrow> ret (sys_dup s)
      | SYS_getpid \<Rightarrow> bnd (sys_getpid s) (\<lambda>r. Ok (Some r, s))
      | SYS_sbrk \<Rightarrow> ret (sys_sbrk s)
      | SYS_sleep \<Rightarrow> ret (one_turn (sys_sleep s))
      | SYS_uptime \<Rightarrow> Ok (Some (sys_uptime s), s)
      | SYS_open \<Rightarrow> ret (sys_open s)
      | SYS_write \<Rightarrow> ret (sys_write s)
      | SYS_mknod \<Rightarrow> ret (sys_mknod s)
      | SYS_unlink \<Rightarrow> ret (sys_unlink s)
      | SYS_link \<Rightarrow> ret (sys_link s)
      | SYS_mkdir \<Rightarrow> ret (sys_mkdir s)
      | SYS_close \<Rightarrow> ret (sys_close s)
      | SYS_strace \<Rightarrow> ret (sys_strace s)
      | SYS_sysinfo \<Rightarrow> ret (sys_sysinfo s)
      | SYS_symlink \<Rightarrow> ret (sys_symlink s)
      | SYS_vmprint \<Rightarrow> ret (sys_vmprint s)
      | SYS_sigalarm \<Rightarrow> ret (sys_sigalarm s)
      | SYS_sigreturn \<Rightarrow> ret (sys_sigreturn s))"

section \<open>Tracing\<close>

definition sysprint_fmt :: "sysno \<Rightarrow> string option" where
  "sysprint_fmt num =
     (if num \<in> {SYS_fork, SYS_exit, SYS_dup, SYS_sbrk, SYS_sleep, SYS_close, SYS_strace, SYS_kill} then Some ''%d''
      else if num \<in> {SYS_read, SYS_write} then Some ''%d, 0x%x, %d''
      else if num \<in> {SYS_exec, SYS_link, SYS_symlink} then Some ''0x%x, 0x%x''
      else if num \<in> {SYS_wait, SYS_pipe, SYS_chdir, SYS_unlink, SYS_mkdir, SYS_sysinfo} then Some ''0x%x''
      else if num \<in> {SYS_fstat, SYS_sigalarm} then Some ''%d, 0x%x''
      else if num = SYS_mknod then Some ''0x%x, %d, %d''
      else if num = SYS_open then Some ''0x%x, %d''
      else None)"

text \<open>\<^verbatim>\<open>printf\<close> is passed the arguments its format names, which are the first ones.\<close>

definition sysprint :: "nat \<Rightarrow> sysno \<Rightarrow> 'a uart_state_scheme \<Rightarrow> 'a uart_state_scheme res" where
  "sysprint p num s =
     (let args = [Reg (tf_get TF_a0 p s), Reg (tf_get TF_a1 p s), Reg (tf_get TF_a2 p s)]
      in bnd (printf ''('' [] s) (\<lambda>s.
         bnd (case sysprint_fmt num of None \<Rightarrow> Ok s | Some f \<Rightarrow> printf f args s) (\<lambda>s.
         printf ''): '' [] s)))"

definition traced :: "nat \<Rightarrow> i32 \<Rightarrow> 'a kernel_state_scheme \<Rightarrow> bool" where
  "traced p num s \<longleftrightarrow> p_mask (ptable s p) AND push_bit (nat (sint num)) 1 \<noteq> 0"

definition trace_entry :: "nat \<Rightarrow> sysno \<Rightarrow> string \<Rightarrow> 'a uart_state_scheme \<Rightarrow> 'a uart_state_scheme res" where
  "trace_entry p num name s =
     bnd (printf ''%d: syscall %s'' [Reg (scast (p_pid (ptable s p))), Str (Some (map of_char name))] s) (\<lambda>s.
       if num = SYS_exit then printf [CHR 0x0A] [] s else sysprint p num s)"

definition trace_result :: "nat \<Rightarrow> 'a uart_state_scheme \<Rightarrow> 'a uart_state_scheme res" where
  "trace_result p s = printf ('' -> %d'' @ [CHR 0x0A]) [Reg (tf_get TF_a0 p s)] s"

section \<open>Dispatch\<close>

text \<open>\<open>False\<close>: the process has exited.\<close>

definition syscall :: "u64 \<Rightarrow> 'a file_state_scheme \<Rightarrow> (bool \<times> 'a file_state_scheme) res" where
  "syscall forkret s = deref (myproc s) (\<lambda>p.
     let num = ucast (tf_get TF_a7 p s) :: i32
     in case sysno_of num of
          Some (n, name) \<Rightarrow>
            bnd (if traced p num s then trace_entry p n name s else Ok s) (\<lambda>s.
            bnd (syscalls forkret n s) (\<lambda>(r, s).
              case r of
                None \<Rightarrow> Ok (False, s)
              | Some a0 \<Rightarrow>
                  let s = tf_set TF_a0 a0 p s
                  in bnd (if traced p num s then trace_result p s else Ok s) (\<lambda>s. Ok (True, s))))
        | None \<Rightarrow>
            bnd (printf (''%d %s: unknown sys call %d'' @ [CHR 0x0A])
                   [Reg (scast (p_pid (ptable s p))), Str (Some (proc_name (ptable s p))), Reg (scast num)] s) (\<lambda>s.
            Ok (True, tf_set TF_a0 (- 1) p s)))"

end
