(* ===== verification/Trap.thy ===== *)
theory Trap
  imports Syscall
begin

text \<open>
  Traps, \<^verbatim>\<open>kernel/trap.c\<close> and \<^verbatim>\<open>kernel/trap_handler.c\<close>, the interrupt controller
  \<^verbatim>\<open>kernel/plic.c\<close>, and \<^verbatim>\<open>forkret\<close>.  The supervisor registers of each hart are part of the
  state; \<open>plic_irq\<close> is what the interrupt controller answers to a claim, and \<open>plic_log\<close> the
  writes to it.  A trap that gives up the CPU continues when the process is scheduled again,
  so its handlers are in two parts.
\<close>

section \<open>State\<close>

record trap_state = file_state +
  stvec :: "nat \<Rightarrow> u64"
  sepc :: "nat \<Rightarrow> u64"
  scause :: "nat \<Rightarrow> u64"
  stval :: "nat \<Rightarrow> u64"
  spp :: "nat \<Rightarrow> bool"
  spie :: "nat \<Rightarrow> bool"
  sip :: "nat \<Rightarrow> u64"
  plic_irq :: "nat \<Rightarrow> u32"
  plic_log :: "(u64 \<times> u32) list"
  virtio_isr :: u32
  forkret_first :: bool

text \<open>Addresses of kernel functions that the code stores.\<close>

record ksyms =
  k_forkret :: u64
  k_kernelvec :: u64
  k_uservec :: u64
  k_userret :: u64
  k_usertrap :: u64

definition w_stvec :: "u64 \<Rightarrow> 'a trap_state_scheme \<Rightarrow> 'a trap_state_scheme" where
  "w_stvec v s = s\<lparr>stvec := (stvec s)(cpuid s := v)\<rparr>"

definition w_sepc :: "u64 \<Rightarrow> 'a trap_state_scheme \<Rightarrow> 'a trap_state_scheme" where
  "w_sepc v s = s\<lparr>sepc := (sepc s)(cpuid s := v)\<rparr>"

section \<open>The interrupt controller\<close>

abbreviation (input) UART0_IRQ :: u32 where "UART0_IRQ \<equiv> 10"
abbreviation (input) VIRTIO0_IRQ :: u32 where "VIRTIO0_IRQ \<equiv> 1"

definition PLIC_SENABLE :: "nat \<Rightarrow> u64" where
  "PLIC_SENABLE h = PLIC + 0x2080 + of_nat h * 0x100"

definition PLIC_SPRIORITY :: "nat \<Rightarrow> u64" where
  "PLIC_SPRIORITY h = PLIC + 0x201000 + of_nat h * 0x2000"

definition PLIC_SCLAIM :: "nat \<Rightarrow> u64" where
  "PLIC_SCLAIM h = PLIC + 0x201004 + of_nat h * 0x2000"

definition plic_write :: "u64 \<Rightarrow> u32 \<Rightarrow> 'a trap_state_scheme \<Rightarrow> 'a trap_state_scheme" where
  "plic_write a v s = s\<lparr>plic_log := plic_log s @ [(a, v)]\<rparr>"

definition plicinit :: "'a trap_state_scheme \<Rightarrow> 'a trap_state_scheme" where
  "plicinit s = plic_write (PLIC + ucast VIRTIO0_IRQ * 4) 1 (plic_write (PLIC + ucast UART0_IRQ * 4) 1 s)"

definition plicinithart :: "'a trap_state_scheme \<Rightarrow> 'a trap_state_scheme" where
  "plicinithart s =
     (let s = plic_write (PLIC_SENABLE (cpuid s)) (push_bit 10 1 OR push_bit 1 1) s
      in plic_write (PLIC_SPRIORITY (cpuid s)) 0 s)"

definition plic_claim :: "'a trap_state_scheme \<Rightarrow> u32" where
  "plic_claim s = plic_irq s (cpuid s)"

definition plic_complete :: "u32 \<Rightarrow> 'a trap_state_scheme \<Rightarrow> 'a trap_state_scheme" where
  "plic_complete irq s = plic_write (PLIC_SCLAIM (cpuid s)) irq s"

section \<open>Interrupts\<close>

definition clockintr :: "'a kernel_state_scheme \<Rightarrow> 'a kernel_state_scheme" where
  "clockintr s = wakeup Ticks_chan (s\<lparr>ticks := ticks s + 1\<rparr>)"

definition devintr :: "'a trap_state_scheme \<Rightarrow> (nat \<times> 'a trap_state_scheme) res" where
  "devintr s =
     (let cause = scause s (cpuid s)
      in if cause AND 0x8000000000000000 \<noteq> 0 \<and> cause AND 0xff = 9
         then let irq = plic_claim s
              in bnd (if irq = UART0_IRQ then uartintr s
                      else if irq = VIRTIO0_IRQ then virtio_disk_intr (virtio_isr s) s
                      else if irq \<noteq> 0 then printf (''unexpected interrupt irq=%d'' @ [CHR 0x0A]) [Reg (scast irq)] s
                      else Ok s) (\<lambda>s.
                 Ok (1, if irq \<noteq> 0 then plic_complete irq s else s))
         else if cause = 0x8000000000000001
         then let s = (if cpuid s = 0 then clockintr s else s)
              in Ok (2, s\<lparr>sip := (sip s)(cpuid s := sip s (cpuid s) AND NOT 2)\<rparr>)
         else Ok (0, s))"

definition alarm_handler :: "'a kernel_state_scheme \<Rightarrow> 'a kernel_state_scheme res" where
  "alarm_handler s = deref (myproc s) (\<lambda>p.
     let t = p_trapalarm (ptable s p)
     in if ta_interval t \<noteq> 0 \<and> ta_state t = 0
        then let t = t\<lparr>ta_ticks := ta_ticks t + 1\<rparr>
             in if ta_ticks t = ta_interval t
                then let t = t\<lparr>ta_ticks := 0, ta_state := 1,
                           ta_trapframe_cp := move_obj (ta_trapframe_cp t) 0 (ram s) (p_trapframe (ptable s p)) TF_size\<rparr>
                     in Ok (tf_set TF_epc (ta_handler t) p (upd_alarm p (\<lambda>_. t) s))
                else Ok (upd_alarm p (\<lambda>_. t) s)
        else Ok s)"

definition pagefault_handler :: "'a trap_state_scheme \<Rightarrow> (i32 \<times> 'a trap_state_scheme) res" where
  "pagefault_handler s = deref (myproc s) (\<lambda>p.
     let va = stval s (cpuid s)
     in bnd (kalloc s) (\<lambda>(pa, s).
        if pa = 0 then Ok (- 1, s)
        else if p_sz (ptable s p) \<le> va then bnd (kfree pa s) (\<lambda>s. Ok (- 2, s))
        else if va < PGROUNDDOWN (tf_get TF_sp p s) then bnd (kfree pa s) (\<lambda>s. Ok (- 3, s))
        else let s = s\<lparr>ram := memset (ram s) pa 0 4096\<rparr>
             in bnd (mappages (p_pagetable (ptable s p)) (PGROUNDDOWN va) PGSIZE pa 30 s) (\<lambda>(r, s).
                if r \<noteq> 0 then bnd (kfree pa s) (\<lambda>s. Ok (- 4, s)) else Ok (0, s))))"

section \<open>Returning to user space\<close>

text \<open>The jump into the trampoline: the target and its two arguments.\<close>

definition usertrapret :: "ksyms \<Rightarrow> 'a trap_state_scheme \<Rightarrow> ((u64 \<times> u64 \<times> u64) \<times> 'a trap_state_scheme) res" where
  "usertrapret k s = deref (myproc s) (\<lambda>p.
     let s = intr_off s;
         s = w_stvec (TRAMPOLINE + (k_uservec k - trampoline s)) s;
         s = tf_set TF_kernel_satp (satp s (cpuid s)) p s;
         s = tf_set TF_kernel_sp (p_kstack (ptable s p) + PGSIZE) p s;
         s = tf_set TF_kernel_trap (k_usertrap k) p s;
         s = tf_set TF_kernel_hartid (of_nat (cpuid s)) p s;
         s = s\<lparr>spp := (spp s)(cpuid s := False), spie := (spie s)(cpuid s := True)\<rparr>;
         s = w_sepc (tf_get TF_epc p s) s
     in Ok ((TRAMPOLINE + (k_userret k - trampoline s), TRAPFRAME, MAKE_SATP (p_pagetable (ptable s p))), s))"

definition forkret :: "ksyms \<Rightarrow> 'a trap_state_scheme \<Rightarrow> ((u64 \<times> u64 \<times> u64) \<times> 'a trap_state_scheme) res" where
  "forkret k s = deref (myproc s) (\<lambda>p.
     bnd (release_proc p s) (\<lambda>s.
     bnd (if forkret_first s then fsinit 1 (s\<lparr>forkret_first := False\<rparr>) else Ok s) (usertrapret k)))"

section \<open>Traps from user space\<close>

text \<open>
  How \<^verbatim>\<open>usertrap\<close> ends: the process has exited, it gives up the CPU (with the value that
  \<^verbatim>\<open>sched\<close> saves), or it returns to user space.
\<close>

datatype 's trap_end = Exited 's | Yields i32 's | To_user "u64 \<times> u64 \<times> u64" 's

definition set_killed :: "nat \<Rightarrow> 'a kernel_state_scheme \<Rightarrow> 'a kernel_state_scheme" where
  "set_killed p s = upd_proc p (\<lambda>q. q\<lparr>p_killed := 1\<rparr>) s"

definition fault_message :: "string \<Rightarrow> nat \<Rightarrow> 'a trap_state_scheme \<Rightarrow> 'a trap_state_scheme res" where
  "fault_message m p s =
     bnd (printf (m @ ''unexpected scause %p pid=%d'' @ [CHR 0x0A])
            [Reg (scause s (cpuid s)), Reg (scast (p_pid (ptable s p)))] s)
         (printf (''            sepc=%p stval=%p'' @ [CHR 0x0A]) [Reg (sepc s (cpuid s)), Reg (stval s (cpuid s))])"

definition pagefault_message :: "i32 \<Rightarrow> string" where
  "pagefault_message op =
     (if op = - 1 then ''usertrap(): kalloc failed. maybe run out of memory''
      else if op = - 2 then ''usertrap(): invalid address''
      else if op = - 3 then ''usertrap(): va stack overflow''
      else ''usertrap(): mappages couldn'' @ [CHR 0x27] @ ''t allow a page table'')"

definition user_pagefault :: "nat \<Rightarrow> 'a trap_state_scheme \<Rightarrow> 'a trap_state_scheme res" where
  "user_pagefault p s =
     bnd (pagefault_handler s) (\<lambda>(op, s).
       if op = 0 then Ok s
       else bnd (printf (pagefault_message op @ [CHR 0x0A]) [] (set_killed p s)) (fault_message ''            '' p))"

text \<open>The dispatch on the cause: the device that interrupted, or \<open>None\<close> when the process has exited.\<close>

definition user_cause :: "ksyms \<Rightarrow> nat \<Rightarrow> 'a trap_state_scheme \<Rightarrow> (nat option \<times> 'a trap_state_scheme) res" where
  "user_cause k p s =
     (let cause = ucast (scause s (cpuid s)) :: i32
      in if cause = 8
         then if p_killed (ptable s p) \<noteq> 0 then bnd (exit (- 1) s) (\<lambda>s. Ok (None, s))
              else let s = tf_set TF_epc (tf_get TF_epc p s + 4) p s
                   in bnd (syscall (k_forkret k) (intr_on s)) (\<lambda>(alive, s). Ok (if alive then Some 0 else None, s))
         else bnd (devintr s) (\<lambda>(which_dev, s).
              if which_dev \<noteq> 0 then Ok (Some which_dev, s)
              else if cause = 13 \<or> cause = 15 then bnd (user_pagefault p s) (\<lambda>s. Ok (Some 0, s))
              else bnd (fault_message ''usertrap(): '' p s) (\<lambda>s. Ok (Some 0, set_killed p s))))"

definition usertrap :: "ksyms \<Rightarrow> 'a trap_state_scheme \<Rightarrow> 'a trap_state_scheme trap_end res" where
  "usertrap k s =
     (if spp s (cpuid s) then Panic ''usertrap: not from user mode''
      else let s = w_stvec (k_kernelvec k) s
           in deref (myproc s) (\<lambda>p.
              let s = tf_set TF_epc (sepc s (cpuid s)) p s
              in bnd (user_cause k p s) (\<lambda>(which_dev, s).
                 case which_dev of
                   None \<Rightarrow> Ok (Exited s)
                 | Some d \<Rightarrow>
                     if p_killed (ptable s p) \<noteq> 0 then bnd (exit (- 1) s) (\<lambda>s. Ok (Exited s))
                     else if d = 2
                     then bnd (alarm_handler s) (\<lambda>s.
                          bnd (yield_enter s) (\<lambda>(intena, s). Ok (Yields intena s)))
                     else bnd (usertrapret k s) (\<lambda>(j, s). Ok (To_user j s)))))"

definition usertrap_resume ::
  "ksyms \<Rightarrow> i32 \<Rightarrow> 'a trap_state_scheme \<Rightarrow> 'a trap_state_scheme trap_end res" where
  "usertrap_resume k intena s =
     bnd (yield_back intena s) (\<lambda>s. bnd (usertrapret k s) (\<lambda>(j, s). Ok (To_user j s)))"

section \<open>Traps from the kernel\<close>

text \<open>\<open>saved\<close> are the registers that the handler puts back: \<^verbatim>\<open>sepc\<close> and \<^verbatim>\<open>sstatus\<close>.\<close>

type_synonym trap_saved = "u64 \<times> bool \<times> bool \<times> bool"

definition kerneltrap_restore :: "trap_saved \<Rightarrow> 'a trap_state_scheme \<Rightarrow> 'a trap_state_scheme" where
  "kerneltrap_restore saved s =
     (case saved of (pc, pp, pie, ie) \<Rightarrow>
        (w_sepc pc s)\<lparr>spp := (spp s)(cpuid s := pp), spie := (spie s)(cpuid s := pie), sie := (sie s)(cpuid s := ie)\<rparr>)"

text \<open>The result is the state on return, or the value saved by \<^verbatim>\<open>sched\<close> when the process yields.\<close>

definition kerneltrap ::
  "'a trap_state_scheme \<Rightarrow> (unit, i32 \<times> trap_saved, 'a trap_state_scheme) turn res" where
  "kerneltrap s =
     (let h = cpuid s; saved = (sepc s h, spp s h, spie s h, sie s h)
      in if \<not> spp s h then Panic ''kerneltrap: not from supervisor mode''
         else if intr_get s then Panic ''kerneltrap: interrupts enabled''
         else bnd (devintr s) (\<lambda>(which_dev, s).
              if which_dev = 0
              then bnd (printf (''scause %p'' @ [CHR 0x0A]) [Reg (scause s h)] s) (\<lambda>s.
                   bnd (printf (''sepc=%p stval=%p'' @ [CHR 0x0A]) [Reg (sepc s h), Reg (stval s h)] s) (\<lambda>s.
                   Panic ''kerneltrap''))
              else case myproc s of
                Some p \<Rightarrow>
                  if which_dev = 2 \<and> p_state (ptable s p) = RUNNING
                  then bnd (yield_enter s) (\<lambda>(intena, s). Ok (Sleep (intena, saved) s))
                  else Ok (Return () (kerneltrap_restore saved s))
              | None \<Rightarrow> Ok (Return () (kerneltrap_restore saved s))))"

definition kerneltrap_resume ::
  "i32 \<times> trap_saved \<Rightarrow> 'a trap_state_scheme \<Rightarrow> 'a trap_state_scheme res" where
  "kerneltrap_resume l s =
     bnd (yield_back (fst l) s) (\<lambda>s. Ok (kerneltrap_restore (snd l) s))"

definition trapinithart :: "ksyms \<Rightarrow> 'a trap_state_scheme \<Rightarrow> 'a trap_state_scheme" where
  "trapinithart k s = w_stvec (k_kernelvec k) s"

end
