(* ===== verification/Boot.thy ===== *)
theory Boot
  imports Trap
begin

text \<open>
  Start-up: \<^verbatim>\<open>kernel/start.c\<close>, in machine mode, and \<^verbatim>\<open>kernel/main.c\<close>, in supervisor mode.
\<close>

section \<open>Machine mode\<close>

record mstate =
  mstatus :: u64
  mepc :: u64
  msatp :: u64
  medeleg :: u64
  mideleg :: u64
  msie :: u64
  pmpaddr0 :: u64
  pmpcfg0 :: u64
  mhartid :: nat
  mtp :: u64
  mscratch :: u64
  mtvec :: u64
  mie :: u64
  mtime :: u64
  mtimecmp :: "nat \<Rightarrow> u64"
  timer_scratch :: "nat \<Rightarrow> nat \<Rightarrow> u64"

definition CLINT_MTIMECMP :: "nat \<Rightarrow> u64" where
  "CLINT_MTIMECMP h = CLINT + 0x4000 + 8 * of_nat h"

text \<open>\<open>scratch\<close> is the address of \<^verbatim>\<open>timer_scratch\<close>, whose rows have five words.\<close>

definition timerinit :: "u64 \<Rightarrow> u64 \<Rightarrow> mstate \<Rightarrow> mstate" where
  "timerinit scratch timervec m =
     (let h = mhartid m; interval = 1000000;
          m = m\<lparr>mtimecmp := (mtimecmp m)(h := mtime m + interval)\<rparr>;
          m = m\<lparr>timer_scratch := (timer_scratch m)(h := (timer_scratch m h)(3 := CLINT_MTIMECMP h, 4 := interval))\<rparr>;
          m = m\<lparr>mscratch := scratch + 40 * of_nat h\<rparr>;
          m = m\<lparr>mtvec := timervec\<rparr>;
          m = m\<lparr>mstatus := mstatus m OR push_bit 3 1\<rparr>
      in m\<lparr>mie := mie m OR push_bit 7 1\<rparr>)"

definition start :: "u64 \<Rightarrow> u64 \<Rightarrow> u64 \<Rightarrow> mstate \<Rightarrow> mstate" where
  "start scratch timervec main_addr m =
     (let m = m\<lparr>mstatus := (mstatus m AND NOT (push_bit 11 3)) OR push_bit 11 1\<rparr>;
          m = m\<lparr>mepc := main_addr\<rparr>;
          m = m\<lparr>msatp := 0\<rparr>;
          m = m\<lparr>medeleg := 0xffff, mideleg := 0xffff\<rparr>;
          m = m\<lparr>msie := msie m OR push_bit 9 1 OR push_bit 5 1 OR push_bit 1 1\<rparr>;
          m = m\<lparr>pmpaddr0 := 0x3fffffffffffff, pmpcfg0 := 0xf\<rparr>;
          m = timerinit scratch timervec m
      in m\<lparr>mtp := of_nat (mhartid m)\<rparr>)"

section \<open>Supervisor mode\<close>

record boot_state = trap_state +
  started :: bool

text \<open>
  \<open>rd\<close> gives the registers of the disk controller and \<open>pages\<close> the address of the driver's
  rings.  The locks of the file table and of the timer are initialised in place and have no
  state of their own in the model.
\<close>

definition main_boot ::
  "ksyms \<Rightarrow> (u64 \<Rightarrow> u32) \<Rightarrow> u64 \<Rightarrow> 'a boot_state_scheme \<Rightarrow> 'a boot_state_scheme res" where
  "main_boot k rd pages s =
     (if cpuid s = 0
      then let s = printfinit (consoleinit s)
           in bnd (printf [CHR 0x0A] [] s) (\<lambda>s.
              bnd (printf (''OS kernel is ready to begin initialization'' @ [CHR 0x0A]) [] s) (\<lambda>s.
              bnd (printf [CHR 0x0A] [] s) (\<lambda>s.
              bnd (kinit s) (\<lambda>s.
              bnd (kvminit s) (\<lambda>s.
              let s = kvminithart s;
                  s = procinit s;
                  s = trapinithart k s;
                  s = plicinit s;
                  s = plicinithart s;
                  s = binit s;
                  s = iinit s
              in bnd (virtio_disk_init rd pages s) (\<lambda>s.
                 bnd (userinit (k_forkret k) s) (\<lambda>s.
                 Ok (s\<lparr>started := True\<rparr>))))))))
      else if \<not> started s then Waits ''started''
      else bnd (printf (''hart %d starting'' @ [CHR 0x0A]) [Reg (of_nat (cpuid s))] s) (\<lambda>s.
           Ok (plicinithart (trapinithart k (kvminithart s)))))"

end
