(* ===== verification/Cpus.thy ===== *)
theory Cpus
  imports Sched
begin

text \<open>
  All CPUs at work: the schedulers and the processes they run, as steps of any number of
  harts on the shared process table, from \<^verbatim>\<open>kernel/proc.c\<close>.  The lock of a process is held
  across the switch to it and away from it, by the hart and not by the process; the invariant
  of this protocol is that no process is ever on two CPUs.
\<close>

section \<open>Steps\<close>

text \<open>
  Where a hart is: in the loop of its scheduler; at the start of a process that the scheduler
  has just switched to; in a process; or back in the scheduler, just after a process has
  switched away.
\<close>

datatype place = In_sched | Arrived nat | Running nat | Left nat

fun proc_of :: "place \<Rightarrow> nat option" where
  "proc_of In_sched = None"
| "proc_of (Arrived p) = Some p"
| "proc_of (Running p) = Some p"
| "proc_of (Left p) = Some p"

text \<open>
  What the code of a running process does to other processes' states, each under that process's
  lock: \<^verbatim>\<open>wakeup\<close> and \<^verbatim>\<open>kill\<close>, \<^verbatim>\<open>allocproc\<close>, the end of \<^verbatim>\<open>fork\<close>, and \<^verbatim>\<open>freeproc\<close>.
\<close>

definition table_moves :: "(procstate \<times> procstate) set" where
  "table_moves = {(SLEEPING, RUNNABLE), (UNUSED, USED), (USED, RUNNABLE), (USED, UNUSED), (ZOMBIE, UNUSED)}"

inductive sched_step ::
  "'a kernel_state_scheme \<Rightarrow> (nat \<Rightarrow> place) \<Rightarrow> 'a kernel_state_scheme \<Rightarrow> (nat \<Rightarrow> place) \<Rightarrow> bool" where
  pick_run: "pc h = In_sched \<Longrightarrow> scheduler_pick p (s\<lparr>hart := h\<rparr>) = Ok (True, s') \<Longrightarrow>
    sched_step s pc s' (pc(h := Arrived p))"
| pick_skip: "pc h = In_sched \<Longrightarrow> scheduler_pick p (s\<lparr>hart := h\<rparr>) = Ok (False, s') \<Longrightarrow> sched_step s pc s' pc"
| arrive: "pc h = Arrived p \<Longrightarrow> yield_back intena (s\<lparr>hart := h\<rparr>) = Ok s' \<Longrightarrow> sched_step s pc s' (pc(h := Running p))"
| arrive_new: "pc h = Arrived p \<Longrightarrow> release_proc p (s\<lparr>hart := h\<rparr>) = Ok s' \<Longrightarrow> sched_step s pc s' (pc(h := Running p))"
| arrive_woken: "pc h = Arrived p \<Longrightarrow> sleep_back lk intena (s\<lparr>hart := h\<rparr>) = Ok (lk', s1) \<Longrightarrow>
    release lk' s1 = Ok (lk'', s') \<Longrightarrow> sched_step s pc s' (pc(h := Running p))"
| yields: "pc h = Running p \<Longrightarrow> yield_enter (s\<lparr>hart := h\<rparr>) = Ok (intena, s') \<Longrightarrow> sched_step s pc s' (pc(h := Left p))"
| sleeps: "pc h = Running p \<Longrightarrow> acquire lk (s\<lparr>hart := h\<rparr>) = Ok (lk', s1) \<Longrightarrow>
    sleep_enter c lk' s1 = Ok (lk'', intena, s') \<Longrightarrow> sched_step s pc s' (pc(h := Left p))"
| exits: "pc h = Running p \<Longrightarrow> acquire_proc p (s\<lparr>hart := h\<rparr>) = Ok s1 \<Longrightarrow>
    sched_enter (upd_proc p (\<lambda>q. q\<lparr>p_xstate := status, p_state := ZOMBIE\<rparr>) s1) = Ok (intena, s') \<Longrightarrow>
    sched_step s pc s' (pc(h := Left p))"
| returns: "pc h = Left p \<Longrightarrow> scheduler_back p (s\<lparr>hart := h\<rparr>) = Ok s' \<Longrightarrow> sched_step s pc s' (pc(h := In_sched))"
| table: "pc h = Running q \<Longrightarrow> lk_locked (p_lock (ptable s i)) = 0 \<Longrightarrow>
    (p_state (ptable s i), p_state (f (ptable s i))) \<in> table_moves \<Longrightarrow> p_lock (f (ptable s i)) = p_lock (ptable s i) \<Longrightarrow>
    sched_step s pc (upd_proc i f s) pc"

text \<open>The harts enter their schedulers with all locks free and no process running.\<close>

definition sched_init :: "'a kernel_state_scheme \<Rightarrow> bool" where
  "sched_init s \<longleftrightarrow> (\<forall>h. c_proc (cpus s h) = None \<and> c_noff (cpus s h) = 0) \<and>
     (\<forall>p. lk_locked (p_lock (ptable s p)) = 0 \<and> p_state (ptable s p) \<noteq> RUNNING)"

inductive sched_reach :: "'a kernel_state_scheme \<Rightarrow> (nat \<Rightarrow> place) \<Rightarrow> bool" where
  start: "sched_init s \<Longrightarrow> sched_reach s (\<lambda>_. In_sched)"
| step: "sched_reach s pc \<Longrightarrow> sched_step s pc s' pc' \<Longrightarrow> sched_reach s' pc'"

section \<open>What the operations change\<close>

text \<open>
  The operations act on one hart's CPU structure and one process; these lemmas give the parts
  that the protocol depends on.
\<close>

definition same_but :: "nat \<Rightarrow> nat \<Rightarrow> 'a kernel_state_scheme \<Rightarrow> 'a kernel_state_scheme \<Rightarrow> bool" where
  "same_but h p s s' \<longleftrightarrow> hart s' = h \<and> (\<forall>g. g \<noteq> h \<longrightarrow> cpus s' g = cpus s g \<and> sie s' g = sie s g) \<and>
     (\<forall>q. q \<noteq> p \<longrightarrow> ptable s' q = ptable s q)"

lemma same_but_trans [trans]: "same_but h p s1 s2 \<Longrightarrow> same_but h p s2 s3 \<Longrightarrow> same_but h p s1 s3"
  by (simp add: same_but_def)

definition locked_by :: "nat \<Rightarrow> spinlock \<Rightarrow> bool" where
  "locked_by h lk \<longleftrightarrow> lk_locked lk \<noteq> 0 \<and> lk_cpu lk = Some h"

lemma push_off_same:
  "same_but h p s (push_off s) \<longleftrightarrow> hart s = h" "ptable (push_off s) = ptable s"
  "c_proc (cpus (push_off s) g) = c_proc (cpus s g)" "hart (push_off s) = hart s"
  "c_noff (cpus (push_off s) (hart s)) = c_noff (cpus s (hart s)) + 1" "\<not> sie (push_off s) (hart s)"
  by (auto simp: push_off_eq same_but_def)

lemma pop_off_same:
  assumes "pop_off s = Ok s'"
  shows "hart s = h \<Longrightarrow> same_but h p s s'" "ptable s' = ptable s" "c_proc (cpus s' g) = c_proc (cpus s g)" "hart s' = hart s"
    "c_noff (cpus s' (hart s)) = c_noff (cpus s (hart s)) - 1" "\<not> sie s (hart s)"
    "c_noff (cpus s' (hart s)) \<noteq> 0 \<Longrightarrow> \<not> sie s' (hart s)"
  using assms by (auto simp: pop_off_def same_but_def cpu_defs Let_def split: if_splits)

lemma acquire_eff:
  assumes "acquire lk s = Ok (lk', s')"
  shows "lk_locked lk = 0" "locked_by (hart s) lk'" "s' = push_off s"
  using assms by (auto simp: acquire_def Let_def test_and_set_def locked_by_def cpuid_def push_off_eq split: if_splits)

lemma release_eff:
  assumes "release lk s = Ok (lk', s')"
  shows "locked_by (hart s) lk" "lk_locked lk' = 0" "pop_off s = Ok s'"
  using assms by (auto simp: release_def Let_def holding_def locked_by_def cpuid_def bnd_eq_Ok split: if_splits)

lemma acquire_proc_eff:
  assumes "acquire_proc p s = Ok s'"
  shows "lk_locked (p_lock (ptable s p)) = 0" "same_but (hart s) p s s'"
    "\<exists>lk. ptable s' p = (ptable s p)\<lparr>p_lock := lk\<rparr> \<and> locked_by (hart s) lk"
    "c_proc (cpus s' g) = c_proc (cpus s g)" "hart s' = hart s"
    "c_noff (cpus s' (hart s)) = c_noff (cpus s (hart s)) + 1" "\<not> sie s' (hart s)"
proof -
  obtain lk where a: "acquire (p_lock (ptable s p)) s = Ok (lk, push_off s)" and s': "s' = upd_proc p (\<lambda>q. q\<lparr>p_lock := lk\<rparr>) (push_off s)"
    using assms by (auto simp: acquire_proc_def bnd_eq_Ok dest: acquire_eff(3))
  note e = acquire_eff [OF a]
  show "lk_locked (p_lock (ptable s p)) = 0" by (rule e)
  show "same_but (hart s) p s s'" unfolding s' by (auto simp: push_off_eq same_but_def)
  show "\<exists>lk. ptable s' p = (ptable s p)\<lparr>p_lock := lk\<rparr> \<and> locked_by (hart s) lk"
    using e(2) unfolding s' by (auto simp: push_off_same)
  show "c_proc (cpus s' g) = c_proc (cpus s g)" "hart s' = hart s"
    "c_noff (cpus s' (hart s)) = c_noff (cpus s (hart s)) + 1" "\<not> sie s' (hart s)"
    unfolding s' by (simp_all add: push_off_same)
qed

lemma release_proc_eff:
  assumes "release_proc p s = Ok s'"
  shows "locked_by (hart s) (p_lock (ptable s p))" "same_but (hart s) p s s'"
    "\<exists>lk. ptable s' p = (ptable s p)\<lparr>p_lock := lk\<rparr> \<and> lk_locked lk = 0"
    "c_proc (cpus s' g) = c_proc (cpus s g)" "hart s' = hart s"
    "c_noff (cpus s' (hart s)) = c_noff (cpus s (hart s)) - 1"
proof -
  obtain lk s1 where a: "release (p_lock (ptable s p)) s = Ok (lk, s1)" and s': "s' = upd_proc p (\<lambda>q. q\<lparr>p_lock := lk\<rparr>) s1"
    using assms by (auto simp: release_proc_def bnd_eq_Ok)
  note e = release_eff [OF a] and f = pop_off_same [OF release_eff(3) [OF a]]
  show "locked_by (hart s) (p_lock (ptable s p))" by (rule e)
  show "same_but (hart s) p s s'" unfolding s' using f(1) [OF refl, of p] by (simp add: same_but_def)
  show "\<exists>lk. ptable s' p = (ptable s p)\<lparr>p_lock := lk\<rparr> \<and> lk_locked lk = 0"
    unfolding s' using f(2) e(2) by auto
  show "c_proc (cpus s' g) = c_proc (cpus s g)" "hart s' = hart s"
    "c_noff (cpus s' (hart s)) = c_noff (cpus s (hart s)) - 1" unfolding s' by (simp_all add: f)
qed

lemma sched_enter_eff:
  assumes "sched_enter s = Ok (intena, s')" and "c_proc (cpus s (hart s)) = Some p"
  shows "locked_by (hart s) (p_lock (ptable s p))" "c_noff (cpus s (hart s)) = 1" "\<not> sie s (hart s)"
    "p_state (ptable s p) \<noteq> RUNNING" "same_but (hart s) p s s'" "p_lock (ptable s' p) = p_lock (ptable s p)"
    "p_state (ptable s' p) = p_state (ptable s p)" "cpus s' = cpus s" "sie s' = sie s"
  using assms by (auto simp: sched_enter_def myproc_def mycpu_def cpuid_def holding_def locked_by_def intr_get_def
      swtch_to_scheduler_def swtch_def same_but_def split: if_splits)

section \<open>The invariant\<close>

definition hart_ok :: "'a kernel_state_scheme \<Rightarrow> nat \<Rightarrow> place \<Rightarrow> bool" where
  "hart_ok s h w \<longleftrightarrow> c_proc (cpus s h) = proc_of w \<and>
     (case w of Arrived p \<Rightarrow> c_noff (cpus s h) = 1 \<and> \<not> sie s h | Left p \<Rightarrow> c_noff (cpus s h) = 1 \<and> \<not> sie s h
      | _ \<Rightarrow> c_noff (cpus s h) = 0)"

definition proc_ok :: "'a kernel_state_scheme \<Rightarrow> (nat \<Rightarrow> place) \<Rightarrow> nat \<Rightarrow> bool" where
  "proc_ok s pc p \<longleftrightarrow>
     (\<forall>h h'. proc_of (pc h) = Some p \<longrightarrow> proc_of (pc h') = Some p \<longrightarrow> h = h') \<and>
     (lk_locked (p_lock (ptable s p)) \<noteq> 0 \<longrightarrow> (\<exists>h. pc h = Arrived p \<or> pc h = Left p)) \<and>
     (\<forall>h. pc h = Arrived p \<or> pc h = Left p \<longrightarrow> locked_by h (p_lock (ptable s p))) \<and>
     (p_state (ptable s p) = RUNNING \<longleftrightarrow> (\<exists>h. pc h = Arrived p \<or> pc h = Running p))"

definition sched_inv :: "'a kernel_state_scheme \<Rightarrow> (nat \<Rightarrow> place) \<Rightarrow> bool" where
  "sched_inv s pc \<longleftrightarrow> (\<forall>h. hart_ok s h (pc h)) \<and> (\<forall>p. proc_ok s pc p)"

lemma sched_inv_move:
  assumes inv: "sched_inv s pc" and same: "same_but h p s s'"
    and pq: "proc_of (pc h) \<in> {None, Some p}" "proc_of w \<in> {None, Some p}"
    and h: "hart_ok s' h w" and p: "proc_ok s' (pc(h := w)) p"
  shows "sched_inv s' (pc(h := w))"
proof -
  have "hart_ok s' g ((pc(h := w)) g)" for g
  proof (cases "g = h")
    case False
    then have "cpus s' g = cpus s g" "sie s' g = sie s g" using same by (simp_all add: same_but_def)
    moreover have "hart_ok s g (pc g)" using inv by (simp add: sched_inv_def)
    ultimately show ?thesis using False by (simp add: hart_ok_def split: place.splits)
  qed (use h in simp)
  moreover have "proc_ok s' (pc(h := w)) q" for q
  proof (cases "q = p")
    case False
    have q: "proc_ok s pc q" using inv by (simp add: sched_inv_def)
    have "ptable s' q = ptable s q" using same False by (simp add: same_but_def)
    moreover have "(pc(h := w)) g = pl \<longleftrightarrow> pc g = pl" if "proc_of pl = Some q" for g pl
      using that pq False by (cases "g = h") auto
    moreover have "proc_of ((pc(h := w)) g) = Some q \<longleftrightarrow> proc_of (pc g) = Some q" for g
      using pq False by (cases "g = h") auto
    ultimately show ?thesis using q unfolding proc_ok_def by simp
  qed (use p in simp)
  ultimately show ?thesis by (simp add: sched_inv_def)
qed

lemma proc_ok_moved:
  assumes "\<forall>g. g \<noteq> h \<longrightarrow> proc_of (pc g) \<noteq> Some p"
    and "lk_locked (p_lock (ptable s p)) \<noteq> 0 \<longrightarrow> w = Arrived p \<or> w = Left p"
    and "w = Arrived p \<or> w = Left p \<longrightarrow> locked_by h (p_lock (ptable s p))"
    and "p_state (ptable s p) = RUNNING \<longleftrightarrow> w = Arrived p \<or> w = Running p"
  shows "proc_ok s (pc(h := w)) p"
proof -
  have only: "(pc(h := w)) g = pl \<longleftrightarrow> g = h \<and> w = pl" if "proc_of pl = Some p" for g pl
    using that assms(1) by (cases "g = h") auto
  have o: "(pc(h := w)) g = Arrived p \<longleftrightarrow> g = h \<and> w = Arrived p" "(pc(h := w)) g = Left p \<longleftrightarrow> g = h \<and> w = Left p"
      "(pc(h := w)) g = Running p \<longleftrightarrow> g = h \<and> w = Running p" for g
    by (rule only, simp)+
  have "proc_of ((pc(h := w)) g) = Some p \<Longrightarrow> g = h" for g using assms(1) by (cases "g = h") auto
  then have "\<forall>g g'. proc_of ((pc(h := w)) g) = Some p \<longrightarrow> proc_of ((pc(h := w)) g') = Some p \<longrightarrow> g = g'" by blast
  then show ?thesis unfolding proc_ok_def o using assms(2-4) by (simp del: fun_upd_apply) blast
qed

lemma sched_inv_alone:
  assumes "sched_inv s pc" and "proc_of (pc h) = Some p"
  shows "\<forall>g. g \<noteq> h \<longrightarrow> proc_of (pc g) \<noteq> Some p"
  using assms by (auto simp: sched_inv_def proc_ok_def)

lemma sched_inv_leave:
  assumes inv: "sched_inv s pc" and pc: "pc h = Running p" and same: "same_but h p s s'"
    and cpu: "c_proc (cpus s' h) = Some p" "c_noff (cpus s' h) = 1" "\<not> sie s' h"
    and p: "locked_by h (p_lock (ptable s' p))" "p_state (ptable s' p) \<noteq> RUNNING"
  shows "sched_inv s' (pc(h := Left p))"
proof (rule sched_inv_move [OF inv same])
  show "proc_ok s' (pc(h := Left p)) p"
    using sched_inv_alone [OF inv, of h p] pc p by (intro proc_ok_moved) auto
qed (use pc cpu in \<open>auto simp: hart_ok_def\<close>)

lemma sched_inv_arrive:
  assumes inv: "sched_inv s pc" and pc: "pc h = Arrived p" and same: "same_but h p s s'"
    and cpu: "c_proc (cpus s' h) = Some p" "c_noff (cpus s' h) = 0"
    and p: "lk_locked (p_lock (ptable s' p)) = 0" "p_state (ptable s' p) = p_state (ptable s p)"
  shows "sched_inv s' (pc(h := Running p))"
proof (rule sched_inv_move [OF inv same])
  have "p_state (ptable s p) = RUNNING" using inv pc by (auto simp: sched_inv_def proc_ok_def)
  then show "proc_ok s' (pc(h := Running p)) p"
    using sched_inv_alone [OF inv, of h p] pc p by (intro proc_ok_moved) auto
qed (use pc cpu in \<open>auto simp: hart_ok_def\<close>)

lemma same_but_hart [simp]: "same_but h p (s\<lparr>hart := g\<rparr>) s' \<longleftrightarrow> same_but h p s s'"
  by (simp add: same_but_def)

lemma scheduler_pick_eff:
  assumes "scheduler_pick p s = Ok (b, s')"
  shows "lk_locked (p_lock (ptable s p)) = 0" "b \<longleftrightarrow> p_state (ptable s p) = RUNNABLE" "same_but (hart s) p s s'"
    "b \<Longrightarrow> c_proc (cpus s' (hart s)) = Some p \<and> c_noff (cpus s' (hart s)) = c_noff (cpus s (hart s)) + 1 \<and> \<not> sie s' (hart s) \<and>
       locked_by (hart s) (p_lock (ptable s' p)) \<and> p_state (ptable s' p) = RUNNING"
    "\<not> b \<Longrightarrow> c_proc (cpus s' (hart s)) = c_proc (cpus s (hart s)) \<and> c_noff (cpus s' (hart s)) = c_noff (cpus s (hart s)) \<and>
       lk_locked (p_lock (ptable s' p)) = 0 \<and> p_state (ptable s' p) = p_state (ptable s p)"
proof -
  obtain s1 where a: "acquire_proc p s = Ok s1" using assms by (auto simp: scheduler_pick_def bnd_eq_Ok)
  note e = acquire_proc_eff [OF a]
  obtain lk where lk: "ptable s1 p = (ptable s p)\<lparr>p_lock := lk\<rparr>" "locked_by (hart s) lk" using e(3) by blast
  show "lk_locked (p_lock (ptable s p)) = 0" by (rule e)
  show b: "b \<longleftrightarrow> p_state (ptable s p) = RUNNABLE"
    using assms a lk by (auto simp: scheduler_pick_def Let_def bnd_eq_Ok split: if_splits)
  have rel: "release_proc p s1 = Ok s'" if "\<not> b"
    using assms a lk b that by (auto simp: scheduler_pick_def bnd_eq_Ok)
  have run: "s' = swtch_to_proc p (let s = upd_proc p (\<lambda>q. q\<lparr>p_state := RUNNING\<rparr>) s1;
      s = set_mycpu ((mycpu s)\<lparr>c_proc := Some p\<rparr>) s in s\<lparr>satp := (satp s)(cpuid s := MAKE_SATP (p_kerntable (ptable s p)))\<rparr>)" if b
    using assms a lk b that by (auto simp: scheduler_pick_def Let_def)
  show "same_but (hart s) p s s'"
  proof (cases b)
    case True
    show ?thesis unfolding run [OF True] using e(2) by (simp add: swtch_to_proc_def swtch_def Let_def cpu_defs same_but_def)
  next
    case False
    show ?thesis using release_proc_eff(2) [OF rel [OF False]] e(2,5) same_but_trans by metis
  qed
  show "c_proc (cpus s' (hart s)) = Some p \<and> c_noff (cpus s' (hart s)) = c_noff (cpus s (hart s)) + 1 \<and> \<not> sie s' (hart s) \<and>
       locked_by (hart s) (p_lock (ptable s' p)) \<and> p_state (ptable s' p) = RUNNING" if b
    unfolding run [OF that] using e lk by (simp add: swtch_to_proc_def swtch_def Let_def cpu_defs)
  show "c_proc (cpus s' (hart s)) = c_proc (cpus s (hart s)) \<and> c_noff (cpus s' (hart s)) = c_noff (cpus s (hart s)) \<and>
       lk_locked (p_lock (ptable s' p)) = 0 \<and> p_state (ptable s' p) = p_state (ptable s p)" if "\<not> b"
    using release_proc_eff [OF rel [OF that]] e lk by auto
qed

lemma sched_inv_nowhere:
  assumes "sched_inv s pc" and "lk_locked (p_lock (ptable s p)) = 0" and "p_state (ptable s p) \<noteq> RUNNING"
  shows "proc_of (pc g) \<noteq> Some p"
proof -
  have "proc_ok s pc p" using assms(1) by (simp add: sched_inv_def)
  then have "pc g \<noteq> Arrived p" "pc g \<noteq> Left p" "pc g \<noteq> Running p"
    using assms(2,3) by (auto simp: proc_ok_def locked_by_def)
  then show ?thesis by (cases "pc g") auto
qed

lemma sched_inv_hart:
  assumes "sched_inv s pc"
  shows "c_proc (cpus s h) = proc_of (pc h)" "pc h = In_sched \<Longrightarrow> c_noff (cpus s h) = 0" "pc h = Running p \<Longrightarrow> c_noff (cpus s h) = 0"
    "pc h = Arrived p \<Longrightarrow> c_noff (cpus s h) = 1 \<and> \<not> sie s h" "pc h = Left p \<Longrightarrow> c_noff (cpus s h) = 1 \<and> \<not> sie s h"
proof -
  have "hart_ok s h (pc h)" using assms by (simp add: sched_inv_def)
  then show "c_proc (cpus s h) = proc_of (pc h)" "pc h = In_sched \<Longrightarrow> c_noff (cpus s h) = 0" "pc h = Running p \<Longrightarrow> c_noff (cpus s h) = 0"
    "pc h = Arrived p \<Longrightarrow> c_noff (cpus s h) = 1 \<and> \<not> sie s h" "pc h = Left p \<Longrightarrow> c_noff (cpus s h) = 1 \<and> \<not> sie s h"
    by (simp_all add: hart_ok_def)
qed

lemma sched_inv_pick:
  assumes inv: "sched_inv s pc" and pc: "pc h = In_sched" and pick: "scheduler_pick p (s\<lparr>hart := h\<rparr>) = Ok (b, s')"
  shows "sched_inv s' (if b then pc(h := Arrived p) else pc)"
proof -
  note e = scheduler_pick_eff [OF pick, simplified] and hh = sched_inv_hart [OF inv, of h]
  show ?thesis
  proof (cases b)
    case True
    have "\<forall>g. proc_of (pc g) \<noteq> Some p" using sched_inv_nowhere [OF inv e(1)] e(2) True by auto
    then have "proc_ok s' (pc(h := Arrived p)) p" using e(4) True by (intro proc_ok_moved) auto
    then have "sched_inv s' (pc(h := Arrived p))"
      using e(3,4) True hh pc by (intro sched_inv_move [OF inv, of h p]) (auto simp: hart_ok_def)
    then show ?thesis using True by simp
  next
    case False
    note f = e(5) [OF False]
    have "proc_ok s pc p" using inv by (simp add: sched_inv_def)
    then have "proc_ok s' (pc(h := In_sched)) p"
      unfolding fun_upd_idem [of pc, OF pc] using f e(1) by (auto simp: proc_ok_def locked_by_def)
    then have "sched_inv s' (pc(h := In_sched))"
      using e(3) f hh pc by (intro sched_inv_move [OF inv, of h p]) (auto simp: hart_ok_def)
    then show ?thesis using False pc by (simp add: fun_upd_idem)
  qed
qed

lemma myproc_at: "c_proc (cpus s h) = x \<Longrightarrow> myproc (s\<lparr>hart := h\<rparr>) = x"
  by (simp add: myproc_def mycpu_def cpuid_def)

lemma same_but_upd [simp]: "same_but h p s (upd_proc p f t) \<longleftrightarrow> same_but h p s t"
  by (simp add: same_but_def)

text \<open>The end of a switch to \<open>p\<close>: its lock is released, whatever the process was switched out by.\<close>

definition arrives :: "nat \<Rightarrow> nat \<Rightarrow> 'a kernel_state_scheme \<Rightarrow> 'a kernel_state_scheme \<Rightarrow> bool" where
  "arrives h p s s' \<longleftrightarrow> same_but h p s s' \<and> c_proc (cpus s' h) = c_proc (cpus s h) \<and>
     c_noff (cpus s' h) = c_noff (cpus s h) - 1 \<and> lk_locked (p_lock (ptable s' p)) = 0 \<and>
     p_state (ptable s' p) = p_state (ptable s p)"

lemma arrives_release:
  assumes same: "same_but h p s t" "cpus t h = (cpus s h)\<lparr>c_intena := i\<rparr>" "p_state (ptable t p) = p_state (ptable s p)"
    and rel: "release_proc p t = Ok s'"
  shows "arrives h p s s'"
proof -
  have h: "hart t = h" using same by (simp add: same_but_def)
  note e = release_proc_eff [OF rel, unfolded h]
  show ?thesis using e same same_but_trans [OF same(1) e(2)] by (auto simp: arrives_def)
qed

lemma arrives_yield_back:
  assumes "yield_back intena (s\<lparr>hart := h\<rparr>) = Ok s'" and "c_proc (cpus s h) = Some p"
  shows "arrives h p s s'"
proof -
  let ?t = "sched_return intena (s\<lparr>hart := h\<rparr>)"
  have "release_proc p ?t = Ok s'" using assms by (simp add: yield_back_def myproc_at)
  then show ?thesis by (intro arrives_release [of h p s ?t intena]) (simp_all add: sched_return_def cpu_defs same_but_def)
qed

lemma arrives_sleep_back:
  assumes slp: "sleep_back lk intena (s\<lparr>hart := h\<rparr>) = Ok (lk', s1)" and rel: "release lk' s1 = Ok (lk'', s')"
    and my: "c_proc (cpus s h) = Some p"
  shows "arrives h p s s'"
proof -
  let ?t = "upd_proc p (\<lambda>q. q\<lparr>p_chan := Null_chan\<rparr>) (sched_return intena (s\<lparr>hart := h\<rparr>))"
  obtain s0 where r0: "release_proc p ?t = Ok s0" and acq: "acquire lk s0 = Ok (lk', s1)"
    using slp my by (auto simp: sleep_back_def Let_def bnd_eq_Ok myproc_at)
  have a: "arrives h p s s0"
    using r0 by (intro arrives_release [of h p s ?t intena]) (simp_all add: sched_return_def cpu_defs same_but_def)
  have s1: "s1 = push_off s0" using acquire_eff(3) [OF acq] .
  have h0: "hart s0 = h" using a by (simp add: arrives_def same_but_def)
  have h1: "hart s1 = h" "same_but h p s0 s1" "ptable s1 = ptable s0" "c_proc (cpus s1 h) = c_proc (cpus s0 h)"
      "c_noff (cpus s1 h) = c_noff (cpus s0 h) + 1"
    unfolding s1 using h0 push_off_same(5) [of s0] by (simp_all add: push_off_same)
  note p = pop_off_same [OF release_eff(3) [OF rel], unfolded h1(1)]
  have "same_but h p s0 s'" using same_but_trans [OF h1(2) p(1)] by simp
  then show ?thesis using a p h1 same_but_trans [of h p s s0 s'] by (simp add: arrives_def)
qed

text \<open>The start of a switch away from \<open>p\<close>: the state in which \<^verbatim>\<open>sched\<close> is called.\<close>

definition calls_sched :: "nat \<Rightarrow> nat \<Rightarrow> 'a kernel_state_scheme \<Rightarrow> 'a kernel_state_scheme \<Rightarrow> bool" where
  "calls_sched h p s s' \<longleftrightarrow> (\<exists>t intena. same_but h p s t \<and> c_proc (cpus t h) = Some p \<and> sched_enter t = Ok (intena, s'))"

lemma calls_sched_acquired:
  assumes a: "acquire_proc p (s\<lparr>hart := h\<rparr>) = Ok s1" and c: "c_proc (cpus s h) = Some p"
    and sch: "sched_enter (upd_proc p f s1) = Ok (intena, s')"
  shows "calls_sched h p s s'"
proof -
  have "same_but h p s (upd_proc p f s1)" "c_proc (cpus (upd_proc p f s1) h) = Some p" using acquire_proc_eff [OF a] c by simp_all
  then show ?thesis using sch unfolding calls_sched_def by blast
qed

lemma calls_sched_yield:
  assumes y: "yield_enter (s\<lparr>hart := h\<rparr>) = Ok (intena, s')" and c: "c_proc (cpus s h) = Some p"
  shows "calls_sched h p s s'"
proof -
  obtain s1 where a: "acquire_proc p (s\<lparr>hart := h\<rparr>) = Ok s1"
      and sch: "sched_enter (upd_proc p (\<lambda>q. q\<lparr>p_state := RUNNABLE\<rparr>) s1) = Ok (intena, s')"
    using y c by (auto simp: yield_enter_def myproc_at bnd_eq_Ok)
  show ?thesis by (rule calls_sched_acquired [OF a c sch])
qed

lemma calls_sched_sleep:
  assumes lk: "acquire lk (s\<lparr>hart := h\<rparr>) = Ok (lk', s1)" and slp: "sleep_enter c lk' s1 = Ok (lk'', intena, s')"
    and cp: "c_proc (cpus s h) = Some p"
  shows "calls_sched h p s s'"
proof -
  have s1: "s1 = push_off (s\<lparr>hart := h\<rparr>)" by (rule acquire_eff(3) [OF lk])
  have my: "myproc s1 = Some p" unfolding s1 using cp by (simp add: myproc_def mycpu_def cpuid_def push_off_same)
  obtain s2 s3 where a: "acquire_proc p s1 = Ok s2" and r: "release lk' s2 = Ok (lk'', s3)"
      and sch: "sched_enter (upd_proc p (\<lambda>q. q\<lparr>p_chan := c, p_state := SLEEPING\<rparr>) s3) = Ok (intena, s')"
    using slp my by (auto simp: sleep_enter_def bnd_eq_Ok)
  have h1: "hart s1 = h" "same_but h p s s1" unfolding s1 by (simp_all add: push_off_eq same_but_def)
  note e = acquire_proc_eff [OF a, unfolded h1(1)] and f = pop_off_same [OF release_eff(3) [OF r]]
  have "same_but h p s s3" using same_but_trans [OF same_but_trans [OF h1(2) e(2)] f(1) [OF e(5)]] .
  moreover have "c_proc (cpus s3 h) = Some p" using f(3) e(4) cp unfolding s1 by (simp add: push_off_same)
  ultimately show ?thesis using sch unfolding calls_sched_def by (intro exI [of _ "upd_proc p _ s3"]) auto
qed

lemma calls_sched_eff:
  assumes "calls_sched h p s s'"
  shows "same_but h p s s'" "c_proc (cpus s' h) = Some p" "c_noff (cpus s' h) = 1" "\<not> sie s' h"
    "locked_by h (p_lock (ptable s' p))" "p_state (ptable s' p) \<noteq> RUNNING"
proof -
  obtain t intena where t: "same_but h p s t" "c_proc (cpus t h) = Some p" "sched_enter t = Ok (intena, s')"
    using assms by (auto simp: calls_sched_def)
  have h: "hart t = h" using t by (simp add: same_but_def)
  note e = sched_enter_eff [OF t(3), unfolded h, OF t(2)]
  show "same_but h p s s'" by (rule same_but_trans [OF t(1) e(5)])
  show "c_proc (cpus s' h) = Some p" "c_noff (cpus s' h) = 1" "\<not> sie s' h" "locked_by h (p_lock (ptable s' p))"
    "p_state (ptable s' p) \<noteq> RUNNING" using e t by simp_all
qed

text \<open>The end of a switch away from \<open>p\<close>.\<close>

lemma scheduler_back_eff:
  assumes b: "scheduler_back p (s\<lparr>hart := h\<rparr>) = Ok s'"
  shows "same_but h p s s'" "c_proc (cpus s' h) = None" "c_noff (cpus s' h) = c_noff (cpus s h) - 1"
    "lk_locked (p_lock (ptable s' p)) = 0" "p_state (ptable s' p) = p_state (ptable s p)"
proof -
  define t where "t = set_mycpu ((mycpu (kvminithart (s\<lparr>hart := h\<rparr>)))\<lparr>c_proc := None\<rparr>) (kvminithart (s\<lparr>hart := h\<rparr>))"
  have rel: "release_proc p t = Ok s'" using b by (simp add: scheduler_back_def t_def Let_def)
  have t: "hart t = h" "same_but h p s t" "ptable t = ptable s" "cpus t h = (cpus s h)\<lparr>c_proc := None\<rparr>"
    by (simp_all add: t_def kvminithart_def cpu_defs same_but_def)
  note e = release_proc_eff [OF rel, unfolded t(1)]
  show "same_but h p s s'" by (rule same_but_trans [OF t(2) e(2)])
  show "c_proc (cpus s' h) = None" "c_noff (cpus s' h) = c_noff (cpus s h) - 1"
    "lk_locked (p_lock (ptable s' p)) = 0" "p_state (ptable s' p) = p_state (ptable s p)"
    using e t by auto
qed

section \<open>The invariant is kept\<close>

lemma sched_inv_arrives:
  assumes inv: "sched_inv s pc" and pc: "pc h = Arrived p" and a: "arrives h p s s'"
  shows "sched_inv s' (pc(h := Running p))"
  using a sched_inv_hart [OF inv, of h] pc by (intro sched_inv_arrive [OF inv pc]) (simp_all add: arrives_def)

lemma sched_inv_calls_sched:
  assumes inv: "sched_inv s pc" and pc: "pc h = Running p" and c: "calls_sched h p s s'"
  shows "sched_inv s' (pc(h := Left p))"
  using calls_sched_eff [OF c] by (intro sched_inv_leave [OF inv pc])

lemma sched_inv_left:
  assumes inv: "sched_inv s pc" and pc: "pc h = Left p"
  shows "p_state (ptable s p) \<noteq> RUNNING"
proof
  assume "p_state (ptable s p) = RUNNING"
  then obtain g where "pc g = Arrived p \<or> pc g = Running p" using inv by (auto simp: sched_inv_def proc_ok_def)
  then show False using sched_inv_alone [OF inv, of h p] pc by (cases "g = h") auto
qed

lemma sched_inv_returns:
  assumes inv: "sched_inv s pc" and pc: "pc h = Left p" and b: "scheduler_back p (s\<lparr>hart := h\<rparr>) = Ok s'"
  shows "sched_inv s' (pc(h := In_sched))"
proof -
  note e = scheduler_back_eff [OF b]
  have "\<forall>g. g \<noteq> h \<longrightarrow> proc_of (pc g) \<noteq> Some p" using sched_inv_alone [OF inv, of h p] pc by simp
  then have "proc_ok s' (pc(h := In_sched)) p" using e sched_inv_left [OF inv pc] by (intro proc_ok_moved) auto
  then show ?thesis
    using sched_inv_hart [OF inv, of h] pc e by (intro sched_inv_move [OF inv e(1)]) (auto simp: hart_ok_def)
qed

lemma sched_inv_table:
  assumes inv: "sched_inv s pc" and lk: "p_lock (f (ptable s i)) = p_lock (ptable s i)"
    and st: "(p_state (ptable s i), p_state (f (ptable s i))) \<in> table_moves"
  shows "sched_inv (upd_proc i f s) pc"
proof -
  have "p_state (ptable s i) \<noteq> RUNNING" "p_state (f (ptable s i)) \<noteq> RUNNING" using st by (auto simp: table_moves_def)
  then have "proc_ok (upd_proc i f s) pc p" for p
    using inv lk by (cases "p = i") (auto simp: sched_inv_def proc_ok_def)
  moreover have "hart_ok (upd_proc i f s) h w \<longleftrightarrow> hart_ok s h w" for h w by (simp add: hart_ok_def split: place.splits)
  ultimately show ?thesis using inv by (simp add: sched_inv_def)
qed

lemma sched_inv_step:
  assumes "sched_step s pc s' pc'" and "sched_inv s pc"
  shows "sched_inv s' pc'"
  using assms
proof (induction rule: sched_step.induct)
  case (pick_run pc h p s s')
  then show ?case using sched_inv_pick [of s pc h p True s'] by (simp only: if_True)
next
  case (pick_skip pc h p s s')
  then show ?case using sched_inv_pick [of s pc h p False s'] by (simp only: if_False)
next
  case (arrive pc h p intena s s')
  then show ?case using sched_inv_hart(1) [of s pc h] by (intro sched_inv_arrives arrives_yield_back) simp_all
next
  case (arrive_new pc h p s s')
  have "arrives h p s s'"
    by (rule arrives_release [OF _ _ _ arrive_new(2), of h s "c_intena (cpus s h)"]) (simp_all add: same_but_def)
  then show ?case using arrive_new by (intro sched_inv_arrives)
next
  case (arrive_woken pc h p lk intena s lk' s1 lk'' s')
  then show ?case using sched_inv_hart(1) [of s pc h] by (intro sched_inv_arrives arrives_sleep_back) simp_all
next
  case (yields pc h p s intena s')
  then show ?case using sched_inv_hart(1) [of s pc h] by (intro sched_inv_calls_sched calls_sched_yield) simp_all
next
  case (sleeps pc h p lk s lk' s1 c lk'' intena s')
  then show ?case using sched_inv_hart(1) [of s pc h] by (intro sched_inv_calls_sched calls_sched_sleep) simp_all
next
  case (exits pc h p s s1 status intena s')
  then show ?case using sched_inv_hart(1) [of s pc h] by (intro sched_inv_calls_sched calls_sched_acquired) simp_all
qed (auto intro: sched_inv_returns sched_inv_table)

lemma sched_inv_reach: "sched_reach s pc \<Longrightarrow> sched_inv s pc"
proof (induction rule: sched_reach.induct)
  case (start s)
  then show ?case by (auto simp: sched_init_def sched_inv_def hart_ok_def proc_ok_def)
qed (rule sched_inv_step)

section \<open>No panic in the scheduler\<close>

lemma release_free:
  assumes "locked_by (hart s) lk" and "c_noff (cpus s (hart s)) = 1" and "\<not> sie s (hart s)"
  shows "\<exists>lk' s'. release lk s = Ok (lk', s')"
  using assms by (auto simp: release_def holding_def locked_by_def pop_off_def cpu_defs Let_def)

lemma release_proc_free:
  assumes "locked_by (hart s) (p_lock (ptable s p))" and "c_noff (cpus s (hart s)) = 1" and "\<not> sie s (hart s)"
  shows "\<exists>s'. release_proc p s = Ok s'"
  using release_free [OF assms] by (auto simp: release_proc_def)

lemma acquire_proc_free:
  assumes "lk_locked (p_lock (ptable s p)) = 0"
  shows "\<exists>s'. acquire_proc p s = Ok s'"
  using assms by (auto simp: acquire_proc_def acquire_def Let_def holding_def test_and_set_def)

lemma acquire_proc_busy:
  assumes "lk_locked (p_lock (ptable s p)) \<noteq> 0" and "lk_cpu (p_lock (ptable s p)) \<noteq> Some (hart s)"
  shows "acquire_proc p s = Waits ''spinlock''"
  using assms by (simp add: acquire_proc_def acquire_def Let_def holding_def test_and_set_def cpuid_def push_off_same)

lemma scheduler_pick_free:
  assumes free: "lk_locked (p_lock (ptable s p)) = 0" and n: "c_noff (cpus s (hart s)) = 0"
  shows "\<exists>s'. scheduler_pick p s = Ok (p_state (ptable s p) = RUNNABLE, s')"
proof -
  obtain s1 where a: "acquire_proc p s = Ok s1" using acquire_proc_free [OF free] by blast
  note e = acquire_proc_eff [OF a]
  obtain lk where lk: "ptable s1 p = (ptable s p)\<lparr>p_lock := lk\<rparr>" "locked_by (hart s) lk" using e(3) by blast
  obtain s2 where "release_proc p s1 = Ok s2" using release_proc_free [of s1 p] lk e n by auto
  then show ?thesis using a lk by (simp add: scheduler_pick_def Let_def)
qed

lemma yield_enter_free:
  assumes free: "lk_locked (p_lock (ptable s p)) = 0" and n: "c_noff (cpus s (hart s)) = 0" and p: "c_proc (cpus s (hart s)) = Some p"
  shows "\<exists>r. yield_enter s = Ok r"
proof -
  obtain s1 where a: "acquire_proc p s = Ok s1" using acquire_proc_free [OF free] by blast
  note e = acquire_proc_eff [OF a]
  have "myproc s = Some p" "myproc s1 = Some p" using p e(4,5) by (simp_all add: myproc_def mycpu_def cpuid_def)
  then show ?thesis
    using a e n by (auto simp: yield_enter_def sched_enter_def holding_def locked_by_def mycpu_def cpuid_def intr_get_def)
qed

lemma scheduler_back_free:
  assumes "locked_by h (p_lock (ptable s p))" and "c_noff (cpus s h) = 1" and "\<not> sie s h"
  shows "\<exists>s'. scheduler_back p (s\<lparr>hart := h\<rparr>) = Ok s'"
  using assms unfolding scheduler_back_def Let_def
  by (intro release_proc_free) (simp_all add: kvminithart_def cpu_defs)

section \<open>What the protocol guarantees\<close>

text \<open>
  C1: Whatever the harts do, a process is on at most one CPU, from the switch to it until its
  scheduler has the CPU again, so that two CPUs never use one kernel stack; the structure of
  each CPU names the process that is on it; and the state of a process is \<^verbatim>\<open>RUNNING\<close> exactly
  while a CPU runs it.  A process that is being switched to or away from is locked by that CPU.
\<close>

theorem process_on_one_cpu:
  assumes "sched_reach s pc"
  shows "(\<forall>h h' p. proc_of (pc h) = Some p \<and> proc_of (pc h') = Some p \<longrightarrow> h = h') \<and>
    (\<forall>h. c_proc (cpus s h) = proc_of (pc h)) \<and>
    (\<forall>p. p_state (ptable s p) = RUNNING \<longleftrightarrow> (\<exists>h. pc h = Arrived p \<or> pc h = Running p)) \<and>
    (\<forall>h p. pc h = Arrived p \<or> pc h = Left p \<longrightarrow> locked_by h (p_lock (ptable s p)))"
proof -
  note inv = sched_inv_reach [OF assms]
  have "proc_ok s pc p" for p using inv by (simp add: sched_inv_def)
  then show ?thesis using sched_inv_hart(1) [OF inv] unfolding proc_ok_def by blast
qed

text \<open>A state in which process 3 is ready to run.\<close>

definition one_ready :: kernel_state where
  "one_ready = upd_proc 3 (\<lambda>p. p\<lparr>p_state := RUNNABLE\<rparr>) boot_state"

lemma one_ready_init: "sched_reach one_ready (\<lambda>_. In_sched)"
  by (rule sched_reach.start) (auto simp: sched_init_def one_ready_def zero_simps initlock_def)

lemma one_ready_picked: "\<exists>s :: kernel_state. sched_reach s ((\<lambda>_. In_sched)(5 := Arrived 3))"
proof -
  have "lk_locked (p_lock (ptable one_ready 3)) = 0" "c_noff (cpus one_ready 5) = 0" "p_state (ptable one_ready 3) = RUNNABLE"
    by (simp_all add: one_ready_def zero_simps initlock_def)
  then obtain s' where "scheduler_pick 3 (one_ready\<lparr>hart := 5\<rparr>) = Ok (True, s')"
    using scheduler_pick_free [of "one_ready\<lparr>hart := 5\<rparr>" 3] by auto
  then have "sched_step one_ready (\<lambda>_. In_sched) s' ((\<lambda>_. In_sched)(5 := Arrived 3))" by (intro sched_step.pick_run) simp_all
  then show ?thesis using sched_reach.step [OF one_ready_init] by blast
qed

theorem process_on_one_cpu_witness:
  "\<exists>(s :: kernel_state) (pc :: nat \<Rightarrow> place). pc 5 = Arrived 3 \<and> (\<forall>h. proc_of (pc h) = Some 3 \<longrightarrow> h = 5) \<and> p_state (ptable s 3) = RUNNING"
proof -
  obtain s :: kernel_state where r: "sched_reach s ((\<lambda>_. In_sched)(5 := Arrived 3))" using one_ready_picked by blast
  define pc :: "nat \<Rightarrow> place" where "pc = (\<lambda>_. In_sched)(5 := Arrived 3)"
  have pc: "pc 5 = Arrived 3" by (simp add: pc_def)
  note g = process_on_one_cpu [OF r, folded pc_def]
  have "\<forall>h. proc_of (pc h) = Some 3 \<longrightarrow> h = 5" using g [THEN conjunct1] pc by (metis proc_of.simps(2))
  moreover have "p_state (ptable s 3) = RUNNING" using g [THEN conjunct2, THEN conjunct2, THEN conjunct1] pc by blast
  ultimately show ?thesis using pc by blast
qed

text \<open>
  C2: In every reachable state the scheduler's protocol goes on without a panic: the scan
  of a process by a scheduler skips it, runs it or waits for its lock; a running process can give
  up its CPU; and the scheduler that gets the CPU
  back releases the process's lock.
\<close>

theorem scheduler_never_panics:
  assumes "sched_reach s pc"
  shows "(pc h = In_sched \<longrightarrow> (\<exists>b s'. scheduler_pick p (s\<lparr>hart := h\<rparr>) = Ok (b, s')) \<or> scheduler_pick p (s\<lparr>hart := h\<rparr>) = Waits ''spinlock'') \<and>
    (pc h = Running p \<longrightarrow> (\<exists>r. yield_enter (s\<lparr>hart := h\<rparr>) = Ok r)) \<and>
    (pc h = Left p \<longrightarrow> (\<exists>s'. scheduler_back p (s\<lparr>hart := h\<rparr>) = Ok s')) \<and>
    (pc h = Arrived p \<longrightarrow> (\<exists>s'. release_proc p (s\<lparr>hart := h\<rparr>) = Ok s'))"
proof -
  note inv = sched_inv_reach [OF assms]
  note hh = sched_inv_hart [OF inv, of h]
  have ok: "proc_ok s pc p" using inv by (simp add: sched_inv_def)
  have "scheduler_pick p (s\<lparr>hart := h\<rparr>) = Waits ''spinlock''" if pc: "pc h = In_sched" and lk: "lk_locked (p_lock (ptable s p)) \<noteq> 0"
  proof -
    obtain g where "pc g = Arrived p \<or> pc g = Left p" "locked_by g (p_lock (ptable s p))" using ok lk unfolding proc_ok_def by blast
    then have "lk_cpu (p_lock (ptable s p)) \<noteq> Some h" using pc by (auto simp: locked_by_def)
    then show ?thesis using acquire_proc_busy [of "s\<lparr>hart := h\<rparr>" p] lk by (simp add: scheduler_pick_def)
  qed
  moreover have "\<exists>b s'. scheduler_pick p (s\<lparr>hart := h\<rparr>) = Ok (b, s')" if "pc h = In_sched" "lk_locked (p_lock (ptable s p)) = 0"
    using scheduler_pick_free [of "s\<lparr>hart := h\<rparr>" p] that hh by auto
  moreover have "\<exists>r. yield_enter (s\<lparr>hart := h\<rparr>) = Ok r" if pc: "pc h = Running p"
  proof -
    have "lk_locked (p_lock (ptable s p)) = 0"
    proof (rule ccontr)
      assume "lk_locked (p_lock (ptable s p)) \<noteq> 0"
      then obtain g where "pc g = Arrived p \<or> pc g = Left p" using ok by (auto simp: proc_ok_def)
      then show False using sched_inv_alone [OF inv, of h p] pc by (cases "g = h") auto
    qed
    then show ?thesis using yield_enter_free [of "s\<lparr>hart := h\<rparr>" p] hh pc by simp
  qed
  moreover have "\<exists>s'. scheduler_back p (s\<lparr>hart := h\<rparr>) = Ok s'" if "pc h = Left p"
    using scheduler_back_free [of h s p] hh ok that unfolding proc_ok_def by blast
  moreover have "\<exists>s'. release_proc p (s\<lparr>hart := h\<rparr>) = Ok s'" if "pc h = Arrived p"
    using release_proc_free [of "s\<lparr>hart := h\<rparr>" p] hh ok that unfolding proc_ok_def by simp
  ultimately show ?thesis by blast
qed

theorem scheduler_never_panics_witness:
  "\<exists>(s :: kernel_state) s'. release_proc 3 (s\<lparr>hart := 5\<rparr>) = Ok s'"
proof -
  obtain s :: kernel_state where r: "sched_reach s ((\<lambda>_. In_sched)(5 := Arrived 3))" using one_ready_picked by blast
  show ?thesis using scheduler_never_panics [OF r, of 5 3] by auto
qed

lemma sched_step_runnable:
  assumes "sched_step s pc s' pc'" and "sched_inv s pc" and "p_state (ptable s p) = RUNNABLE"
  shows "p_state (ptable s' p) = RUNNABLE \<or> (\<exists>h. pc' h = Arrived p)"
proof -
  have keep: "p_state (ptable s' p) = RUNNABLE" if "same_but h q s s'" "p_state (ptable s q) = RUNNING" for h q
    using that assms(3) by (cases "q = p") (auto simp: same_but_def)
  have running: "pc h = Arrived q \<or> pc h = Running q \<Longrightarrow> p_state (ptable s q) = RUNNING" for h q
    using assms(2) by (auto simp: sched_inv_def proc_ok_def)
  have here: "pc h = Arrived q \<or> pc h = Running q \<Longrightarrow> c_proc (cpus s h) = Some q" for h q
    using sched_inv_hart(1) [OF assms(2), of h] by auto
  show ?thesis
    using assms(1)
  proof cases
    case (pick_run h q)
    show ?thesis
    proof (cases "q = p")
      case False
      then show ?thesis using scheduler_pick_eff(3) [OF pick_run(3)] assms(3) by (simp add: same_but_def)
    qed (use pick_run(1) in auto)
  next
    case (pick_skip h q)
    then show ?thesis using scheduler_pick_eff(2,3) [OF pick_skip(3)] assms(3) by (cases "q = p") (auto simp: same_but_def)
  next
    case (arrive h q intena)
    have "same_but h q s s'" using arrives_yield_back [OF arrive(3) here] arrive(2) by (simp add: arrives_def)
    then show ?thesis using keep [of h q] running [of h q] arrive(2) by simp
  next
    case (arrive_new h q)
    then show ?thesis using keep running release_proc_eff(2) [OF arrive_new(3)] by auto
  next
    case (arrive_woken h q lk intena lk' s1 lk'')
    have "same_but h q s s'" using arrives_sleep_back [OF arrive_woken(3,4) here] arrive_woken(2) by (simp add: arrives_def)
    then show ?thesis using keep [of h q] running [of h q] arrive_woken(2) by simp
  next
    case (yields h q intena)
    have "same_but h q s s'" using calls_sched_eff(1) [OF calls_sched_yield [OF yields(3) here]] yields(2) by simp
    then show ?thesis using keep [of h q] running [of h q] yields(2) by simp
  next
    case (sleeps h q lk lk' s1 c lk'' intena)
    have "same_but h q s s'" using calls_sched_eff(1) [OF calls_sched_sleep [OF sleeps(3,4) here]] sleeps(2) by simp
    then show ?thesis using keep [of h q] running [of h q] sleeps(2) by simp
  next
    case (exits h q s1 status intena)
    have "same_but h q s s'" using calls_sched_eff(1) [OF calls_sched_acquired [OF exits(3) here exits(4)]] exits(2) by simp
    then show ?thesis using keep [of h q] running [of h q] exits(2) by simp
  next
    case (returns h q)
    note e = scheduler_back_eff [OF returns(3)]
    then show ?thesis using assms(3) by (cases "q = p") (auto simp: same_but_def)
  next
    case (table h q i f)
    then show ?thesis using assms(3) by (auto simp: table_moves_def)
  qed
qed

text \<open>
  C3: A runnable process is not forgotten.  No step takes it out of \<^verbatim>\<open>RUNNABLE\<close> other than a
  scheduler that runs it.  Every scheduler whose scan comes to it while its lock is free runs it;
  and if its lock is taken, the CPU that holds it has just switched away from the process and
  its next step, which does not wait, frees the lock and leaves the process runnable.
\<close>

theorem runnable_process_is_run:
  assumes "sched_reach s pc" and "p_state (ptable s p) = RUNNABLE"
  shows "(\<forall>s' pc'. sched_step s pc s' pc' \<longrightarrow> p_state (ptable s' p) = RUNNABLE \<or> (\<exists>h. pc' h = Arrived p)) \<and>
    (lk_locked (p_lock (ptable s p)) = 0 \<longrightarrow>
       (\<forall>h. pc h = In_sched \<longrightarrow> (\<exists>s'. scheduler_pick p (s\<lparr>hart := h\<rparr>) = Ok (True, s')))) \<and>
    (lk_locked (p_lock (ptable s p)) \<noteq> 0 \<longrightarrow>
       (\<exists>h s'. pc h = Left p \<and> scheduler_back p (s\<lparr>hart := h\<rparr>) = Ok s' \<and>
          lk_locked (p_lock (ptable s' p)) = 0 \<and> p_state (ptable s' p) = RUNNABLE))"
proof -
  note inv = sched_inv_reach [OF assms(1)]
  have ok: "proc_ok s pc p" using inv by (simp add: sched_inv_def)
  have "\<exists>s'. scheduler_pick p (s\<lparr>hart := h\<rparr>) = Ok (True, s')" if "lk_locked (p_lock (ptable s p)) = 0" "pc h = In_sched" for h
    using scheduler_pick_free [of "s\<lparr>hart := h\<rparr>" p] that assms(2) sched_inv_hart(2) [OF inv, of h] by simp
  moreover have "\<exists>h s'. pc h = Left p \<and> scheduler_back p (s\<lparr>hart := h\<rparr>) = Ok s' \<and>
      lk_locked (p_lock (ptable s' p)) = 0 \<and> p_state (ptable s' p) = RUNNABLE" if lk: "lk_locked (p_lock (ptable s p)) \<noteq> 0"
  proof -
    obtain h where h: "pc h = Left p" "locked_by h (p_lock (ptable s p))"
      using ok lk assms(2) unfolding proc_ok_def by auto
    then obtain s' where "scheduler_back p (s\<lparr>hart := h\<rparr>) = Ok s'"
      using scheduler_back_free [of h s p] sched_inv_hart(5) [OF inv h(1)] by blast
    then show ?thesis using h scheduler_back_eff(4,5) assms(2) by metis
  qed
  ultimately show ?thesis using sched_step_runnable [OF _ inv assms(2)] by blast
qed

theorem runnable_process_is_run_witness:
  "\<exists>s'. scheduler_pick 3 (one_ready\<lparr>hart := 5\<rparr>) = Ok (True, s')"
proof -
  have "p_state (ptable one_ready 3) = RUNNABLE" "lk_locked (p_lock (ptable one_ready 3)) = 0"
    by (simp_all add: one_ready_def zero_simps initlock_def)
  then show ?thesis using runnable_process_is_run [OF one_ready_init, of 3] by simp
qed

end
