(* ===== verification/Bcache.thy ===== *)
theory Bcache
  imports Bio
begin

text \<open>
  Correctness of the buffer cache of \<^verbatim>\<open>kernel/bio.c\<close>.  The doubly linked list of buffers
  is a list of their indices in order of use, and the operations on the links are operations
  on that list; a cache in which no buffer is in use is described by the blocks that are
  pinned in it, so that its clients can reason about blocks instead of buffers.
\<close>

section \<open>The list of buffers\<close>

fun path :: "(nat \<Rightarrow> nat) \<Rightarrow> nat \<Rightarrow> nat list \<Rightarrow> nat \<Rightarrow> bool" where
  "path f a [] b \<longleftrightarrow> f a = b"
| "path f a (x # xs) b \<longleftrightarrow> f a = x \<and> path f x xs b"

lemma path_append [simp]: "path f a (xs @ y # ys) b \<longleftrightarrow> path f a xs y \<and> path f y ys b"
  by (induction xs arbitrary: a) auto

lemma path_upd [simp]: "z \<noteq> a \<Longrightarrow> z \<notin> set xs \<Longrightarrow> path (f(z := v)) a xs b = path f a xs b"
  by (induction xs arbitrary: a) auto

lemma path_first: "path f a xs b \<Longrightarrow> f a = hd (xs @ [b])"
  by (cases xs) auto

lemma path_redirect:
  "path f a xs b \<Longrightarrow> distinct xs \<Longrightarrow> a \<notin> set xs \<Longrightarrow> path (f((last (a # xs)) := c)) a xs c"
  by (induction xs arbitrary: a) auto

lemma path_start:
  "path f a xs y \<Longrightarrow> f' c = f a \<Longrightarrow> (\<And>z. z \<in> set xs \<Longrightarrow> f' z = f z) \<Longrightarrow> path f' c xs y"
proof (induction xs arbitrary: a c)
  case (Cons x xs)
  then show ?case using Cons.IH [of x x] by simp
qed simp

lemma follow_path:
  "path f a xs NBUF \<Longrightarrow> NBUF \<notin> set xs \<Longrightarrow> length xs \<le> n \<Longrightarrow> follow f n (f a) = xs"
proof (induction xs arbitrary: a n)
  case Nil
  then show ?case by (cases n) auto
next
  case (Cons x xs)
  then show ?case by (cases n) auto
qed

definition nexts :: "'a bio_state_scheme \<Rightarrow> nat \<Rightarrow> nat" where
  "nexts s b = b_next (bufs s b)"

definition prevs :: "'a bio_state_scheme \<Rightarrow> nat \<Rightarrow> nat" where
  "prevs s b = b_prev (bufs s b)"

definition lru_ok :: "nat list \<Rightarrow> 'a bio_state_scheme \<Rightarrow> bool" where
  "lru_ok L s \<longleftrightarrow> distinct L \<and> set L = {..<NBUF} \<and> path (nexts s) NBUF L NBUF \<and> path (prevs s) NBUF (rev L) NBUF"

lemma bufs_upd_buf [simp]: "bufs (upd_buf b f s) = (bufs s)(b := f (bufs s b))"
  by (simp add: upd_buf_def)

lemma nexts_upd [simp]: "nexts (upd_buf b (\<lambda>x. x\<lparr>b_next := v\<rparr>) s) = (nexts s)(b := v)"
  "nexts (upd_buf b (\<lambda>x. x\<lparr>b_prev := v\<rparr>) s) = nexts s"
  by (auto simp: nexts_def)

lemma prevs_upd [simp]: "prevs (upd_buf b (\<lambda>x. x\<lparr>b_prev := v\<rparr>) s) = (prevs s)(b := v)"
  "prevs (upd_buf b (\<lambda>x. x\<lparr>b_next := v\<rparr>) s) = prevs s"
  by (auto simp: prevs_def)

lemma lru_okD:
  assumes "lru_ok L s"
  shows "distinct L" "set L = {..<NBUF}" "length L = NBUF" "lru_forward s = L" "lru_backward s = rev L"
proof -
  show L: "distinct L" "set L = {..<NBUF}" using assms by (simp_all add: lru_ok_def)
  then show len: "length L = NBUF" using distinct_card [of L] by simp
  show "lru_forward s = L" "lru_backward s = rev L"
    using assms L len follow_path [of "nexts s" NBUF L NBUF] follow_path [of "prevs s" NBUF "rev L" NBUF]
    by (simp_all add: lru_ok_def lru_forward_def lru_backward_def nexts_def [abs_def] prevs_def [abs_def])
qed

lemma links_of_member:
  assumes "lru_ok (A @ b # B) s"
  shows "prevs s b = last (NBUF # A)" "nexts s b = hd (B @ [NBUF])" "nexts s NBUF = hd (A @ [b])"
    "prevs s NBUF = last (b # B)"
proof -
  have p: "path (nexts s) NBUF A b" "path (nexts s) b B NBUF" "path (prevs s) NBUF (rev B) b" "path (prevs s) b (rev A) NBUF"
    using assms by (simp_all add: lru_ok_def)
  show "nexts s b = hd (B @ [NBUF])" "nexts s NBUF = hd (A @ [b])" using path_first p by blast+
  show "prevs s b = last (NBUF # A)" using path_first [OF p(4)] by (cases A rule: rev_cases) auto
  show "prevs s NBUF = last (b # B)" using path_first [OF p(3)] by (cases B rule: rev_cases) auto
qed

lemma move_front_links:
  assumes "nexts s NBUF = n0" "nexts s b = nb" "prevs s b = pb" and "b \<noteq> NBUF" "nb \<noteq> b" "pb \<noteq> b"
  shows "nexts (move_front b s) = (nexts s)(pb := nb, b := ((nexts s)(pb := nb)) NBUF, NBUF := b)"
    and "prevs (move_front b s) = (prevs s)(nb := pb, b := NBUF, ((nexts s)(pb := nb)) NBUF := b)"
  using assms unfolding move_front_def Let_def nexts_def prevs_def by (auto simp: fun_eq_iff)

lemma lru_ok_move_front:
  assumes ok: "lru_ok (A @ b # B) s"
  shows "lru_ok (b # A @ B) (move_front b s)"
proof -
  note m = links_of_member [OF ok]
  have d: "distinct (A @ b # B)" "set (A @ b # B) = {..<NBUF}" using ok by (simp_all add: lru_ok_def)
  have p: "path (nexts s) NBUF A b" "path (nexts s) b B NBUF" "path (prevs s) NBUF (rev B) b" "path (prevs s) b (rev A) NBUF"
    using ok by (simp_all add: lru_ok_def)
  have nm: "NBUF \<notin> set (A @ b # B)" unfolding d(2) by simp
  then have b: "b \<noteq> NBUF" by auto
  have nb: "nexts s b \<noteq> b" using m(2) d(1) b by (cases B) auto
  have pb: "prevs s b \<noteq> b" using m(1) d(1) b by (cases A rule: rev_cases) auto
  note l = move_front_links [OF refl refl refl b nb pb]
  show ?thesis
  proof (cases A rule: rev_cases)
    case Nil
    have "prevs s (nexts s b) = b"
      using p(3) m(2) by (cases B) auto
    then have "nexts (move_front b s) = nexts s" "prevs (move_front b s) = prevs s"
      using m(1,3) b Nil unfolding l by (auto simp: fun_eq_iff)
    then show ?thesis using ok Nil by (simp add: lru_ok_def)
  next
    case (snoc A' a)
    have pa: "prevs s b = a" and "a \<noteq> NBUF" "a \<noteq> b" using m(1) snoc nm d(1) by auto
    have n: "nexts (move_front b s) = (nexts s)(a := nexts s b, b := nexts s NBUF, NBUF := b)"
      using \<open>a \<noteq> NBUF\<close> unfolding l pa by simp
    have q: "prevs (move_front b s) = (prevs s)(nexts s b := a, b := NBUF, nexts s NBUF := b)"
      using \<open>a \<noteq> NBUF\<close> unfolding l pa by simp
    have out: "nexts s b \<notin> set (b # A)" "nexts s NBUF \<notin> set (NBUF # b # B)"
      using m(2,3) d(1) nm snoc by (cases B; cases A'; auto)+
    have "path (nexts s) NBUF A' a" using p(1) snoc by simp
    then have n1: "path (nexts (move_front b s)) b A' a"
      by (rule path_start) (use b d(1) nm snoc in \<open>auto simp: n\<close>)
    from p(2) have n2: "path (nexts (move_front b s)) a B NBUF"
      by (rule path_start) (use \<open>a \<noteq> NBUF\<close> \<open>a \<noteq> b\<close> d(1) nm snoc in \<open>auto simp: n\<close>)
    have "nexts s b = last (NBUF # rev B)" using m(2) by (cases B) auto
    then have "path ((prevs s)(nexts s b := a)) NBUF (rev B) a"
      using path_redirect [OF p(3), of a] d(1) nm by simp
    then have q1: "path (prevs (move_front b s)) NBUF (rev B) a"
      using d(1) nm out b by (simp add: q)
    have "nexts s NBUF = last (a # rev A')" using m(3) snoc by (cases A') auto
    moreover have "path (prevs s) a (rev A') NBUF" using p(4) snoc by simp
    ultimately have "path ((prevs s)(nexts s NBUF := b)) a (rev A') b"
      using path_redirect [of "prevs s" a "rev A'" NBUF b] d(1) snoc by simp
    then have "path ((prevs s)(nexts s NBUF := b, nexts s b := a, b := NBUF)) a (rev A') b"
      using d(1) out \<open>a \<noteq> b\<close> snoc by simp
    moreover have "nexts s NBUF \<noteq> nexts s b" "nexts s NBUF \<noteq> b" using out m(3) snoc by (cases A'; auto)+
    ultimately have q2: "path (prevs (move_front b s)) a (rev A') b"
      unfolding q by (simp add: fun_upd_twist)
    have q3: "prevs (move_front b s) b = NBUF" using out by (simp add: q)
    show ?thesis
      using n1 n2 q1 q2 q3 d snoc by (auto simp: lru_ok_def n)
  qed
qed

text \<open>\<^verbatim>\<open>binit\<close> inserts the buffers one after the other behind the head.\<close>

definition part_ok :: "nat list \<Rightarrow> 'a bio_state_scheme \<Rightarrow> bool" where
  "part_ok L s \<longleftrightarrow> distinct (NBUF # L) \<and> path (nexts s) NBUF L NBUF \<and> path (prevs s) NBUF (rev L) NBUF"

lemma binit_buf_links:
  "b \<noteq> NBUF \<Longrightarrow> nexts s NBUF \<noteq> b \<Longrightarrow>
    nexts (binit_buf b s) = (nexts s)(b := nexts s NBUF, NBUF := b) \<and>
    prevs (binit_buf b s) = (prevs s)(b := NBUF, nexts s NBUF := b)"
  unfolding binit_buf_def Let_def nexts_def prevs_def by (auto simp: fun_eq_iff)

lemma part_ok_insert:
  assumes ok: "part_ok L s" and b: "b \<notin> set (NBUF # L)"
  shows "part_ok (b # L) (binit_buf b s)"
proof -
  have p: "path (nexts s) NBUF L NBUF" "path (prevs s) NBUF (rev L) NBUF" and d: "distinct (NBUF # L)"
    using ok by (simp_all add: part_ok_def)
  have f: "nexts s NBUF = hd (L @ [NBUF])" by (rule path_first [OF p(1)])
  then have nb: "nexts s NBUF \<noteq> b" "b \<noteq> NBUF" using b by (cases L; simp)+
  note l = binit_buf_links [OF nb(2,1), THEN conjunct1] binit_buf_links [OF nb(2,1), THEN conjunct2]
  from p(1) have n: "path (nexts (binit_buf b s)) b L NBUF"
    by (rule path_start) (use b d nb(2) in \<open>auto simp: l(1)\<close>)
  have "nexts s NBUF = last (NBUF # rev L)" using f by (cases L) auto
  then have "path ((prevs s)(nexts s NBUF := b)) NBUF (rev L) b"
    using path_redirect [OF p(2), of b] d by simp
  then have q: "path (prevs (binit_buf b s)) NBUF (rev L) b"
    using b nb by (simp add: l(2) fun_upd_twist [of b "nexts s NBUF"])
  show ?thesis using n q d b nb by (auto simp: part_ok_def l)
qed

lemma binit_buf_fold:
  "part_ok L s \<Longrightarrow> distinct (rev xs @ L) \<Longrightarrow> NBUF \<notin> set xs \<Longrightarrow> part_ok (rev xs @ L) (fold binit_buf xs s)"
proof (induction xs arbitrary: L s)
  case (Cons b xs)
  have "part_ok (b # L) (binit_buf b s)" by (rule part_ok_insert) (use Cons.prems in auto)
  then show ?case using Cons.IH [of "b # L" "binit_buf b s"] Cons.prems by simp
qed simp

lemma lru_ok_binit: "lru_ok (rev [0..<NBUF]) (binit s)"
proof -
  let ?s = "upd_buf NBUF (\<lambda>x. x\<lparr>b_next := NBUF\<rparr>) (upd_buf NBUF (\<lambda>x. x\<lparr>b_prev := NBUF\<rparr>) s)"
  have "part_ok [] ?s" by (simp add: part_ok_def)
  then have "part_ok (rev [0..<NBUF] @ []) (fold binit_buf [0..<NBUF] ?s)"
    by (rule binit_buf_fold) (simp_all only: rev_append append_Nil2 distinct_rev distinct_upt set_upt, simp)
  then show ?thesis unfolding lru_ok_def part_ok_def binit_def Let_def by (simp add: atLeast0LessThan del: upt_rec_numeral)
qed

section \<open>Holding and releasing buffers\<close>

text \<open>
  The cache of the device \<open>dev\<close> between the steps of one process: \<open>H\<close> are the buffers that
  the process holds, \<open>P\<close> the blocks that are pinned, with the contents \<open>nv\<close>.  A buffer that
  is not held is unlocked, and its block is what the disk has unless it is pinned.
\<close>

definition blk :: "u32 set \<Rightarrow> (u32 \<Rightarrow> block) \<Rightarrow> (u32 \<Rightarrow> block) \<Rightarrow> u32 \<Rightarrow> block" where
  "blk P nv D n = (if n \<in> P then nv n else D n)"

definition buf_idle :: "u32 \<Rightarrow> u32 set \<Rightarrow> (u32 \<Rightarrow> block) \<Rightarrow> (u32 \<Rightarrow> block) \<Rightarrow> buf \<Rightarrow> bool" where
  "buf_idle dev P nv D x \<longleftrightarrow> sl_locked (b_lock x) = 0 \<and>
     b_refcnt x = (if b_dev x = dev \<and> b_blockno x \<in> P then 1 else 0) \<and>
     (b_dev x = dev \<and> b_valid x \<noteq> 0 \<longrightarrow> b_data x = blk P nv D (b_blockno x))"

definition buf_held :: "u32 \<Rightarrow> u32 set \<Rightarrow> i32 \<Rightarrow> buf \<Rightarrow> bool" where
  "buf_held dev P pid x \<longleftrightarrow> sl_locked (b_lock x) = 1 \<and> sl_pid (b_lock x) = pid \<and> b_dev x = dev \<and>
     b_valid x \<noteq> 0 \<and> b_refcnt x = (if b_blockno x \<in> P then 2 else 1)"

definition unique_blocks :: "u32 \<Rightarrow> (nat \<Rightarrow> buf) \<Rightarrow> bool" where
  "unique_blocks dev B \<longleftrightarrow> (\<forall>b<NBUF. \<forall>c<NBUF. b_dev (B b) = dev \<and> b_dev (B c) = dev \<and>
     b_blockno (B b) = b_blockno (B c) \<longrightarrow> b = c)"

definition my_pid :: "'a kernel_state_scheme \<Rightarrow> i32" where
  "my_pid s = p_pid (ptable s (the (myproc s)))"

definition cache_inv ::
  "u32 \<Rightarrow> u32 set \<Rightarrow> (u32 \<Rightarrow> block) \<Rightarrow> nat set \<Rightarrow> 'a bio_state_scheme \<Rightarrow> bool" where
  "cache_inv dev P nv H s \<longleftrightarrow> myproc s \<noteq> None \<and> (\<exists>L. lru_ok L s) \<and> unique_blocks dev (bufs s) \<and> H \<subseteq> {..<NBUF} \<and>
     (\<forall>b<NBUF. if b \<in> H then buf_held dev P (my_pid s) (bufs s b) else buf_idle dev P nv (disk s) (bufs s b)) \<and>
     (\<forall>n\<in>P. \<exists>b<NBUF. b_dev (bufs s b) = dev \<and> b_blockno (bufs s b) = n \<and> b_valid (bufs s b) \<noteq> 0)"

lemma cache_invI:
  assumes "myproc s \<noteq> None" and "lru_ok L s" and "unique_blocks dev (bufs s)" and "H \<subseteq> {..<NBUF}"
    and "\<And>b. b \<in> H \<Longrightarrow> buf_held dev P (my_pid s) (bufs s b)"
    and "\<And>b. b < NBUF \<Longrightarrow> b \<notin> H \<Longrightarrow> buf_idle dev P nv (disk s) (bufs s b)"
    and "\<And>n. n \<in> P \<Longrightarrow> \<exists>b<NBUF. b_dev (bufs s b) = dev \<and> b_blockno (bufs s b) = n \<and> b_valid (bufs s b) \<noteq> 0"
  shows "cache_inv dev P nv H s"
  unfolding cache_inv_def using assms by (auto simp del: not_None_eq)

lemma cache_invD:
  assumes "cache_inv dev P nv H s"
  shows "myproc s \<noteq> None" "\<exists>L. lru_ok L s" "unique_blocks dev (bufs s)" "H \<subseteq> {..<NBUF}"
    "b \<in> H \<Longrightarrow> buf_held dev P (my_pid s) (bufs s b)"
    "b < NBUF \<Longrightarrow> b \<notin> H \<Longrightarrow> buf_idle dev P nv (disk s) (bufs s b)"
    "n \<in> P \<Longrightarrow> \<exists>b<NBUF. b_dev (bufs s b) = dev \<and> b_blockno (bufs s b) = n \<and> b_valid (bufs s b) \<noteq> 0"
  using assms unfolding cache_inv_def by (auto simp del: not_None_eq split: if_splits)

text \<open>Two states that differ in one buffer, whose links are the same.\<close>

lemma lru_ok_upd:
  "b_next x = b_next (bufs s b) \<Longrightarrow> b_prev x = b_prev (bufs s b) \<Longrightarrow> lru_ok L (s\<lparr>bufs := (bufs s)(b := x)\<rparr>) = lru_ok L s"
proof -
  assume "b_next x = b_next (bufs s b)" "b_prev x = b_prev (bufs s b)"
  then have "nexts (s\<lparr>bufs := (bufs s)(b := x)\<rparr>) = nexts s" "prevs (s\<lparr>bufs := (bufs s)(b := x)\<rparr>) = prevs s"
    by (auto simp: nexts_def prevs_def)
  then show ?thesis by (simp add: lru_ok_def)
qed

lemma my_pid_upd [simp]: "my_pid (s\<lparr>bufs := B\<rparr>) = my_pid s" "myproc (s\<lparr>bufs := B\<rparr>) = myproc s"
  "my_pid (s\<lparr>disk := d\<rparr>) = my_pid s" "myproc (s\<lparr>disk := d\<rparr>) = myproc s"
  "my_pid (s\<lparr>dwrites := w\<rparr>) = my_pid s" "myproc (s\<lparr>dwrites := w\<rparr>) = myproc s"
  by (simp_all add: my_pid_def myproc_def mycpu_def cpuid_def)

text \<open>Enough buffers are free.\<close>

lemma free_buffer:
  assumes inv: "cache_inv dev P nv H s" and few: "finite P" "card P + card H < NBUF"
  shows "\<exists>b<NBUF. b_refcnt (bufs s b) = 0"
proof (rule ccontr)
  assume "\<not> ?thesis"
  then have ne: "b_refcnt (bufs s b) \<noteq> 0" if "b < NBUF" for b using that by blast
  let ?Q = "{b. b < NBUF \<and> b_dev (bufs s b) = dev \<and> b_blockno (bufs s b) \<in> P}"
  have "b \<in> H \<union> ?Q" if "b < NBUF" for b
    using ne [OF that] cache_invD(6) [OF inv that] that by (auto simp: buf_idle_def split: if_splits)
  then have "{..<NBUF} \<subseteq> H \<union> ?Q" by auto
  moreover have "finite H" using cache_invD(4) [OF inv] finite_subset by blast
  ultimately have "NBUF \<le> card H + card ?Q"
    using card_mono [of "H \<union> ?Q" "{..<NBUF}"] card_Un_le [of H ?Q] by simp
  moreover have "inj_on (\<lambda>b. b_blockno (bufs s b)) ?Q"
    using cache_invD(3) [OF inv] by (auto simp: inj_on_def unique_blocks_def)
  then have "card ?Q \<le> card P" by (rule card_inj_on_le) (use few(1) in auto)
  ultimately show False using few(2) by simp
qed

lemma find_unique:
  assumes "b \<in> set xs" "Q b" "\<And>c. c \<in> set xs \<Longrightarrow> Q c \<Longrightarrow> c = b"
  shows "find Q xs = Some b"
proof (cases "find Q xs")
  case None
  then show ?thesis using assms(1,2) by (auto simp: find_None_iff)
next
  case (Some c)
  then have "c \<in> set xs" "Q c" by (auto simp: find_Some_iff)
  then have "c = b" by (rule assms(3))
  then show ?thesis using Some by simp
qed

lemma find_exists:
  "\<exists>x\<in>set xs. Q x \<Longrightarrow> \<exists>x. find Q xs = Some x \<and> x \<in> set xs \<and> Q x"
  by (induction xs) auto

text \<open>The buffer in which \<open>bread\<close> returns the block \<open>n\<close>.\<close>

definition read_buf :: "i32 \<Rightarrow> u32 \<Rightarrow> u32 \<Rightarrow> u32 \<Rightarrow> block \<Rightarrow> buf \<Rightarrow> buf" where
  "read_buf pid dev n r d x = x\<lparr>b_dev := dev, b_blockno := n, b_refcnt := r, b_data := d,
     b_valid := (if b_dev x = dev \<and> b_blockno x = n \<and> b_valid x \<noteq> 0 then b_valid x else 1),
     b_lock := (b_lock x)\<lparr>sl_locked := 1, sl_pid := pid\<rparr>\<rparr>"

lemma read_buf_hit:
  assumes "b_dev x = dev" "b_blockno x = n"
  shows "b_valid x \<noteq> 0 \<Longrightarrow> read_buf pid dev n r (b_data x) x =
      x\<lparr>b_refcnt := r, b_lock := (b_lock x)\<lparr>sl_locked := 1, sl_pid := pid\<rparr>\<rparr>"
    and "b_valid x = 0 \<Longrightarrow> read_buf pid dev n r d x =
      x\<lparr>b_refcnt := r, b_lock := (b_lock x)\<lparr>sl_locked := 1, sl_pid := pid\<rparr>, b_data := d, b_valid := 1\<rparr>"
  using assms by (cases x; simp add: read_buf_def)+

lemma read_buf_miss:
  assumes "\<not> (b_dev x = dev \<and> b_blockno x = n)"
  shows "read_buf pid dev n r d x =
     x\<lparr>b_dev := dev, b_blockno := n, b_refcnt := r, b_lock := (b_lock x)\<lparr>sl_locked := 1, sl_pid := pid\<rparr>, b_data := d, b_valid := 1\<rparr>"
proof -
  have "(if b_dev x = dev \<and> b_blockno x = n \<and> b_valid x \<noteq> 0 then b_valid x else 1) = 1" using assms by auto
  then show ?thesis unfolding read_buf_def by simp
qed

lemma lock_buf_ok:
  assumes "myproc s = Some p" and "sl_locked (b_lock (bufs s b)) = 0"
  shows "lock_buf b s = Ok (s\<lparr>bufs := (bufs s)(b := (bufs s b)\<lparr>b_lock := (b_lock (bufs s b))\<lparr>sl_locked := 1, sl_pid := my_pid s\<rparr>\<rparr>)\<rparr>)"
  using assms by (simp add: lock_buf_def acquiresleep_def upd_buf_def my_pid_def)

lemma bread_hit:
  assumes inv: "cache_inv dev P nv H s" and b: "b < NBUF" "b \<notin> H" "b_dev (bufs s b) = dev" "b_blockno (bufs s b) = n"
  shows "bread dev n s = Ok (b, s\<lparr>bufs := (bufs s)(b :=
    read_buf (my_pid s) dev n (if n \<in> P then 2 else 1) (if b_valid (bufs s b) = 0 then disk s n else b_data (bufs s b)) (bufs s b))\<rparr>)"
proof -
  obtain L p where L: "lru_ok L s" and p: "myproc s = Some p" using cache_invD(1,2) [OF inv] by auto
  let ?Q = "\<lambda>b. b_dev (bufs s b) = dev \<and> b_blockno (bufs s b) = n"
  have "find ?Q (lru_forward s) = Some b"
    unfolding lru_okD(4) [OF L]
    by (rule find_unique) (use cache_invD(3) [OF inv] lru_okD(2) [OF L] b in \<open>auto simp: unique_blocks_def\<close>)
  moreover have idle: "sl_locked (b_lock (bufs s b)) = 0" "b_refcnt (bufs s b) = (if n \<in> P then 1 else 0)"
    using cache_invD(6) [OF inv b(1,2)] b(3,4) by (simp_all add: buf_idle_def)
  let ?s = "s\<lparr>bufs := (bufs s)(b := (bufs s b)\<lparr>b_refcnt := b_refcnt (bufs s b) + 1\<rparr>)\<rparr>"
  have "lock_buf b ?s = Ok (?s\<lparr>bufs := (bufs ?s)(b := (bufs ?s b)\<lparr>b_lock := (b_lock (bufs ?s b))\<lparr>sl_locked := 1, sl_pid := my_pid ?s\<rparr>\<rparr>)\<rparr>)"
    by (rule lock_buf_ok) (simp_all add: p idle)
  ultimately have "bget dev n s = Ok (b, s\<lparr>bufs := (bufs s)(b := (bufs s b)\<lparr>b_refcnt := (if n \<in> P then 2 else 1),
      b_lock := (b_lock (bufs s b))\<lparr>sl_locked := 1, sl_pid := my_pid s\<rparr>\<rparr>)\<rparr>)"
    using idle by (simp add: bget_def upd_buf_def)
  then show ?thesis
    using b(3,4) by (cases "b_valid (bufs s b) = 0") (simp_all add: bread_def disk_rw_def upd_buf_def read_buf_hit)
qed

lemma bread_miss:
  assumes inv: "cache_inv dev P nv H s"
    and miss: "\<And>b. b < NBUF \<Longrightarrow> \<not> (b_dev (bufs s b) = dev \<and> b_blockno (bufs s b) = n)"
    and free: "\<exists>b<NBUF. b_refcnt (bufs s b) = 0"
  shows "\<exists>b<NBUF. b_refcnt (bufs s b) = 0 \<and> bread dev n s = Ok (b, s\<lparr>bufs := (bufs s)(b :=
    read_buf (my_pid s) dev n 1 (disk s n) (bufs s b))\<rparr>)"
proof -
  obtain L p where L: "lru_ok L s" and p: "myproc s = Some p" using cache_invD(1,2) [OF inv] by auto
  have none: "find (\<lambda>b. b_dev (bufs s b) = dev \<and> b_blockno (bufs s b) = n) (lru_forward s) = None"
    unfolding lru_okD(4) [OF L] find_None_iff using miss lru_okD(2) [OF L] by auto
  obtain b where f: "find (\<lambda>b. b_refcnt (bufs s b) = 0) (lru_backward s) = Some b" "b < NBUF" "b_refcnt (bufs s b) = 0"
    using find_exists [of "rev L" "\<lambda>b. b_refcnt (bufs s b) = 0"] free lru_okD(2,5) [OF L] by auto
  have "b \<notin> H" using cache_invD(5) [OF inv, of b] f(3) by (auto simp: buf_held_def split: if_splits)
  then have idle: "sl_locked (b_lock (bufs s b)) = 0"
    using cache_invD(6) [OF inv f(2)] by (simp add: buf_idle_def)
  let ?s = "s\<lparr>bufs := (bufs s)(b := (bufs s b)\<lparr>b_dev := dev, b_blockno := n, b_valid := 0, b_refcnt := 1\<rparr>)\<rparr>"
  have "lock_buf b ?s = Ok (?s\<lparr>bufs := (bufs ?s)(b := (bufs ?s b)\<lparr>b_lock := (b_lock (bufs ?s b))\<lparr>sl_locked := 1, sl_pid := my_pid ?s\<rparr>\<rparr>)\<rparr>)"
    by (rule lock_buf_ok) (simp_all add: p idle)
  then have "bget dev n s = Ok (b, s\<lparr>bufs := (bufs s)(b := (bufs s b)\<lparr>b_dev := dev, b_blockno := n, b_valid := 0, b_refcnt := 1,
      b_lock := (b_lock (bufs s b))\<lparr>sl_locked := 1, sl_pid := my_pid s\<rparr>\<rparr>)\<rparr>)"
    using none f by (simp add: bget_def upd_buf_def)
  moreover have "\<not> (b_dev (bufs s b) = dev \<and> b_blockno (bufs s b) = n)" by (rule miss [OF f(2)])
  ultimately show ?thesis
    using f by (intro exI [of _ b]) (simp add: bread_def disk_rw_def upd_buf_def read_buf_miss)
qed

lemma bufs_update: "bufs (s\<lparr>bufs := (bufs s)(b := x)\<rparr>) c = (if c = b then x else bufs s c)"
  by simp

lemma unique_blocks_upd:
  assumes u: "unique_blocks dev (bufs s)"
    and other: "\<And>c. c < NBUF \<Longrightarrow> c \<noteq> b \<Longrightarrow> \<not> (b_dev (bufs s c) = dev \<and> b_blockno (bufs s c) = b_blockno x)"
  shows "unique_blocks dev (bufs (s\<lparr>bufs := (bufs s)(b := x)\<rparr>))"
  unfolding unique_blocks_def bufs_update
proof (intro allI impI; elim conjE)
  fix c d
  let ?c = "if c = b then x else bufs s c" and ?d = "if d = b then x else bufs s d"
  assume a: "c < NBUF" "d < NBUF" "b_dev ?c = dev" "b_dev ?d = dev" "b_blockno ?c = b_blockno ?d"
  then show "c = d"
    using other [of c] other [of d] u [unfolded unique_blocks_def, rule_format, of c d] by (auto split: if_splits)
qed

lemma cache_inv_hold:
  assumes inv: "cache_inv dev P nv H s" and b: "b < NBUF"
    and x: "b_next x = b_next (bufs s b)" "b_prev x = b_prev (bufs s b)" "buf_held dev P (my_pid s) x"
    and other: "\<And>c. c < NBUF \<Longrightarrow> c \<noteq> b \<Longrightarrow> \<not> (b_dev (bufs s c) = dev \<and> b_blockno (bufs s c) = b_blockno x)"
    and pin: "b_dev (bufs s b) = dev \<and> b_blockno (bufs s b) \<in> P \<longrightarrow> b_blockno x = b_blockno (bufs s b)"
  shows "cache_inv dev P nv (insert b H) (s\<lparr>bufs := (bufs s)(b := x)\<rparr>)"
proof -
  note D = cache_invD [OF inv]
  let ?s = "s\<lparr>bufs := (bufs s)(b := x)\<rparr>"
  have x': "b_dev x = dev" "b_valid x \<noteq> 0" using x(3) by (simp_all add: buf_held_def)
  obtain L where L: "lru_ok L s" using D(2) by blast
  show ?thesis
  proof (rule cache_invI [of _ L])
    show "lru_ok L ?s" using lru_ok_upd [OF x(1,2)] L by simp
    show "unique_blocks dev (bufs ?s)" by (rule unique_blocks_upd [OF D(3) other])
    show "\<exists>c<NBUF. b_dev (bufs ?s c) = dev \<and> b_blockno (bufs ?s c) = n \<and> b_valid (bufs ?s c) \<noteq> 0" if n: "n \<in> P" for n
    proof -
      obtain c where c: "c < NBUF" "b_dev (bufs s c) = dev" "b_blockno (bufs s c) = n" "b_valid (bufs s c) \<noteq> 0"
        using D(7) [OF n] by blast
      show ?thesis
      proof (cases "c = b")
        case True
        then show ?thesis using b c pin n x' by (intro exI [of _ b]) simp
      next
        case False
        then show ?thesis using c by (intro exI [of _ c]) simp
      qed
    qed
  qed (use D(1,4-6) b x(3) in auto)
qed

lemma bread_inv:
  assumes inv: "cache_inv dev P nv H s" and n: "\<And>c. c \<in> H \<Longrightarrow> b_blockno (bufs s c) \<noteq> n"
    and few: "finite P" "n \<in> P \<or> card P + card H < NBUF"
  shows "\<exists>b x. bread dev n s = Ok (b, s\<lparr>bufs := (bufs s)(b := x)\<rparr>) \<and> b < NBUF \<and> b \<notin> H \<and>
    b_blockno x = n \<and> b_data x = blk P nv (disk s) n \<and>
    cache_inv dev P nv (insert b H) (s\<lparr>bufs := (bufs s)(b := x)\<rparr>)"
proof (cases "\<exists>b<NBUF. b_dev (bufs s b) = dev \<and> b_blockno (bufs s b) = n")
  case True
  then obtain b where b: "b < NBUF" "b_dev (bufs s b) = dev" "b_blockno (bufs s b) = n" by blast
  then have nH: "b \<notin> H" using n by blast
  let ?x = "read_buf (my_pid s) dev n (if n \<in> P then 2 else 1)
    (if b_valid (bufs s b) = 0 then disk s n else b_data (bufs s b)) (bufs s b)"
  have val: "b_valid (bufs s b) \<noteq> 0" if "n \<in> P"
  proof -
    obtain c where "c < NBUF" "b_dev (bufs s c) = dev" "b_blockno (bufs s c) = n" "b_valid (bufs s c) \<noteq> 0"
      using cache_invD(7) [OF inv \<open>n \<in> P\<close>] by blast
    then show ?thesis using cache_invD(3) [OF inv] b by (auto simp: unique_blocks_def)
  qed
  have data: "b_data ?x = blk P nv (disk s) n"
    using cache_invD(6) [OF inv b(1) nH] b val by (auto simp: buf_idle_def read_buf_def blk_def)
  have "cache_inv dev P nv (insert b H) (s\<lparr>bufs := (bufs s)(b := ?x)\<rparr>)"
    by (rule cache_inv_hold [OF inv b(1)])
      (use cache_invD(3) [OF inv] b in \<open>auto simp: read_buf_def buf_held_def unique_blocks_def\<close>)
  then show ?thesis
    using bread_hit [OF inv b(1) nH b(2,3)] b nH data by (intro exI [of _ b] exI [of _ ?x]) (simp add: read_buf_def)
next
  case False
  then have miss: "\<not> (b_dev (bufs s b) = dev \<and> b_blockno (bufs s b) = n)" if "b < NBUF" for b using that by blast
  have nP: "n \<notin> P" using cache_invD(7) [OF inv] miss by blast
  obtain b where b: "b < NBUF" "b_refcnt (bufs s b) = 0" and
    r: "bread dev n s = Ok (b, s\<lparr>bufs := (bufs s)(b := read_buf (my_pid s) dev n 1 (disk s n) (bufs s b))\<rparr>)"
    using bread_miss [OF inv miss free_buffer [OF inv few(1)]] few nP by blast
  let ?x = "read_buf (my_pid s) dev n 1 (disk s n) (bufs s b)"
  have nH: "b \<notin> H" using cache_invD(5) [OF inv, of b] b by (auto simp: buf_held_def split: if_splits)
  have "\<not> (b_dev (bufs s b) = dev \<and> b_blockno (bufs s b) \<in> P)"
    using cache_invD(6) [OF inv b(1) nH] b by (auto simp: buf_idle_def)
  then have "cache_inv dev P nv (insert b H) (s\<lparr>bufs := (bufs s)(b := ?x)\<rparr>)"
    by (intro cache_inv_hold [OF inv b(1)]) (use miss nP in \<open>auto simp: read_buf_def buf_held_def\<close>)
  then show ?thesis
    using r b nH nP by (intro exI [of _ b] exI [of _ ?x]) (simp add: read_buf_def blk_def)
qed

lemma held_facts:
  assumes "cache_inv dev P nv H s" and "b \<in> H"
  shows "b < NBUF" "b_dev (bufs s b) = dev" "b_valid (bufs s b) \<noteq> 0" "sl_locked (b_lock (bufs s b)) = 1"
    "sl_pid (b_lock (bufs s b)) = my_pid s" "b_refcnt (bufs s b) = (if b_blockno (bufs s b) \<in> P then 2 else 1)"
    "holdingsleep (b_lock (bufs s b)) s = Ok True"
    "c < NBUF \<Longrightarrow> c \<noteq> b \<Longrightarrow> \<not> (b_dev (bufs s c) = dev \<and> b_blockno (bufs s c) = b_blockno (bufs s b))"
proof -
  note D = cache_invD [OF assms(1)]
  show b: "b < NBUF" "b_dev (bufs s b) = dev" "b_valid (bufs s b) \<noteq> 0" "sl_locked (b_lock (bufs s b)) = 1"
    "sl_pid (b_lock (bufs s b)) = my_pid s" "b_refcnt (bufs s b) = (if b_blockno (bufs s b) \<in> P then 2 else 1)"
    using D(4,5) assms(2) by (auto simp: buf_held_def)
  then show "holdingsleep (b_lock (bufs s b)) s = Ok True" using D(1) by (auto simp: holdingsleep_def my_pid_def)
  show "\<not> (b_dev (bufs s c) = dev \<and> b_blockno (bufs s c) = b_blockno (bufs s b))" if "c < NBUF" "c \<noteq> b"
    using D(3) that b(1,2) unfolding unique_blocks_def by auto
qed

lemma cache_inv_data:
  assumes "cache_inv dev P nv H s" and "b \<in> H"
  shows "cache_inv dev P nv H (upd_buf b (\<lambda>x. x\<lparr>b_data := d\<rparr>) s)"
proof -
  note h = held_facts [OF assms]
  have "cache_inv dev P nv (insert b H) (s\<lparr>bufs := (bufs s)(b := (bufs s b)\<lparr>b_data := d\<rparr>)\<rparr>)"
    by (rule cache_inv_hold [OF assms(1) h(1)]) (use h in \<open>auto simp: buf_held_def\<close>)
  then show ?thesis using assms(2) by (simp add: upd_buf_def insert_absorb)
qed

lemma bwrite_inv:
  assumes inv: "cache_inv dev P nv H s" and b: "b \<in> H" and n: "n = b_blockno (bufs s b)" and d: "d = b_data (bufs s b)"
  shows "bwrite b s = Ok (s\<lparr>disk := (disk s)(n := d), dwrites := dwrites s @ [(n, d)]\<rparr>)"
    and "cache_inv dev P nv H (s\<lparr>disk := (disk s)(n := d), dwrites := dwrites s @ [(n, d)]\<rparr>)"
proof -
  note h = held_facts [OF inv b] and D = cache_invD [OF inv]
  let ?s = "s\<lparr>disk := (disk s)(n := d), dwrites := dwrites s @ [(n, d)]\<rparr>"
  show "bwrite b s = Ok ?s" using h(7) by (simp add: bwrite_def disk_rw_def Let_def n d)
  obtain L where "lru_ok L s" using D(2) by blast
  then have L: "lru_ok L ?s" by (simp add: lru_ok_def nexts_def [abs_def] prevs_def [abs_def])
  show "cache_inv dev P nv H ?s"
  proof (rule cache_invI [OF _ L])
    show "buf_idle dev P nv (disk ?s) (bufs ?s c)" if c: "c < NBUF" "c \<notin> H" for c
    proof -
      have "c \<noteq> b" using c b by auto
      then show ?thesis using D(6) [OF c] h(8) [OF c(1)] by (auto simp: buf_idle_def blk_def n)
    qed
  qed (use D in auto)
qed

lemma buf_idle_cong:
  "(b_dev x = dev \<Longrightarrow> (b_blockno x \<in> P) = (b_blockno x \<in> P') \<and> blk P nv D (b_blockno x) = blk P' nv' D' (b_blockno x)) \<Longrightarrow>
    buf_idle dev P nv D x = buf_idle dev P' nv' D' x"
  by (auto simp: buf_idle_def)

lemma buf_held_cong: "(b_blockno x \<in> P) = (b_blockno x \<in> P') \<Longrightarrow> buf_held dev P pid x = buf_held dev P' pid x"
  by (simp add: buf_held_def)

text \<open>Pinning and unpinning the block of a buffer that is held.\<close>

lemma cache_inv_refcnt:
  assumes inv: "cache_inv dev P nv H s" and b: "b \<in> H" and n: "n = b_blockno (bufs s b)"
    and P': "\<And>m. m \<noteq> n \<Longrightarrow> (m \<in> P) = (m \<in> P') \<and> nv' m = nv m" and r: "r = (if n \<in> P' then 2 else 1)"
  shows "cache_inv dev P' nv' H (upd_buf b (\<lambda>x. x\<lparr>b_refcnt := r\<rparr>) s)"
proof -
  note h = held_facts [OF inv b] and D = cache_invD [OF inv]
  let ?x = "(bufs s b)\<lparr>b_refcnt := r\<rparr>"
  let ?s = "s\<lparr>bufs := (bufs s)(b := ?x)\<rparr>"
  obtain L where "lru_ok L s" using D(2) by blast
  then have L: "lru_ok L ?s" using lru_ok_upd [of ?x s b L] by simp
  have ne: "b_blockno (bufs s c) \<noteq> n" if "c < NBUF" "c \<noteq> b" "b_dev (bufs s c) = dev" for c
    using h(8) [OF that(1,2)] that(3) n by simp
  have "cache_inv dev P' nv' H ?s"
  proof (rule cache_invI [OF _ L])
    show "unique_blocks dev (bufs ?s)" by (rule unique_blocks_upd [OF D(3)]) (use h(8) in simp)
    show "buf_held dev P' (my_pid ?s) (bufs ?s c)" if c: "c \<in> H" for c
    proof (cases "c = b")
      case True
      then show ?thesis using h(2-5) r n by (simp add: buf_held_def)
    next
      case False
      have "c < NBUF" "b_dev (bufs s c) = dev" by (rule held_facts [OF inv c])+
      then have "(b_blockno (bufs s c) \<in> P) = (b_blockno (bufs s c) \<in> P')" using ne False P' by blast
      then show ?thesis using D(5) [OF c] buf_held_cong [of "bufs s c" P P'] False by simp
    qed
    show "buf_idle dev P' nv' (disk ?s) (bufs ?s c)" if c: "c < NBUF" "c \<notin> H" for c
    proof -
      have cb: "c \<noteq> b" using c b by auto
      have "buf_idle dev P nv (disk s) (bufs s c) = buf_idle dev P' nv' (disk s) (bufs s c)"
        by (rule buf_idle_cong) (use ne [OF c(1) cb] P' in \<open>auto simp: blk_def\<close>)
      then show ?thesis using D(6) [OF c] cb by simp
    qed
    show "\<exists>c<NBUF. b_dev (bufs ?s c) = dev \<and> b_blockno (bufs ?s c) = m \<and> b_valid (bufs ?s c) \<noteq> 0" if m: "m \<in> P'" for m
    proof (cases "m = n")
      case True
      then show ?thesis using h(1-3) n by (intro exI [of _ b]) simp
    next
      case False
      then obtain c where c: "c < NBUF" "b_dev (bufs s c) = dev" "b_blockno (bufs s c) = m" "b_valid (bufs s c) \<noteq> 0"
        using D(7) [of m] P' m by blast
      then have "c \<noteq> b" using False n by auto
      then show ?thesis using c by (intro exI [of _ c]) simp
    qed
  qed (use D(1,4) in auto)
  then show ?thesis by (simp add: upd_buf_def)
qed

lemma bunpin_inv:
  assumes inv: "cache_inv dev P nv H s" and b: "b \<in> H" and n: "n = b_blockno (bufs s b)" "n \<in> P"
  shows "cache_inv dev (P - {n}) nv H (bunpin b s)"
proof -
  have "bunpin b s = upd_buf b (\<lambda>x. x\<lparr>b_refcnt := 1\<rparr>) s"
    using held_facts(6) [OF inv b] n by (simp add: bunpin_def upd_buf_def)
  then show ?thesis using cache_inv_refcnt [OF inv b n(1), of "P - {n}" nv] by simp
qed

lemma bpin_inv:
  assumes inv: "cache_inv dev P nv H s" and b: "b \<in> H" and n: "n = b_blockno (bufs s b)" "n \<notin> P"
  shows "cache_inv dev (insert n P) (nv(n := d)) H (bpin b s)"
proof -
  have "bpin b s = upd_buf b (\<lambda>x. x\<lparr>b_refcnt := 2\<rparr>) s"
    using held_facts(6) [OF inv b] n by (simp add: bpin_def upd_buf_def)
  then show ?thesis using cache_inv_refcnt [OF inv b n(1), of "insert n P" "nv(n := d)"] by simp
qed

text \<open>The value that a pinned block will have is free as long as its buffer is held.\<close>

lemma buf_refcnt_id: "b_refcnt x = r \<Longrightarrow> x\<lparr>b_refcnt := r\<rparr> = x"
  by (cases x) simp

lemma repin_inv:
  assumes inv: "cache_inv dev P nv H s" and b: "b \<in> H" and n: "n = b_blockno (bufs s b)"
  shows "cache_inv dev P (nv(n := d)) H s"
proof -
  have "upd_buf b (\<lambda>x. x\<lparr>b_refcnt := if n \<in> P then 2 else 1\<rparr>) s = s"
    using buf_refcnt_id [OF held_facts(6) [OF inv b]] n by (simp add: upd_buf_def)
  then show ?thesis using cache_inv_refcnt [OF inv b n, of P "nv(n := d)"] by simp
qed

subsection \<open>Releasing\<close>

text \<open>A buffer without its links.\<close>

definition core :: "buf \<Rightarrow> buf" where
  "core x = x\<lparr>b_next := 0, b_prev := 0\<rparr>"

lemma core_upd [simp]: "core (x\<lparr>b_next := n\<rparr>) = core x" "core (x\<lparr>b_prev := n\<rparr>) = core x"
  by (simp_all add: core_def)

lemma core_fields:
  assumes "core x = core y"
  shows "b_dev x = b_dev y" "b_blockno x = b_blockno y" "b_valid x = b_valid y" "b_data x = b_data y"
    "b_refcnt x = b_refcnt y" "b_lock x = b_lock y"
  using assms by (cases x; cases y; simp add: core_def)+

lemma core_upd_buf: "(\<And>x. core (f x) = core x) \<Longrightarrow> core (bufs (upd_buf b f s) c) = core (bufs s c)"
  by simp

lemma move_front_core: "core (bufs (move_front b s) c) = core (bufs s c)"
  unfolding move_front_def Let_def by (simp only: core_upd_buf core_upd)

lemma move_front_frame: "move_front b s = s\<lparr>bufs := bufs (move_front b s)\<rparr>"
  by (simp add: move_front_def Let_def upd_buf_def)

lemma cache_inv_core:
  assumes inv: "cache_inv dev P nv H s" and B: "\<And>c. core (B c) = core (bufs s c)" and L: "lru_ok L (s\<lparr>bufs := B\<rparr>)"
  shows "cache_inv dev P nv H (s\<lparr>bufs := B\<rparr>)"
proof -
  note f = core_fields [OF B]
  have "buf_idle dev P nv D (B c) = buf_idle dev P nv D (bufs s c)" "buf_held dev P pid (B c) = buf_held dev P pid (bufs s c)"
    for D c pid by (simp_all add: buf_idle_def buf_held_def f)
  moreover have "unique_blocks dev B = unique_blocks dev (bufs s)" by (simp add: unique_blocks_def f)
  ultimately show ?thesis using inv L unfolding cache_inv_def by (auto simp: f)
qed

lemma bio_wakeup [simp]:
  "bufs (wakeup c s) = bufs s" "disk (wakeup c s) = disk s" "dwrites (wakeup c s) = dwrites s"
  "bio_state.more (wakeup c s) = bio_state.more s" "my_pid (wakeup c s) = my_pid s"
  "lru_ok L (wakeup c s) = lru_ok L s"
  by (simp_all add: wakeup_eq my_pid_def myproc_def mycpu_def cpuid_def lru_ok_def nexts_def [abs_def] prevs_def [abs_def])

lemma cache_inv_wakeup [simp]: "cache_inv dev P nv H (wakeup c s) = cache_inv dev P nv H s"
  by (simp add: cache_inv_def)

lemma cache_inv_release:
  assumes inv: "cache_inv dev P nv H s" and b: "b \<in> H"
    and x: "b_next x = b_next (bufs s b)" "b_prev x = b_prev (bufs s b)" "b_dev x = b_dev (bufs s b)"
      "b_blockno x = b_blockno (bufs s b)" "b_valid x = b_valid (bufs s b)" and idle: "buf_idle dev P nv (disk s) x"
  shows "cache_inv dev P nv (H - {b}) (s\<lparr>bufs := (bufs s)(b := x)\<rparr>)"
proof -
  note h = held_facts [OF inv b] and D = cache_invD [OF inv]
  let ?s = "s\<lparr>bufs := (bufs s)(b := x)\<rparr>"
  obtain L where "lru_ok L s" using D(2) by blast
  then have L: "lru_ok L ?s" using lru_ok_upd [OF x(1,2)] by simp
  show ?thesis
  proof (rule cache_invI [OF _ L])
    show "unique_blocks dev (bufs ?s)" by (rule unique_blocks_upd [OF D(3)]) (use h(8) x(4) in simp)
    show "buf_held dev P (my_pid ?s) (bufs ?s c)" if "c \<in> H - {b}" for c
      using D(5) [of c] that by simp
    show "buf_idle dev P nv (disk ?s) (bufs ?s c)" if "c < NBUF" "c \<notin> H - {b}" for c
      using D(6) [OF that(1)] that(2) idle by (cases "c = b") simp_all
    show "\<exists>c<NBUF. b_dev (bufs ?s c) = dev \<and> b_blockno (bufs ?s c) = m \<and> b_valid (bufs ?s c) \<noteq> 0" if m: "m \<in> P" for m
    proof -
      obtain c where "c < NBUF" "b_dev (bufs s c) = dev" "b_blockno (bufs s c) = m" "b_valid (bufs s c) \<noteq> 0"
        using D(7) [OF m] by blast
      then show ?thesis using x(3-5) by (intro exI [of _ c]) (cases "c = b"; simp)
    qed
  qed (use D(1,4) in auto)
qed

text \<open>
  A buffer whose block is as it should be is released.  The list is reordered when nobody has
  a reference to the buffer any more.
\<close>

lemma brelse_inv:
  assumes inv: "cache_inv dev P nv H s" and b: "b \<in> H" and data: "b_data (bufs s b) = blk P nv (disk s) (b_blockno (bufs s b))"
  shows "\<exists>s'. brelse b s = Ok s' \<and> cache_inv dev P nv (H - {b}) s' \<and> disk s' = disk s \<and> dwrites s' = dwrites s \<and>
    bio_state.more s' = bio_state.more s \<and> (\<forall>c. b_blockno (bufs s' c) = b_blockno (bufs s c) \<and> b_data (bufs s' c) = b_data (bufs s c))"
proof -
  note h = held_facts [OF inv b]
  let ?n = "b_blockno (bufs s b)"
  let ?x = "(bufs s b)\<lparr>b_lock := (b_lock (bufs s b))\<lparr>sl_locked := 0, sl_pid := 0\<rparr>, b_refcnt := b_refcnt (bufs s b) - 1\<rparr>"
  let ?s = "(wakeup (Buf_lock b) s)\<lparr>bufs := (bufs s)(b := ?x)\<rparr>"
  have "buf_idle dev P nv (disk s) ?x" using h(2,6) data by (simp add: buf_idle_def)
  then have inv': "cache_inv dev P nv (H - {b}) ?s"
    using cache_inv_release [of dev P nv H "wakeup (Buf_lock b) s" b ?x] inv b by simp
  have r: "brelse b s = Ok (if b_refcnt (bufs ?s b) = 0 then move_front b ?s else ?s)"
    using h(7) by (simp add: brelse_def releasesleep_def upd_buf_def Let_def)
  show ?thesis
  proof (cases "b_refcnt (bufs ?s b) = 0")
    case True
    obtain L where L: "lru_ok L ?s" using cache_invD(2) [OF inv'] by blast
    have "b \<in> set L" using lru_okD(2) [OF L] h(1) by simp
    then obtain A B where "L = A @ b # B" by (auto dest: split_list)
    then have L': "lru_ok (b # A @ B) (?s\<lparr>bufs := bufs (move_front b ?s)\<rparr>)"
      using lru_ok_move_front L move_front_frame by metis
    have "cache_inv dev P nv (H - {b}) (?s\<lparr>bufs := bufs (move_front b ?s)\<rparr>)"
      by (rule cache_inv_core [OF inv' move_front_core L'])
    then have "cache_inv dev P nv (H - {b}) (move_front b ?s)" by (subst move_front_frame)
    moreover have "disk (move_front b ?s) = disk s" "dwrites (move_front b ?s) = dwrites s"
      "bio_state.more (move_front b ?s) = bio_state.more s"
      by (subst move_front_frame, simp)+
    moreover have "b_blockno (bufs (move_front b ?s) c) = b_blockno (bufs s c) \<and> b_data (bufs (move_front b ?s) c) = b_data (bufs s c)" for c
      using core_fields [OF move_front_core [of b ?s c]] by simp
    ultimately show ?thesis using r True by (intro exI [of _ "move_front b ?s"]) simp
  next
    case False
    then show ?thesis using r inv' by (intro exI [of _ ?s]) simp
  qed
qed

section \<open>The limits of the cache\<close>

text \<open>When every buffer is in use or pinned, there is none for another block.\<close>

lemma bget_none_free:
  assumes inv: "cache_inv dev P nv H s"
    and miss: "\<And>b. b < NBUF \<Longrightarrow> \<not> (b_dev (bufs s b) = dev \<and> b_blockno (bufs s b) = n)"
    and full: "\<And>b. b < NBUF \<Longrightarrow> b_refcnt (bufs s b) \<noteq> 0"
  shows "bread dev n s = Panic ''bget: no buffers''"
proof -
  obtain L where L: "lru_ok L s" using cache_invD(2) [OF inv] by blast
  have "find (\<lambda>b. b_dev (bufs s b) = dev \<and> b_blockno (bufs s b) = n) (lru_forward s) = None"
    unfolding lru_okD(4) [OF L] find_None_iff using miss lru_okD(2) [OF L] by auto
  moreover have "find (\<lambda>b. b_refcnt (bufs s b) = 0) (lru_backward s) = None"
    unfolding lru_okD(5) [OF L] find_None_iff using full lru_okD(2) [OF L] by auto
  ultimately show ?thesis by (simp add: bread_def bget_def)
qed

text \<open>After \<^verbatim>\<open>binit\<close> no buffer is in use and nothing is pinned.\<close>

definition buf_unused :: "buf \<Rightarrow> bool" where
  "buf_unused x \<longleftrightarrow> b_dev x = 0 \<and> b_refcnt x = 0 \<and> sl_locked (b_lock x) = 0"

lemma unused_upd_buf:
  "(\<And>c. buf_unused (bufs s c)) \<Longrightarrow> (\<And>x. buf_unused x \<Longrightarrow> buf_unused (f x)) \<Longrightarrow> buf_unused (bufs (upd_buf b f s) c)"
  by simp

lemma unused_binit:
  assumes "\<And>c. buf_unused (bufs s c)"
  shows "buf_unused (bufs (binit s) c)"
proof -
  have step: "\<forall>c. buf_unused (bufs (binit_buf b s) c)" if "\<forall>c. buf_unused (bufs s c)" for b and s :: "'b bio_state_scheme"
    unfolding binit_buf_def Let_def
    by (intro allI unused_upd_buf) (use that in \<open>simp_all add: buf_unused_def initsleeplock_def\<close>)
  have "\<forall>c. buf_unused (bufs (fold binit_buf xs s) c)" if "\<forall>c. buf_unused (bufs s c)" for xs and s :: "'b bio_state_scheme"
    using that by (induction xs arbitrary: s) (simp_all add: step)
  moreover have "\<forall>c. buf_unused (bufs (upd_buf NBUF (\<lambda>x. x\<lparr>b_next := NBUF\<rparr>) (upd_buf NBUF (\<lambda>x. x\<lparr>b_prev := NBUF\<rparr>) s)) c)"
    using assms by (simp add: buf_unused_def)
  ultimately show ?thesis unfolding binit_def Let_def by blast
qed

lemma binit_buf_frame: "binit_buf b s = s\<lparr>bufs := bufs (binit_buf b s)\<rparr>"
  by (simp add: binit_buf_def Let_def upd_buf_def)

lemma binit_frame: "\<exists>B. binit s = s\<lparr>bufs := B\<rparr>"
proof -
  have "\<exists>B. fold binit_buf xs s = s\<lparr>bufs := B\<rparr>" for xs s
  proof (induction xs arbitrary: s)
    case Nil
    show ?case by (intro exI [of _ "bufs s"]) simp
  next
    case (Cons b xs)
    obtain B where "fold binit_buf xs (binit_buf b s) = (binit_buf b s)\<lparr>bufs := B\<rparr>" using Cons by blast
    moreover have "(binit_buf b s)\<lparr>bufs := B\<rparr> = s\<lparr>bufs := B\<rparr>" by (subst binit_buf_frame) simp
    ultimately show ?case by (intro exI [of _ B]) simp
  qed
  from this [of "[0..<NBUF]" "s\<lparr>bufs := (bufs s)(NBUF := (bufs s NBUF)\<lparr>b_prev := NBUF, b_next := NBUF\<rparr>)\<rparr>"]
  show ?thesis by (auto simp: binit_def Let_def upd_buf_def simp del: upt_rec_numeral)
qed

lemma cache_inv_binit:
  assumes me: "myproc s \<noteq> None" and dev: "dev \<noteq> 0" and unused: "\<And>b. buf_unused (bufs s b)"
  shows "cache_inv dev {} nv {} (binit s)"
proof -
  have u: "buf_unused (bufs (binit s) b)" for b by (rule unused_binit [OF unused])
  obtain B where B: "binit s = s\<lparr>bufs := B\<rparr>" using binit_frame by blast
  show ?thesis
  proof (rule cache_invI [OF _ lru_ok_binit])
    show "unique_blocks dev (bufs (binit s))" using u dev by (simp add: unique_blocks_def buf_unused_def)
    show "buf_idle dev {} nv (disk (binit s)) (bufs (binit s) b)" for b
      using u [of b] dev by (simp add: buf_idle_def buf_unused_def)
  qed (use me B in auto)
qed

section \<open>What the cache promises\<close>



text \<open>
  C8: When a block is cached or a buffer is free, \<^verbatim>\<open>bread\<close> returns a buffer that only the
  caller holds, that is the only buffer of this block, and that has the block's current
  contents: the pinned ones if the block is pinned and those of the disk otherwise.  No other
  buffer changes, the disk does not change, and the cache stays consistent.
\<close>

theorem bread_returns_block:
  assumes "cache_inv dev P nv H s" and "\<forall>c\<in>H. b_blockno (bufs s c) \<noteq> n"
    and "finite P" and "n \<in> P \<or> card P + card H < NBUF"
  shows "\<exists>b s'. bread dev n s = Ok (b, s') \<and> b \<notin> H \<and> b_data (bufs s' b) = (if n \<in> P then nv n else disk s n) \<and>
    cache_inv dev P nv (insert b H) s' \<and> (\<forall>c. c \<noteq> b \<longrightarrow> bufs s' c = bufs s c) \<and> disk s' = disk s \<and>
    (\<forall>c<NBUF. b_dev (bufs s' c) = dev \<and> b_blockno (bufs s' c) = n \<longleftrightarrow> c = b)"
proof -
  obtain b x where r: "bread dev n s = Ok (b, s\<lparr>bufs := (bufs s)(b := x)\<rparr>)" "b < NBUF" "b \<notin> H"
    "b_blockno x = n" "b_data x = blk P nv (disk s) n" "cache_inv dev P nv (insert b H) (s\<lparr>bufs := (bufs s)(b := x)\<rparr>)"
    using bread_inv [OF assms(1) bspec [OF assms(2)] assms(3,4)] by blast
  let ?s = "s\<lparr>bufs := (bufs s)(b := x)\<rparr>"
  have "b_dev (bufs ?s c) = dev \<and> b_blockno (bufs ?s c) = n \<longleftrightarrow> c = b" if "c < NBUF" for c
    using held_facts(2) [OF r(6), of b] held_facts(8) [OF r(6), of b c] that r(4) by auto
  then show ?thesis using r by (intro exI [of _ b] exI [of _ ?s]) (simp add: blk_def)
qed

definition bio_boot :: "(u32 \<Rightarrow> block) \<Rightarrow> bio_state" where
  "bio_boot d = bio_zero\<lparr>disk := d, cpus := (\<lambda>_. idle_cpu\<lparr>c_proc := Some 0\<rparr>)\<rparr>"

theorem bread_returns_block_witness:
  "\<exists>b s'. bread 1 8 (binit (bio_boot (\<lambda>n _. ucast n))) = Ok (b, s') \<and> b_data (bufs s' b) 0 = 8"
proof -
  let ?s = "binit (bio_boot (\<lambda>n _. ucast n))"
  have "bufs (bio_boot d) b = buf_zero" for b d by (simp add: bio_boot_def zero_simps)
  then have "buf_unused (bufs (bio_boot d) b)" for b d by (simp add: buf_unused_def buf_zero_def)
  moreover have "myproc (bio_boot d) \<noteq> None" for d by (simp add: bio_boot_def myproc_def mycpu_def)
  ultimately have inv: "cache_inv 1 {} (\<lambda>_ _. 0) {} ?s" by (intro cache_inv_binit) simp_all
  obtain B where B: "?s = (bio_boot (\<lambda>n _. ucast n))\<lparr>bufs := B\<rparr>" using binit_frame by blast
  have "disk ?s = (\<lambda>n _. ucast n)" unfolding B by (simp add: bio_boot_def)
  then show ?thesis using bread_returns_block [OF inv, of 8] by auto
qed

end
