(* ===== verification/Logcrash.thy ===== *)
theory Logcrash
  imports Log Bcache
begin

text \<open>
  Crash safety of the write-ahead log, \<^verbatim>\<open>kernel/log.c\<close>, on top of the buffer cache: the
  disk writes of \<^verbatim>\<open>commit\<close> in order, what \<^verbatim>\<open>recover_from_log\<close> does with the
  disk it finds, and that a crash between any two writes leaves all or none of the transaction.
\<close>

section \<open>Disk writes\<close>

definition replay :: "(u32 \<times> block) list \<Rightarrow> (u32 \<Rightarrow> block) \<Rightarrow> u32 \<Rightarrow> block" where
  "replay ws d = fold (\<lambda>(n, b) d. d(n := b)) ws d"

lemma replay_simps [simp]:
  "replay [] d = d" "replay ((n, b) # ws) d = replay ws (d(n := b))" "replay (ws @ ws') d = replay ws' (replay ws d)"
  by (simp_all add: replay_def)

lemma replay_other: "x \<notin> fst ` set ws \<Longrightarrow> replay ws d x = d x"
  by (induction ws arbitrary: d) (auto simp: replay_def split: prod.splits)

lemma replay_in: "distinct (map fst ws) \<Longrightarrow> (x, b) \<in> set ws \<Longrightarrow> replay ws d x = b"
proof (induction ws arbitrary: d)
  case (Cons w ws)
  show ?case
  proof (cases "w = (x, b)")
    case True
    then have "x \<notin> fst ` set ws" using Cons.prems(1) by auto
    then show ?thesis using True replay_other by simp
  next
    case False
    then show ?thesis using Cons by (cases w) auto
  qed
qed simp

text \<open>The operation that leads from \<open>s\<close> to \<open>s'\<close> has written \<open>ws\<close>.\<close>

definition wrote :: "(u32 \<times> block) list \<Rightarrow> 'a bio_state_scheme \<Rightarrow> 'a bio_state_scheme \<Rightarrow> bool" where
  "wrote ws s s' \<longleftrightarrow> disk s' = replay ws (disk s) \<and> dwrites s' = dwrites s @ ws"

lemma wrote_trans: "wrote ws s s' \<Longrightarrow> wrote ws' s' s'' \<Longrightarrow> wrote (ws @ ws') s s''"
  by (simp add: wrote_def)

lemma more_the_log:
  fixes s s' :: "'a log_state_scheme"
  shows "bio_state.more s' = bio_state.more s \<Longrightarrow> the_log s' = the_log s"
  by (cases s; cases s'; simp)

lemma the_log_upd [simp]:
  fixes s :: "'a log_state_scheme"
  shows "the_log (s\<lparr>bufs := B\<rparr>) = the_log s" "the_log (s\<lparr>disk := d\<rparr>) = the_log s" "the_log (s\<lparr>dwrites := w\<rparr>) = the_log s"
    "the_log (upd_buf b f s) = the_log s"
  by (simp_all add: upd_buf_def)

lemma log_block_cong:
  fixes s s' :: "'a log_state_scheme"
  shows "the_log s' = the_log s \<Longrightarrow> log_block i s' = log_block i s"
    "the_log s' = the_log s \<Longrightarrow> home_block i s' = home_block i s" "the_log s' = the_log s \<Longrightarrow> lh_len s' = lh_len s"
  by (simp_all add: log_block_def home_block_def lh_len_def)

section \<open>The steps of a commit\<close>

lemma breadE:
  fixes s :: "'a log_state_scheme"
  assumes "cache_inv dev P nv H s" and "\<forall>c\<in>H. b_blockno (bufs s c) \<noteq> n"
    and "finite P" "n \<in> P \<or> card P + card H < NBUF"
  obtains b s' where "bread dev n s = Ok (b, s')" "b \<notin> H" "b_blockno (bufs s' b) = n" "b_data (bufs s' b) = blk P nv (disk s) n"
    "cache_inv dev P nv (insert b H) s'" "disk s' = disk s" "dwrites s' = dwrites s" "the_log s' = the_log s"
    "\<forall>c. c \<noteq> b \<longrightarrow> bufs s' c = bufs s c"
proof -
  obtain b x where "bread dev n s = Ok (b, s\<lparr>bufs := (bufs s)(b := x)\<rparr>)" "b \<notin> H"
    "b_blockno x = n" "b_data x = blk P nv (disk s) n" "cache_inv dev P nv (insert b H) (s\<lparr>bufs := (bufs s)(b := x)\<rparr>)"
    using bread_inv [OF assms(1) bspec [OF assms(2)] assms(3,4)] by blast
  then show ?thesis by (intro that [of b "s\<lparr>bufs := (bufs s)(b := x)\<rparr>"]) simp_all
qed

lemma bwriteE:
  fixes s :: "'a log_state_scheme"
  assumes "cache_inv dev P nv H s" and "b \<in> H"
  obtains s' where "bwrite b s = Ok s'" "cache_inv dev P nv H s'" "wrote [(b_blockno (bufs s b), b_data (bufs s b))] s s'"
    "the_log s' = the_log s" "bufs s' = bufs s"
  by (rule that [OF bwrite_inv [OF assms refl refl]]) (simp_all add: wrote_def)

lemma brelseE:
  fixes s :: "'a log_state_scheme"
  assumes "cache_inv dev P nv H s" and "b \<in> H" and "b_data (bufs s b) = blk P nv (disk s) (b_blockno (bufs s b))"
  obtains s' where "brelse b s = Ok s'" "cache_inv dev P nv (H - {b}) s'" "disk s' = disk s" "dwrites s' = dwrites s"
    "the_log s' = the_log s" "\<forall>c. b_blockno (bufs s' c) = b_blockno (bufs s c) \<and> b_data (bufs s' c) = b_data (bufs s c)"
  using brelse_inv [OF assms] more_the_log by metis

lemma upd_buf_disk [simp]: "disk (upd_buf b f s) = disk s" "dwrites (upd_buf b f s) = dwrites s"
  by (simp_all add: upd_buf_def)

lemma write_log_one_step:
  fixes s :: "'a log_state_scheme"
  assumes inv: "cache_inv dev P nv {} s" and dev: "dev = log_dev (the_log s)"
    and h: "home_block i s \<in> P" "log_block i s \<notin> P" and P: "finite P" "card P < NBUF"
  shows "\<exists>s'. write_log_one i s = Ok s' \<and> cache_inv dev P nv {} s' \<and> the_log s' = the_log s \<and>
    wrote [(log_block i s, nv (home_block i s))] s s'"
proof -
  let ?l = "log_block i s" and ?h = "home_block i s"
  have ne: "?l \<noteq> ?h" using h by auto
  have pre: "\<forall>c\<in>{}. b_blockno (bufs s c) \<noteq> ?l" by simp
  have room: "?l \<in> P \<or> card P + card ({} :: nat set) < NBUF" using P by simp
  obtain a s1 where r1: "bread dev ?l s = Ok (a, s1)" "a \<notin> {}" "b_blockno (bufs s1 a) = ?l" "b_data (bufs s1 a) = blk P nv (disk s) ?l"
    "cache_inv dev P nv {a} s1" "disk s1 = disk s" "dwrites s1 = dwrites s" "the_log s1 = the_log s"
    "\<forall>c. c \<noteq> a \<longrightarrow> bufs s1 c = bufs s c"
    by (rule breadE [OF inv pre P(1) room]) (rule that)
  have pre2: "\<forall>c\<in>{a}. b_blockno (bufs s1 c) \<noteq> ?h" using r1(3) ne by simp
  obtain b s2 where r2: "bread dev ?h s1 = Ok (b, s2)" "b \<notin> {a}" "b_blockno (bufs s2 b) = ?h" "b_data (bufs s2 b) = blk P nv (disk s1) ?h"
    "cache_inv dev P nv {b, a} s2" "disk s2 = disk s1" "dwrites s2 = dwrites s1" "the_log s2 = the_log s1"
    "\<forall>c. c \<noteq> b \<longrightarrow> bufs s2 c = bufs s1 c"
    by (rule breadE [OF r1(5) pre2 P(1) disjI1 [OF h(1)]]) (rule that)
  let ?s3 = "upd_buf a (\<lambda>x. x\<lparr>b_data := b_data (bufs s2 b)\<rparr>) s2"
  have ab: "a \<noteq> b" using r2(2) by simp
  have d: "b_data (bufs s2 b) = nv ?h" using r2(4) h by (simp add: blk_def)
  have b3: "b_blockno (bufs ?s3 a) = ?l" "b_data (bufs ?s3 a) = nv ?h" "bufs ?s3 b = bufs s2 b"
    using r2(9) [rule_format, OF ab] r1(3) d ab by simp_all
  have i3: "cache_inv dev P nv {b, a} ?s3" by (rule cache_inv_data [OF r2(5)]) simp
  have "a \<in> {b, a}" by simp
  from bwriteE [OF i3 this] obtain s4 where r4: "bwrite a ?s3 = Ok s4" "cache_inv dev P nv {b, a} s4"
    "wrote [(?l, nv ?h)] ?s3 s4" "the_log s4 = the_log ?s3" "bufs s4 = bufs ?s3" unfolding b3 by metis
  have "b_data (bufs s4 b) = blk P nv (disk s4) (b_blockno (bufs s4 b))"
    using r4(5) b3(3) r2(3) d h by (simp add: blk_def)
  from brelseE [OF r4(2) _ this] obtain s5 where r5: "brelse b s4 = Ok s5" "cache_inv dev P nv ({b, a} - {b}) s5"
    "disk s5 = disk s4" "dwrites s5 = dwrites s4" "the_log s5 = the_log s4"
    "\<forall>c. b_blockno (bufs s5 c) = b_blockno (bufs s4 c) \<and> b_data (bufs s5 c) = b_data (bufs s4 c)" by blast
  have i5: "cache_inv dev P nv {a} s5" using r5(2) ab by (simp add: insert_Diff_if)
  have "disk s5 ?l = nv ?h" using r5(3) r4(3) by (simp add: wrote_def)
  then have "b_data (bufs s5 a) = blk P nv (disk s5) (b_blockno (bufs s5 a))"
    using r5(6) r4(5) b3(1,2) h by (simp add: blk_def)
  from brelseE [OF i5 _ this] obtain s6 where r6: "brelse a s5 = Ok s6" "cache_inv dev P nv ({a} - {a}) s6"
    "disk s6 = disk s5" "dwrites s6 = dwrites s5" "the_log s6 = the_log s5" by blast
  have "wrote [(?l, nv ?h)] s s6"
    using r4(3) r5(3,4) r6(3,4) r1(6,7) r2(6,7) by (simp add: wrote_def)
  moreover have "write_log_one i s = Ok s6"
    unfolding write_log_one_def dev [symmetric] r1(1) bnd_Ok prod.case
    using r2(1) r4(1) r5(1) r6(1) r1(8) dev by (simp add: log_block_cong(2) [OF r1(8)] Let_def)
  moreover have "the_log s6 = the_log s" using r1(8) r2(8) r4(4) r5(5) r6(5) by simp
  ultimately show ?thesis using r6(2) by auto
qed

text \<open>
  Installing a block: when \<open>recovering\<close> the block is not pinned; otherwise it is, and it is
  unpinned.
\<close>

lemma install_one_step:
  fixes s :: "'a log_state_scheme"
  assumes inv: "cache_inv dev P nv {} s" and dev: "dev = log_dev (the_log s)"
    and h: "home_block i s \<in> P \<longleftrightarrow> \<not> recovering" "log_block i s \<notin> P" "log_block i s \<noteq> home_block i s"
    and P: "finite P" "card P < (if recovering then NBUF - 1 else NBUF)"
  shows "\<exists>s'. install_one recovering i s = Ok s' \<and> cache_inv dev (P - {home_block i s}) nv {} s' \<and> the_log s' = the_log s \<and>
    wrote [(home_block i s, disk s (log_block i s))] s s'"
proof -
  let ?l = "log_block i s" and ?h = "home_block i s" and ?P = "P - {home_block i s}"
  have pre: "\<forall>c\<in>{}. b_blockno (bufs s c) \<noteq> ?l" by simp
  have room: "?l \<in> P \<or> card P + card ({} :: nat set) < NBUF" using P by (auto split: if_splits)
  obtain a s1 where r1: "bread dev ?l s = Ok (a, s1)" "a \<notin> {}" "b_blockno (bufs s1 a) = ?l" "b_data (bufs s1 a) = blk P nv (disk s) ?l"
    "cache_inv dev P nv {a} s1" "disk s1 = disk s" "dwrites s1 = dwrites s" "the_log s1 = the_log s"
    "\<forall>c. c \<noteq> a \<longrightarrow> bufs s1 c = bufs s c"
    by (rule breadE [OF inv pre P(1) room]) (rule that)
  have pre2: "\<forall>c\<in>{a}. b_blockno (bufs s1 c) \<noteq> ?h" using r1(3) h(3) by simp
  have room2: "?h \<in> P \<or> card P + card {a} < NBUF" using P h(1) by (auto split: if_splits)
  obtain b s2 where r2: "bread dev ?h s1 = Ok (b, s2)" "b \<notin> {a}" "b_blockno (bufs s2 b) = ?h" "b_data (bufs s2 b) = blk P nv (disk s1) ?h"
    "cache_inv dev P nv {b, a} s2" "disk s2 = disk s1" "dwrites s2 = dwrites s1" "the_log s2 = the_log s1"
    "\<forall>c. c \<noteq> b \<longrightarrow> bufs s2 c = bufs s1 c"
    by (rule breadE [OF r1(5) pre2 P(1) room2]) (rule that)
  let ?v = "disk s ?l"
  let ?s3 = "upd_buf b (\<lambda>x. x\<lparr>b_data := b_data (bufs s2 a)\<rparr>) s2"
  have ab: "a \<noteq> b" using r2(2) by simp
  have d: "b_data (bufs s2 a) = ?v" using r2(9) [rule_format, OF ab] r1(4) h by (simp add: blk_def)
  have b3: "b_blockno (bufs ?s3 b) = ?h" "b_data (bufs ?s3 b) = ?v" "b_blockno (bufs ?s3 a) = ?l" "b_data (bufs ?s3 a) = ?v"
    using r2(3,9) r1(3) d ab by simp_all
  have i3: "cache_inv dev P nv {b, a} ?s3" by (rule cache_inv_data [OF r2(5)]) simp
  have "b \<in> {b, a}" by simp
  from bwriteE [OF i3 this] obtain s4 where r4: "bwrite b ?s3 = Ok s4" "cache_inv dev P nv {b, a} s4"
    "wrote [(?h, ?v)] ?s3 s4" "the_log s4 = the_log ?s3" "bufs s4 = bufs ?s3" unfolding b3 by metis
  let ?s5 = "if recovering then s4 else bunpin b s4"
  have i5: "cache_inv dev ?P nv {b, a} ?s5"
  proof (cases recovering)
    case True
    then have "?P = P" using h(1) by auto
    then show ?thesis using True r4(2) by simp
  next
    case False
    then show ?thesis using bunpin_inv [OF r4(2), of b ?h] h(1) r4(5) b3(1) by simp
  qed
  have s5: "disk ?s5 = disk s4" "dwrites ?s5 = dwrites s4" "the_log ?s5 = the_log s4"
    "\<And>c. b_blockno (bufs ?s5 c) = b_blockno (bufs s4 c)" "\<And>c. b_data (bufs ?s5 c) = b_data (bufs s4 c)"
    by (simp_all add: bunpin_def)
  have dl: "disk s4 ?l = ?v" "disk s4 ?h = ?v" using r4(3) r2(6) r1(6) h(3) by (auto simp: wrote_def)
  have "b_data (bufs ?s5 a) = blk ?P nv (disk ?s5) (b_blockno (bufs ?s5 a))"
    using s5 r4(5) b3(3,4) dl(1) h by (simp add: blk_def)
  from brelseE [OF i5 _ this] obtain s6 where r6: "brelse a ?s5 = Ok s6" "cache_inv dev ?P nv ({b, a} - {a}) s6"
    "disk s6 = disk ?s5" "dwrites s6 = dwrites ?s5" "the_log s6 = the_log ?s5"
    "\<forall>c. b_blockno (bufs s6 c) = b_blockno (bufs ?s5 c) \<and> b_data (bufs s6 c) = b_data (bufs ?s5 c)" by blast
  have "{b, a} - {a} = {b}" using ab by auto
  then have i6: "cache_inv dev ?P nv {b} s6" using r6(2) by simp
  have "b_data (bufs s6 b) = blk ?P nv (disk s6) (b_blockno (bufs s6 b))"
    using r6(3,6) s5 r4(5) b3(1,2) dl(2) by (simp add: blk_def)
  from brelseE [OF i6 _ this] obtain s7 where r7: "brelse b s6 = Ok s7" "cache_inv dev ?P nv ({b} - {b}) s7"
    "disk s7 = disk s6" "dwrites s7 = dwrites s6" "the_log s7 = the_log s6" by blast
  have "wrote [(?h, ?v)] s s7"
    using r4(3) s5(1,2) r6(3,4) r7(3,4) r1(6,7) r2(6,7) by (simp add: wrote_def)
  moreover have "install_one recovering i s = Ok s7"
    unfolding install_one_def dev [symmetric] r1(1) bnd_Ok prod.case
    using r2(1) r4(1) r6(1) r7(1) r1(8) dev by (simp add: log_block_cong(2) [OF r1(8)] Let_def)
  moreover have "the_log s7 = the_log s" using r1(8) r2(8) r4(4) s5(3) r6(5) r7(5) by simp
  ultimately show ?thesis using r7(2) by auto
qed

section \<open>The header\<close>

definition enc_head :: "logheader \<Rightarrow> block \<Rightarrow> block" where
  "enc_head h d = fold (\<lambda>i d. put32 d (4 + 4 * i) (lh_block h i)) [0..<nat (sint (lh_n h))] (put32 d 0 (lh_n h))"

definition dec_head :: "block \<Rightarrow> logheader \<Rightarrow> logheader" where
  "dec_head d h = fold (\<lambda>i h. h\<lparr>lh_block := (lh_block h)(i := get32 d (4 + 4 * i))\<rparr>) [0..<nat (sint (get32 d 0))]
     (h\<lparr>lh_n := get32 d 0\<rparr>)"

lemma enc_head_fold:
  "get32 (fold (\<lambda>i d. put32 d (4 + 4 * i) (f i)) [0..<n] d) 0 = get32 d 0"
  "get32 (fold (\<lambda>i d. put32 d (4 + 4 * i) (f i)) [0..<n] d) (4 + 4 * j) = (if j < n then f j else get32 d (4 + 4 * j))"
  by (induction n) (auto simp: get32_put32_other less_Suc_eq)

lemma enc_head_n [simp]: "get32 (enc_head h d) 0 = lh_n h"
  and enc_head_block: "i < nat (sint (lh_n h)) \<Longrightarrow> get32 (enc_head h d) (4 + 4 * i) = lh_block h i"
  by (simp_all add: enc_head_def enc_head_fold)

lemma dec_head_fold:
  "lh_n (fold (\<lambda>i h. h\<lparr>lh_block := (lh_block h)(i := f i)\<rparr>) [0..<n] h) = lh_n h"
  "lh_block (fold (\<lambda>i h. h\<lparr>lh_block := (lh_block h)(i := f i)\<rparr>) [0..<n] h) j = (if j < n then f j else lh_block h j)"
  by (induction n) (auto simp: less_Suc_eq)

lemma dec_head_n [simp]: "lh_n (dec_head d h) = get32 d 0"
  and dec_head_block: "i < nat (sint (get32 d 0)) \<Longrightarrow> lh_block (dec_head d h) i = get32 d (4 + 4 * i)"
  by (simp_all add: dec_head_def dec_head_fold)

lemma upd_buf_twice: "upd_buf b f (upd_buf b g s) = upd_buf b (\<lambda>x. f (g x)) s"
  by (simp add: upd_buf_def)

lemma write_head_fold:
  fixes s :: "'a log_state_scheme"
  shows "fold (\<lambda>i s. upd_buf b (\<lambda>x. x\<lparr>b_data := put32 (b_data x) (4 + 4 * i) (lh_block (log_lh (the_log s)) i)\<rparr>) s) xs s =
    upd_buf b (\<lambda>x. x\<lparr>b_data := fold (\<lambda>i d. put32 d (4 + 4 * i) (lh_block (log_lh (the_log s)) i)) xs (b_data x)\<rparr>) s"
proof (induction xs arbitrary: s)
  case Nil
  show ?case by (simp add: upd_buf_def)
next
  case (Cons i xs)
  then show ?case by (simp add: upd_buf_twice)
qed

lemma write_head_step:
  fixes s :: "'a log_state_scheme"
  assumes inv: "cache_inv dev P nv {} s" and dev: "dev = log_dev (the_log s)"
    and st: "log_start (the_log s) \<notin> P" and P: "finite P" "card P < NBUF"
  shows "\<exists>s'. write_head s = Ok s' \<and> cache_inv dev P nv {} s' \<and> the_log s' = the_log s \<and>
    wrote [(log_start (the_log s), enc_head (log_lh (the_log s)) (disk s (log_start (the_log s))))] s s'"
proof -
  let ?n = "log_start (the_log s)" and ?h = "log_lh (the_log s)"
  have pre: "\<forall>c\<in>{}. b_blockno (bufs s c) \<noteq> ?n" by simp
  have room: "?n \<in> P \<or> card P + card ({} :: nat set) < NBUF" using P by simp
  obtain b s1 where r1: "bread dev ?n s = Ok (b, s1)" "b \<notin> {}" "b_blockno (bufs s1 b) = ?n" "b_data (bufs s1 b) = blk P nv (disk s) ?n"
    "cache_inv dev P nv {b} s1" "disk s1 = disk s" "dwrites s1 = dwrites s" "the_log s1 = the_log s"
    "\<forall>c. c \<noteq> b \<longrightarrow> bufs s1 c = bufs s c"
    by (rule breadE [OF inv pre P(1) room]) (rule that)
  have d: "b_data (bufs s1 b) = disk s ?n" using r1(4) st by (simp add: blk_def)
  let ?e = "enc_head ?h (disk s ?n)"
  let ?s3 = "upd_buf b (\<lambda>x. x\<lparr>b_data := ?e\<rparr>) s1"
  have i3: "cache_inv dev P nv {b} ?s3" by (rule cache_inv_data [OF r1(5)]) simp
  have b3: "b_blockno (bufs ?s3 b) = ?n" "b_data (bufs ?s3 b) = ?e" using r1(3) by simp_all
  have "b \<in> {b}" by simp
  from bwriteE [OF i3 this] obtain s4 where r4: "bwrite b ?s3 = Ok s4" "cache_inv dev P nv {b} s4"
    "wrote [(?n, ?e)] ?s3 s4" "the_log s4 = the_log ?s3" "bufs s4 = bufs ?s3" unfolding b3 by metis
  have "disk s4 ?n = ?e" using r4(3) by (simp add: wrote_def)
  then have "b_data (bufs s4 b) = blk P nv (disk s4) (b_blockno (bufs s4 b))" using r4(5) b3 st by (simp add: blk_def)
  from brelseE [OF r4(2) _ this] obtain s5 where r5: "brelse b s4 = Ok s5" "cache_inv dev P nv ({b} - {b}) s5"
    "disk s5 = disk s4" "dwrites s5 = dwrites s4" "the_log s5 = the_log s4" by blast
  have "upd_buf b (\<lambda>x. x\<lparr>b_data := fold (\<lambda>i d. put32 d (4 + 4 * i) (lh_block ?h i)) [0..<lh_len s] (put32 (b_data x) 0 (lh_n ?h))\<rparr>) s1 = ?s3"
    using d by (simp add: upd_buf_def enc_head_def lh_len_def)
  then have "write_head s = Ok s5"
    unfolding write_head_def dev [symmetric] r1(1) bnd_Ok prod.case Let_def write_head_fold
    using r4(1) r5(1) r1(8) by (simp add: upd_buf_twice log_block_cong(3) [of "upd_buf b f s1" s for f])
  moreover have "wrote [(?n, ?e)] s s5" using r4(3) r5(3,4) r1(6,7) by (simp add: wrote_def)
  moreover have "the_log s5 = the_log s" using r1(8) r4(4) r5(5) by simp
  ultimately show ?thesis using r5(2) by auto
qed

lemma cache_inv_the_log [simp]:
  fixes s :: "'a log_state_scheme"
  shows "cache_inv dev P nv H (s\<lparr>the_log := l\<rparr>) = cache_inv dev P nv H s"
  by (simp add: cache_inv_def my_pid_def myproc_def mycpu_def cpuid_def lru_ok_def nexts_def [abs_def] prevs_def [abs_def])

lemma read_head_fold:
  fixes s :: "'a log_state_scheme"
  shows "fold (\<lambda>i. upd_lh (\<lambda>h. h\<lparr>lh_block := (lh_block h)(i := f i)\<rparr>)) xs s =
    s\<lparr>the_log := (the_log s)\<lparr>log_lh := fold (\<lambda>i h. h\<lparr>lh_block := (lh_block h)(i := f i)\<rparr>) xs (log_lh (the_log s))\<rparr>\<rparr>"
proof (induction xs arbitrary: s)
  case Nil
  show ?case by simp
next
  case (Cons i xs)
  then show ?case by (simp add: upd_lh_def upd_log_def)
qed

lemma read_head_step:
  fixes s :: "'a log_state_scheme"
  assumes inv: "cache_inv dev P nv {} s" and dev: "dev = log_dev (the_log s)"
    and st: "log_start (the_log s) \<notin> P" and P: "finite P" "card P < NBUF"
  shows "\<exists>s'. read_head s = Ok s' \<and> cache_inv dev P nv {} s' \<and> wrote [] s s' \<and>
    the_log s' = (the_log s)\<lparr>log_lh := dec_head (disk s (log_start (the_log s))) (log_lh (the_log s))\<rparr>"
proof -
  let ?n = "log_start (the_log s)" and ?h = "log_lh (the_log s)"
  have pre: "\<forall>c\<in>{}. b_blockno (bufs s c) \<noteq> ?n" by simp
  have room: "?n \<in> P \<or> card P + card ({} :: nat set) < NBUF" using P by simp
  obtain b s1 where r1: "bread dev ?n s = Ok (b, s1)" "b \<notin> {}" "b_blockno (bufs s1 b) = ?n" "b_data (bufs s1 b) = blk P nv (disk s) ?n"
    "cache_inv dev P nv {b} s1" "disk s1 = disk s" "dwrites s1 = dwrites s" "the_log s1 = the_log s"
    "\<forall>c. c \<noteq> b \<longrightarrow> bufs s1 c = bufs s c"
    by (rule breadE [OF inv pre P(1) room]) (rule that)
  have d: "b_data (bufs s1 b) = disk s ?n" using r1(4) st by (simp add: blk_def)
  let ?l = "(the_log s)\<lparr>log_lh := dec_head (disk s ?n) ?h\<rparr>"
  have i2: "cache_inv dev P nv {b} (s1\<lparr>the_log := ?l\<rparr>)" using r1(5) by simp
  have "b_data (bufs (s1\<lparr>the_log := ?l\<rparr>) b) = blk P nv (disk (s1\<lparr>the_log := ?l\<rparr>)) (b_blockno (bufs (s1\<lparr>the_log := ?l\<rparr>) b))"
    using r1(3,4,6) by simp
  from brelseE [OF i2 _ this] obtain s5 where r5: "brelse b (s1\<lparr>the_log := ?l\<rparr>) = Ok s5" "cache_inv dev P nv ({b} - {b}) s5"
    "disk s5 = disk s" "dwrites s5 = dwrites s" "the_log s5 = ?l" using r1(6,7) by auto
  have "read_head s = Ok s5"
    unfolding read_head_def dev [symmetric] r1(1) bnd_Ok prod.case Let_def read_head_fold d
    using r5(1) r1(8) by (simp add: upd_lh_def upd_log_def lh_len_def dec_head_def)
  then show ?thesis using r5 by (auto simp: wrote_def)
qed

section \<open>Whole operations\<close>

text \<open>The blocks of the log: the header and \<open>n\<close> blocks behind it.\<close>

definition log_area :: "nat \<Rightarrow> 'a log_state_scheme \<Rightarrow> u32 set" where
  "log_area n s = insert (log_start (the_log s)) ((\<lambda>i. log_block i s) ` {..<n})"

lemma log_block_ne:
  assumes "i < NBUF"
  shows "log_block i s \<noteq> log_start (the_log s)"
proof
  assume "log_block i s = log_start (the_log s)"
  then have "of_nat (Suc i) = (0 :: u32)" by (simp add: log_block_def algebra_simps)
  then have "unat (of_nat (Suc i) :: u32) = 0" by simp
  moreover have "unat (of_nat (Suc i) :: u32) = Suc i" using assms by (simp add: unsigned_of_nat take_bit_nat_eq_self del: of_nat_Suc)
  ultimately show False by simp
qed

lemma log_block_inj:
  assumes "i < NBUF" "j < NBUF" "log_block i s = log_block j s"
  shows "i = j"
proof -
  have "unat (of_nat i :: u32) = unat (of_nat j :: u32)" using assms(3) by (simp add: log_block_def)
  moreover have "unat (of_nat i :: u32) = i" "unat (of_nat j :: u32) = j" using assms by (simp_all add: unsigned_of_nat take_bit_nat_eq_self)
  ultimately show ?thesis by simp
qed

lemma fst_map_pair: "fst ` set (map (\<lambda>i. (f i, g i)) [0..<n]) = f ` {..<n}"
  by force

lemma start_not_in_log: "n \<le> NBUF \<Longrightarrow> log_start (the_log s) \<notin> (\<lambda>i. log_block i s) ` {..<n}"
proof
  assume n: "n \<le> NBUF" and "log_start (the_log s) \<in> (\<lambda>i. log_block i s) ` {..<n}"
  from this(2) obtain i where "log_start (the_log s) = log_block i s" "i \<in> {..<n}" by (rule imageE)
  then show False using log_block_ne [of i s] n by simp
qed

lemma write_log_steps:
  fixes s :: "'a log_state_scheme"
  assumes inv: "cache_inv dev P nv {} s" and dev: "dev = log_dev (the_log s)" and P: "finite P" "card P < NBUF"
    and h: "\<And>i. i < n \<Longrightarrow> home_block i s \<in> P \<and> log_block i s \<notin> P" and k: "k \<le> n"
  shows "\<exists>s'. fold_res write_log_one [0..<k] s = Ok s' \<and> cache_inv dev P nv {} s' \<and> the_log s' = the_log s \<and>
    wrote (map (\<lambda>i. (log_block i s, nv (home_block i s))) [0..<k]) s s'"
  using k
proof (induction k)
  case 0
  then show ?case using inv by (simp add: wrote_def)
next
  case (Suc k)
  then obtain s1 where s1: "fold_res write_log_one [0..<k] s = Ok s1" "cache_inv dev P nv {} s1" "the_log s1 = the_log s"
    "wrote (map (\<lambda>i. (log_block i s, nv (home_block i s))) [0..<k]) s s1" by auto
  note eq = log_block_cong [OF s1(3)]
  have "\<exists>s2. write_log_one k s1 = Ok s2 \<and> cache_inv dev P nv {} s2 \<and> the_log s2 = the_log s1 \<and>
      wrote [(log_block k s1, nv (home_block k s1))] s1 s2"
    by (rule write_log_one_step) (use s1(2,3) dev P h [of k] Suc.prems in \<open>simp_all add: eq\<close>)
  then obtain s2 where s2: "write_log_one k s1 = Ok s2" "cache_inv dev P nv {} s2" "the_log s2 = the_log s1"
    "wrote [(log_block k s, nv (home_block k s))] s1 s2" unfolding eq by blast
  then show ?case using s1 wrote_trans [OF s1(4) s2(4)] by (simp add: fold_res_append)
qed

lemma install_steps:
  fixes s :: "'a log_state_scheme"
  assumes inv: "cache_inv dev P nv {} s" and dev: "dev = log_dev (the_log s)" and P: "finite P" "card P < NBUF"
    and h: "\<And>i j. i < n \<Longrightarrow> j < n \<Longrightarrow> home_block i s \<noteq> log_block j s"
    and r: "if r then P = {} else (\<lambda>i. home_block i s) ` {..<n} \<subseteq> P \<and> inj_on (\<lambda>i. home_block i s) {..<n}"
    and l: "\<And>i. i < n \<Longrightarrow> log_block i s \<notin> P" and k: "k \<le> n"
  shows "\<exists>s'. fold_res (install_one r) [0..<k] s = Ok s' \<and> cache_inv dev (P - (\<lambda>i. home_block i s) ` {..<k}) nv {} s' \<and>
    the_log s' = the_log s \<and> wrote (map (\<lambda>i. (home_block i s, disk s (log_block i s))) [0..<k]) s s'"
  using k
proof (induction k)
  case 0
  then show ?case using inv by (simp add: wrote_def)
next
  case (Suc k)
  let ?P = "P - (\<lambda>i. home_block i s) ` {..<k}" and ?W = "map (\<lambda>i. (home_block i s, disk s (log_block i s))) [0..<k]"
  obtain s1 where s1: "fold_res (install_one r) [0..<k] s = Ok s1" "cache_inv dev ?P nv {} s1" "the_log s1 = the_log s"
    "wrote ?W s s1" using Suc by auto
  note eq = log_block_cong [OF s1(3)]
  have kn: "k < n" using Suc.prems by simp
  have "home_block k s \<notin> (\<lambda>i. home_block i s) ` {..<k}" if "\<not> r"
  proof
    assume "home_block k s \<in> (\<lambda>i. home_block i s) ` {..<k}"
    then obtain i where i: "i < k" "home_block k s = home_block i s" by auto
    have "inj_on (\<lambda>i. home_block i s) {..<n}" using r that by simp
    from inj_onD [OF this i(2)] kn i(1) show False by simp
  qed
  then have "home_block k s \<in> ?P \<longleftrightarrow> \<not> r" using r kn by (auto split: if_splits)
  moreover have "card ?P < (if r then NBUF - 1 else NBUF)"
    using r P card_mono [OF P(1), of ?P] by (auto split: if_splits)
  ultimately have "\<exists>s2. install_one r k s1 = Ok s2 \<and> cache_inv dev (?P - {home_block k s1}) nv {} s2 \<and> the_log s2 = the_log s1 \<and>
      wrote [(home_block k s1, disk s1 (log_block k s1))] s1 s2"
    by (intro install_one_step) (use s1(2,3) dev P(1) h [OF kn kn] l [OF kn] in \<open>simp_all add: eq\<close>)
  moreover have "log_block k s \<notin> fst ` set ?W"
  proof
    assume "log_block k s \<in> fst ` set ?W"
    then obtain i where "i < k" "log_block k s = home_block i s" by auto
    then show False using h [of i k] kn by simp
  qed
  then have "disk s1 (log_block k s) = disk s (log_block k s)"
    using s1(4) by (simp add: wrote_def replay_other)
  ultimately obtain s2 where s2: "install_one r k s1 = Ok s2" "cache_inv dev (?P - {home_block k s}) nv {} s2" "the_log s2 = the_log s1"
    "wrote [(home_block k s, disk s (log_block k s))] s1 s2" unfolding eq by auto
  have "?P - {home_block k s} = P - (\<lambda>i. home_block i s) ` {..<Suc k}" by (auto simp: lessThan_Suc)
  then show ?case using s1 s2 wrote_trans [OF s1(4) s2(4)] by (simp add: fold_res_append)
qed

text \<open>A transaction ready to commit: the header lists the pinned blocks, none of them in the log.\<close>

definition log_ready :: "u32 set \<Rightarrow> (u32 \<Rightarrow> block) \<Rightarrow> 'a log_state_scheme \<Rightarrow> bool" where
  "log_ready P nv s \<longleftrightarrow> cache_inv (log_dev (the_log s)) P nv {} s \<and> P = (\<lambda>i. home_block i s) ` {..<lh_len s} \<and>
     inj_on (\<lambda>i. home_block i s) {..<lh_len s} \<and> P \<inter> log_area (lh_len s) s = {} \<and> 0 < lh_len s \<and> lh_len s < NBUF"

definition commit_writes :: "(u32 \<Rightarrow> block) \<Rightarrow> 'a log_state_scheme \<Rightarrow> (u32 \<times> block) list" where
  "commit_writes nv s =
     (let l = the_log s; st = log_start l; n = lh_len s; e = enc_head (log_lh l) (disk s st)
      in map (\<lambda>i. (log_block i s, nv (home_block i s))) [0..<n] @ [(st, e)] @
         map (\<lambda>i. (home_block i s, nv (home_block i s))) [0..<n] @ [(st, put32 e 0 0)])"

lemma enc_head_zero: "lh_n h = 0 \<Longrightarrow> enc_head h d = put32 d 0 0"
  by (simp add: enc_head_def)

lemma clear_head_step:
  fixes s :: "'a log_state_scheme"
  assumes inv: "cache_inv dev P nv {} s" and dev: "dev = log_dev (the_log s)"
    and st: "log_start (the_log s) \<notin> P" and P: "finite P" "card P < NBUF"
  shows "\<exists>s'. write_head (upd_lh (\<lambda>h. h\<lparr>lh_n := 0\<rparr>) s) = Ok s' \<and> cache_inv dev P nv {} s' \<and>
    the_log s' = (the_log s)\<lparr>log_lh := (log_lh (the_log s))\<lparr>lh_n := 0\<rparr>\<rparr> \<and>
    wrote [(log_start (the_log s), put32 (disk s (log_start (the_log s))) 0 0)] s s'"
  using write_head_step [of dev P nv "upd_lh (\<lambda>h. h\<lparr>lh_n := 0\<rparr>) s"] assms
  by (simp add: upd_lh_def upd_log_def enc_head_zero wrote_def)

lemma log_readyD:
  assumes "log_ready P nv s"
  shows "cache_inv (log_dev (the_log s)) P nv {} s" "P = (\<lambda>i. home_block i s) ` {..<lh_len s}"
    "inj_on (\<lambda>i. home_block i s) {..<lh_len s}" "0 < lh_len s" "lh_len s < NBUF" "finite P" "card P < NBUF"
    "log_start (the_log s) \<notin> P" "i < lh_len s \<Longrightarrow> log_block i s \<notin> P" "i < lh_len s \<Longrightarrow> home_block i s \<in> P"
proof -
  show d: "cache_inv (log_dev (the_log s)) P nv {} s" "P = (\<lambda>i. home_block i s) ` {..<lh_len s}"
    "inj_on (\<lambda>i. home_block i s) {..<lh_len s}" "0 < lh_len s" "lh_len s < NBUF"
    using assms unfolding log_ready_def by blast+
  show "finite P" using d(2) by simp
  have "card P \<le> lh_len s" using d(2) card_image_le [of "{..<lh_len s}"] by simp
  then show "card P < NBUF" using d(5) by simp
  have "P \<inter> log_area (lh_len s) s = {}" using assms unfolding log_ready_def by blast
  then show "log_start (the_log s) \<notin> P" "i < lh_len s \<Longrightarrow> log_block i s \<notin> P" by (auto simp: log_area_def)
  show "i < lh_len s \<Longrightarrow> home_block i s \<in> P" using d(2) by simp
qed

lemma commit_steps:
  fixes s :: "'a log_state_scheme"
  assumes ready: "log_ready P nv s"
  shows "\<exists>s'. commit s = Ok s' \<and> cache_inv (log_dev (the_log s)) {} nv {} s' \<and> wrote (commit_writes nv s) s s' \<and>
    the_log s' = (the_log s)\<lparr>log_lh := (log_lh (the_log s))\<lparr>lh_n := 0\<rparr>\<rparr>"
proof -
  note R = log_readyD [OF ready]
  let ?dev = "log_dev (the_log s)" and ?st = "log_start (the_log s)" and ?n = "lh_len s"
  let ?W1 = "map (\<lambda>i. (log_block i s, nv (home_block i s))) [0..<?n]"
  have h: "home_block i s \<in> P \<and> log_block i s \<notin> P" if "i < ?n" for i using R(9,10) that by blast
  obtain s1 where s1: "write_log s = Ok s1" "cache_inv ?dev P nv {} s1" "the_log s1 = the_log s" "wrote ?W1 s s1"
    using write_log_steps [OF R(1) refl R(6,7) h order_refl] unfolding write_log_def by blast
  have d1: "disk s1 (log_block i s) = nv (home_block i s)" if "i < ?n" for i
  proof -
    have "distinct (map fst ?W1)" using R(5) log_block_inj [of _ _ s] by (auto simp: distinct_map inj_on_def)
    then show ?thesis using s1(4) that by (auto simp: wrote_def intro!: replay_in)
  qed
  have "?st \<notin> fst ` set ?W1" unfolding fst_map_pair by (rule start_not_in_log) (use R(5) in simp)
  then have d1s: "disk s1 ?st = disk s ?st" using s1(4) by (simp add: wrote_def replay_other)
  let ?e = "enc_head (log_lh (the_log s)) (disk s ?st)"
  obtain s2 where s2: "write_head s1 = Ok s2" "cache_inv ?dev P nv {} s2" "the_log s2 = the_log s" "wrote [(?st, ?e)] s1 s2"
    using write_head_step [OF s1(2), unfolded s1(3), OF refl R(8,6,7)] d1s by auto
  note eq = log_block_cong [OF s2(3)]
  have d2: "disk s2 (log_block i s) = nv (home_block i s)" if "i < ?n" for i
    using s2(4) d1 [OF that] log_block_ne [of i s] that R(5) by (simp add: wrote_def)
  let ?W3 = "map (\<lambda>i. (home_block i s, disk s2 (log_block i s))) [0..<?n]"
  have "\<exists>s3. fold_res (install_one False) [0..<?n] s2 = Ok s3 \<and> cache_inv ?dev (P - (\<lambda>i. home_block i s2) ` {..<?n}) nv {} s3 \<and>
      the_log s3 = the_log s2 \<and> wrote (map (\<lambda>i. (home_block i s2, disk s2 (log_block i s2))) [0..<?n]) s2 s3"
  proof (rule install_steps [OF s2(2)])
    show "home_block i s2 \<noteq> log_block j s2" if "i < ?n" "j < ?n" for i j using h that unfolding eq by metis
    show "if False then P = {} else (\<lambda>i. home_block i s2) ` {..<?n} \<subseteq> P \<and> inj_on (\<lambda>i. home_block i s2) {..<?n}"
      using R(2,3) unfolding eq by auto
    show "log_block i s2 \<notin> P" if "i < ?n" for i using h that unfolding eq by blast
  qed (use R(6,7) s2(3) in simp_all)
  then obtain s3 where s3: "install_trans False s2 = Ok s3" "cache_inv ?dev (P - P) nv {} s3" "the_log s3 = the_log s2"
    "wrote ?W3 s2 s3" unfolding install_trans_def eq R(2) [symmetric] by blast
  have W3: "?W3 = map (\<lambda>i. (home_block i s, nv (home_block i s))) [0..<?n]" using d2 by simp
  have i3: "cache_inv ?dev {} nv {} s3" using s3(2) by simp
  have l3: "the_log s3 = the_log s" using s3(3) s2(3) by simp
  have "?st \<notin> fst ` set ?W3" using R(8,2) by auto
  then have d3: "disk s3 ?st = ?e" using s3(4) s2(4) by (simp add: wrote_def replay_other)
  obtain s4 where s4: "write_head (upd_lh (\<lambda>h. h\<lparr>lh_n := 0\<rparr>) s3) = Ok s4" "cache_inv ?dev {} nv {} s4"
    "the_log s4 = (the_log s)\<lparr>log_lh := (log_lh (the_log s))\<lparr>lh_n := 0\<rparr>\<rparr>" "wrote [(?st, put32 ?e 0 0)] s3 s4"
    using clear_head_step [OF i3, unfolded l3 d3] by auto
  have "wrote (?W1 @ [(?st, ?e)] @ ?W3 @ [(?st, put32 ?e 0 0)]) s s4"
    using wrote_trans [OF s1(4) wrote_trans [OF s2(4) wrote_trans [OF s3(4) s4(4)]]] .
  then have "wrote (commit_writes nv s) s s4" unfolding commit_writes_def W3 by (simp add: Let_def)
  moreover have "0 < sint (lh_n (log_lh (the_log s)))" using R(4) by (simp add: lh_len_def)
  then have "commit s = Ok s4" unfolding commit_def using s1(1) s2(1) s3(1) s4(1) by simp
  ultimately show ?thesis using s4(2,3) by blast
qed

lemma recover_steps:
  fixes t :: "'a log_state_scheme"
  assumes inv: "cache_inv dev {} nv {} t" and dev: "dev = log_dev (the_log t)"
    and st: "st = log_start (the_log t)" and n: "n = nat (sint (get32 (disk t st) 0))"
    and hs: "\<And>i. hs i = get32 (disk t st) (4 + 4 * i)"
    and ne: "\<And>i j. i < n \<Longrightarrow> j < n \<Longrightarrow> hs i \<noteq> log_block j t" "\<And>i. i < n \<Longrightarrow> hs i \<noteq> st"
  shows "\<exists>t'. recover_from_log t = Ok t' \<and>
    disk t' = (replay (map (\<lambda>i. (hs i, disk t (log_block i t))) [0..<n]) (disk t))(st := put32 (disk t st) 0 0)"
proof -
  let ?l = "(the_log t)\<lparr>log_lh := dec_head (disk t st) (log_lh (the_log t))\<rparr>"
  obtain t1 where t1: "read_head t = Ok t1" "cache_inv dev {} nv {} t1" "wrote [] t t1" "the_log t1 = ?l"
    using read_head_step [OF inv dev] st by auto
  have len: "lh_len t1 = n" using t1(4) n by (simp add: lh_len_def)
  have h1: "home_block i t1 = hs i" if "i < n" for i using t1(4) that n hs by (simp add: home_block_def dec_head_block)
  have l1: "log_block i t1 = log_block i t" for i using t1(4) by (simp add: log_block_def)
  have "\<exists>t2. fold_res (install_one True) [0..<n] t1 = Ok t2 \<and> cache_inv dev ({} - (\<lambda>i. home_block i t1) ` {..<n}) nv {} t2 \<and>
      the_log t2 = the_log t1 \<and> wrote (map (\<lambda>i. (home_block i t1, disk t1 (log_block i t1))) [0..<n]) t1 t2"
    by (rule install_steps [OF t1(2), where n = n and k = n]) (use ne(1) h1 l1 dev t1(4) in simp_all)
  moreover have "map (\<lambda>i. (home_block i t1, disk t1 (log_block i t1))) [0..<n] = map (\<lambda>i. (hs i, disk t (log_block i t))) [0..<n]"
    using t1(3) h1 l1 by (simp add: wrote_def)
  ultimately obtain t2 where t2: "install_trans True t1 = Ok t2" "cache_inv dev {} nv {} t2" "the_log t2 = ?l"
    "wrote (map (\<lambda>i. (hs i, disk t (log_block i t))) [0..<n]) t1 t2"
    unfolding install_trans_def len t1(4) by auto
  have "st \<notin> fst ` set (map (\<lambda>i. (hs i, disk t (log_block i t))) [0..<n])" using ne(2) by fastforce
  then have d2: "disk t2 st = disk t st" using t2(4) t1(3) by (simp add: wrote_def replay_other)
  have st2: "log_start (the_log t2) = st" "dev = log_dev (the_log t2)" using t2(3) st dev by simp_all
  obtain t3 where "write_head (upd_lh (\<lambda>h. h\<lparr>lh_n := 0\<rparr>) t2) = Ok t3" "wrote [(st, put32 (disk t st) 0 0)] t2 t3"
    using clear_head_step [OF t2(2) st2(2)] unfolding st2(1) d2 by auto
  then show ?thesis using t1(1,3) t2(1,4) by (intro exI [of _ t3]) (simp add: recover_from_log_def wrote_def)
qed

text \<open>The machine after a crash: the disk is \<open>d\<close>, the buffer cache is empty.\<close>

definition rebooted :: "(u32 \<Rightarrow> block) \<Rightarrow> 'a log_state_scheme \<Rightarrow> 'a log_state_scheme \<Rightarrow> bool" where
  "rebooted d s t \<longleftrightarrow> disk t = d \<and> cache_inv (log_dev (the_log s)) {} (\<lambda>_ _. 0) {} t \<and>
     log_dev (the_log t) = log_dev (the_log s) \<and> log_start (the_log t) = log_start (the_log s)"

lemma rebootedD:
  assumes "rebooted d s t"
  shows "disk t = d" "cache_inv (log_dev (the_log s)) {} (\<lambda>_ _. 0) {} t" "log_dev (the_log t) = log_dev (the_log s)"
    "log_start (the_log t) = log_start (the_log s)" "log_block i t = log_block i s"
  using assms by (simp_all add: rebooted_def log_block_def)

text \<open>Recovery when the header on the disk is clear, and when it is that of the transaction.\<close>

lemma recover_clear:
  assumes t: "rebooted d s t" and z: "get32 (d (log_start (the_log s))) 0 = 0"
  shows "\<exists>t'. recover_from_log t = Ok t' \<and>
    disk t' = d(log_start (the_log s) := put32 (d (log_start (the_log s))) 0 0)"
  using recover_steps [OF rebootedD(2) [OF t] rebootedD(3) [OF t, symmetric] refl refl refl] z
  by (simp add: rebootedD [OF t])

lemma recover_committed:
  assumes ready: "log_ready P nv s" and t: "rebooted d s t" and st: "st = log_start (the_log s)"
    and e: "d st = enc_head (log_lh (the_log s)) e0"
    and l: "\<forall>i<lh_len s. d (log_block i s) = nv (home_block i s)"
  shows "\<exists>t'. recover_from_log t = Ok t' \<and>
    disk t' = (replay (map (\<lambda>i. (home_block i s, nv (home_block i s))) [0..<lh_len s]) d)(st := put32 (d st) 0 0)"
proof -
  note R = log_readyD [OF ready] and T = rebootedD [OF t]
  let ?hs = "\<lambda>i. get32 (disk t st) (4 + 4 * i)"
  have n: "lh_len s = nat (sint (get32 (disk t st) 0))" unfolding T(1) e by (simp add: lh_len_def)
  have hs: "?hs i = home_block i s" if "i < lh_len s" for i
    using that unfolding T(1) e by (simp add: lh_len_def enc_head_block home_block_def)
  have ne: "?hs i \<noteq> log_block j t" if "i < lh_len s" "j < lh_len s" for i j
    unfolding hs [OF that(1)] T(5) using R(9) [OF that(2)] R(10) [OF that(1)] by metis
  have ne': "?hs i \<noteq> st" if "i < lh_len s" for i
    unfolding hs [OF that] using R(8) R(10) [OF that] st by metis
  have eq: "map (\<lambda>i. (?hs i, disk t (log_block i t))) [0..<lh_len s] = map (\<lambda>i. (home_block i s, nv (home_block i s))) [0..<lh_len s]"
    using hs l by (simp add: T)
  have "\<exists>t'. recover_from_log t = Ok t' \<and>
      disk t' = (replay (map (\<lambda>i. (?hs i, disk t (log_block i t))) [0..<lh_len s]) (disk t))(st := put32 (disk t st) 0 0)"
    by (rule recover_steps [OF T(2) T(3) [symmetric] _ n refl]) (use ne ne' st T(4) in auto)
  from this [unfolded eq, unfolded T(1)] show ?thesis .
qed

section \<open>A crash during a commit\<close>

definition home_writes :: "(u32 \<Rightarrow> block) \<Rightarrow> 'a log_state_scheme \<Rightarrow> (u32 \<times> block) list" where
  "home_writes nv s = map (\<lambda>i. (home_block i s, nv (home_block i s))) [0..<lh_len s]"

definition log_writes :: "(u32 \<Rightarrow> block) \<Rightarrow> 'a log_state_scheme \<Rightarrow> (u32 \<times> block) list" where
  "log_writes nv s = map (\<lambda>i. (log_block i s, nv (home_block i s))) [0..<lh_len s]"

lemma commit_writes_eq:
  "commit_writes nv s = log_writes nv s @ (log_start (the_log s), enc_head (log_lh (the_log s)) (disk s (log_start (the_log s)))) #
     home_writes nv s @ [(log_start (the_log s), put32 (enc_head (log_lh (the_log s)) (disk s (log_start (the_log s)))) 0 0)]"
  by (simp add: commit_writes_def home_writes_def log_writes_def Let_def)

lemma fst_writes:
  assumes "log_ready P nv s"
  shows "fst ` set (home_writes nv s) = P" "insert (log_start (the_log s)) (fst ` set (log_writes nv s)) = log_area (lh_len s) s"
    "length (home_writes nv s) = lh_len s" "length (log_writes nv s) = lh_len s"
  unfolding home_writes_def log_writes_def fst_map_pair log_area_def using log_readyD(2) [OF assms] by simp_all

lemma replay_home:
  assumes "log_ready P nv s"
  shows "replay (home_writes nv s) d x = (if x \<in> P then nv x else d x)"
proof (cases "x \<in> P")
  case True
  have "distinct (map fst (home_writes nv s))"
    using log_readyD(3) [OF assms] by (simp add: home_writes_def distinct_map comp_def atLeast0LessThan)
  moreover have "(x, nv x) \<in> set (home_writes nv s)" using True log_readyD(2) [OF assms] by (auto simp: home_writes_def)
  ultimately show ?thesis using replay_in True by simp
next
  case False
  then show ?thesis using replay_other fst_writes(1) [OF assms] by metis
qed

lemma replay_log:
  assumes "log_ready P nv s" and "i < lh_len s"
  shows "replay (log_writes nv s) d (log_block i s) = nv (home_block i s)"
proof (rule replay_in)
  show "distinct (map fst (log_writes nv s))"
    using log_readyD(5) [OF assms(1)] log_block_inj [of _ _ s] by (auto simp: log_writes_def distinct_map inj_on_def)
  show "(log_block i s, nv (home_block i s)) \<in> set (log_writes nv s)" using assms(2) by (auto simp: log_writes_def)
qed

lemma recover_after_crash:
  fixes s :: "'a log_state_scheme"
  assumes ready: "log_ready P nv s" and clean: "get32 (disk s (log_start (the_log s))) 0 = 0"
    and t: "rebooted (replay (take k (commit_writes nv s)) (disk s)) s t"
  shows "\<exists>t'. recover_from_log t = Ok t' \<and> get32 (disk t' (log_start (the_log s))) 0 = 0 \<and>
    (\<forall>x. x \<notin> log_area (lh_len s) s \<longrightarrow> disk t' x = (if k \<le> lh_len s then disk s x else blk P nv (disk s) x))"
proof -
  note R = log_readyD [OF ready] and F = fst_writes [OF ready]
  let ?st = "log_start (the_log s)" and ?n = "lh_len s" and ?A = "log_area (lh_len s) s"
  let ?e = "enc_head (log_lh (the_log s)) (disk s ?st)" and ?W1 = "log_writes nv s" and ?W3 = "home_writes nv s"
  have st: "?st \<notin> fst ` set ?W1"
    unfolding log_writes_def fst_map_pair by (rule start_not_in_log) (use R(5) in simp)
  have stP: "?st \<notin> P" "\<And>i. i < ?n \<Longrightarrow> log_block i s \<notin> P" using R(8,9) by auto
  consider (log) "k \<le> ?n" | (home) j where "k = Suc (?n + j)" "j \<le> ?n" | (all) "k > Suc (?n + ?n)"
  proof (cases "k \<le> ?n")
    case False
    then have k: "k = Suc (?n + (k - Suc ?n))" by simp
    show ?thesis by (cases "k \<le> Suc (?n + ?n)") (use home [OF k] all in simp_all)
  qed (rule log)
  then show ?thesis
  proof cases
    case log
    let ?d = "replay (take k ?W1) (disk s)"
    have tk: "take k (commit_writes nv s) = take k ?W1" unfolding commit_writes_eq using log F(4) by simp
    have sub: "fst ` set (take k ?W1) \<subseteq> fst ` set ?W1" using set_take_subset by (metis image_mono)
    have d: "?d ?st = disk s ?st" "\<And>x. x \<notin> ?A \<Longrightarrow> ?d x = disk s x"
      using sub st F(2) by (auto intro!: replay_other)
    obtain t' where "recover_from_log t = Ok t'" "disk t' = ?d(?st := put32 (?d ?st) 0 0)"
      using recover_clear [OF t [unfolded tk]] clean d(1) by auto
    then show ?thesis using d log F(2) by (intro exI [of _ t']) auto
  next
    case (home j)
    let ?d = "replay (take j ?W3) ((replay ?W1 (disk s))(?st := ?e))"
    have tk: "replay (take k (commit_writes nv s)) (disk s) = ?d" unfolding commit_writes_eq using home F(3,4) by simp
    have "fst ` set (take j ?W3) \<subseteq> fst ` set ?W3" using set_take_subset by (metis image_mono)
    then have sub: "fst ` set (take j ?W3) \<subseteq> P" unfolding F(1) .
    have dst: "?d ?st = ?e" using sub stP(1) by (subst replay_other) auto
    have dl: "\<forall>i<?n. ?d (log_block i s) = nv (home_block i s)"
    proof (intro allI impI)
      fix i
      assume i: "i < ?n"
      have "log_block i s \<noteq> ?st" using log_block_ne [of i s] i R(5) by simp
      then show "?d (log_block i s) = nv (home_block i s)"
        using sub stP(2) [OF i] replay_log [OF ready i] by (subst replay_other) auto
    qed
    from recover_committed [OF ready t [unfolded tk] refl dst dl, folded home_writes_def, unfolded dst]
    obtain t' where t': "recover_from_log t = Ok t'" "disk t' = (replay ?W3 ?d)(?st := put32 ?e 0 0)" by blast
    have "?d x = disk s x" if "x \<notin> ?A" "x \<notin> P" for x
    proof -
      have "x \<notin> fst ` set (take j ?W3)" "x \<noteq> ?st" "x \<notin> fst ` set ?W1" using sub that F(2) by auto
      then show ?thesis using replay_other by simp
    qed
    then have "disk t' x = blk P nv (disk s) x" if "x \<notin> ?A" for x
      using t'(2) that F(2) replay_home [OF ready] by (auto simp: blk_def)
    then show ?thesis using t' home by (intro exI [of _ t']) simp
  next
    case all
    let ?d = "(replay ?W3 ((replay ?W1 (disk s))(?st := ?e)))(?st := put32 ?e 0 0)"
    have tk: "replay (take k (commit_writes nv s)) (disk s) = ?d" unfolding commit_writes_eq using all F(3,4) by simp
    obtain t' where t': "recover_from_log t = Ok t'" "disk t' = ?d(?st := put32 (?d ?st) 0 0)"
      using recover_clear [OF t [unfolded tk]] by auto
    have "disk t' x = blk P nv (disk s) x" if "x \<notin> ?A" for x
    proof -
      have "x \<noteq> ?st" "x \<notin> fst ` set ?W1" using that F(2) by auto
      then show ?thesis using t'(2) replay_home [OF ready] replay_other by (auto simp: blk_def)
    qed
    then show ?thesis using t' all by (intro exI [of _ t']) simp
  qed
qed

section \<open>Transactions\<close>

text \<open>
  The use of \<^verbatim>\<open>log_write\<close> that its comment describes: read a block, modify it, log it and
  release it.
\<close>

definition log_use :: "u32 \<Rightarrow> u32 \<Rightarrow> (block \<Rightarrow> block) \<Rightarrow> 'a log_state_scheme \<Rightarrow> 'a log_state_scheme res" where
  "log_use dev n f s =
     bnd (bread dev n s) (\<lambda>(b, s).
     bnd (log_write b (upd_buf b (\<lambda>x. x\<lparr>b_data := f (b_data x)\<rparr>) s)) (brelse b))"

text \<open>A transaction under way: the header lists the pinned blocks.\<close>

definition log_inv :: "u32 set \<Rightarrow> (u32 \<Rightarrow> block) \<Rightarrow> 'a log_state_scheme \<Rightarrow> bool" where
  "log_inv P nv s \<longleftrightarrow> cache_inv (log_dev (the_log s)) P nv {} s \<and> P = (\<lambda>i. home_block i s) ` {..<lh_len s} \<and>
     inj_on (\<lambda>i. home_block i s) {..<lh_len s} \<and> lh_len s < NBUF \<and> 0 \<le> sint (lh_n (log_lh (the_log s)))"

lemma log_invD:
  assumes "log_inv P nv s"
  shows "cache_inv (log_dev (the_log s)) P nv {} s" "P = (\<lambda>i. home_block i s) ` {..<lh_len s}"
    "inj_on (\<lambda>i. home_block i s) {..<lh_len s}" "lh_len s < NBUF" "0 \<le> sint (lh_n (log_lh (the_log s)))"
    "finite P" "card P = lh_len s" "sint (lh_n (log_lh (the_log s))) = int (lh_len s)"
    "lh_n (log_lh (the_log s)) = of_nat (lh_len s)"
proof -
  show d: "cache_inv (log_dev (the_log s)) P nv {} s" "P = (\<lambda>i. home_block i s) ` {..<lh_len s}"
    "inj_on (\<lambda>i. home_block i s) {..<lh_len s}" "lh_len s < NBUF" "0 \<le> sint (lh_n (log_lh (the_log s)))"
    using assms unfolding log_inv_def by blast+
  show "finite P" using d(2) by simp
  show "card P = lh_len s" using d(2) card_image [OF d(3)] by simp
  show "sint (lh_n (log_lh (the_log s))) = int (lh_len s)" using d(5) by (simp add: lh_len_def)
  show "lh_n (log_lh (the_log s)) = of_nat (lh_len s)" using d(5) by (simp add: lh_len_def)
qed

lemma log_slot_absorb:
  assumes "log_inv P nv s" and "n \<in> P"
  shows "\<exists>i<lh_len s. log_slot n s = i \<and> lh_block (log_lh (the_log s)) i = n"
proof -
  have "\<exists>i<lh_len s. lh_block (log_lh (the_log s)) i = n"
    using assms(2) log_invD(2) [OF assms(1)] by (auto simp: home_block_def)
  then obtain i where fs: "first_slot (\<lambda>i. lh_block (log_lh (the_log s)) i = n) (lh_len s) = Some i"
    by (cases "first_slot (\<lambda>i. lh_block (log_lh (the_log s)) i = n) (lh_len s)") (auto simp: first_slot_None)
  then have "log_slot n s = i" by (simp add: log_slot_def)
  then show ?thesis using fs [unfolded first_slot_Some] by blast
qed

lemma log_slot_new:
  assumes "log_inv P nv s" and "n \<notin> P"
  shows "log_slot n s = lh_len s"
proof -
  have "first_slot (\<lambda>i. lh_block (log_lh (the_log s)) i = n) (lh_len s) = None"
    using assms(2) log_invD(2) [OF assms(1)] by (auto simp: home_block_def first_slot_None)
  then show ?thesis by (simp add: log_slot_def)
qed

lemma upd_lh_frame [simp]:
  fixes s :: "'a log_state_scheme"
  shows "bufs (upd_lh f s) = bufs s" "disk (upd_lh f s) = disk s" "dwrites (upd_lh f s) = dwrites s"
    "the_log (upd_lh f s) = (the_log s)\<lparr>log_lh := f (log_lh (the_log s))\<rparr>"
    "cache_inv dev P nv H (upd_lh f s) = cache_inv dev P nv H s"
  by (simp_all add: upd_lh_def upd_log_def)

lemma bpin_frame [simp]:
  fixes s :: "'a log_state_scheme"
  shows "disk (bpin b s) = disk s" "dwrites (bpin b s) = dwrites s" "the_log (bpin b s) = the_log s"
    "b_data (bufs (bpin b s) c) = b_data (bufs s c)" "b_blockno (bufs (bpin b s) c) = b_blockno (bufs s c)"
  by (simp_all add: bpin_def)

lemma log_write_step:
  fixes s s0 :: "'a log_state_scheme"
  assumes held: "cache_inv (log_dev (the_log s)) P nv {b} s" and n: "n = b_blockno (bufs s b)"
    and s0: "log_inv P nv s0" "the_log s = the_log s0"
    and room: "n \<in> P \<or> lh_len s0 + 1 < NBUF" "int (lh_len s0) < sint (log_size (the_log s)) - 1"
    and op: "1 \<le> sint (log_outstanding (the_log s))"
  shows "\<exists>s' h. log_write b s = Ok s' \<and> cache_inv (log_dev (the_log s)) (insert n P) (nv(n := d)) {b} s' \<and>
    the_log s' = (the_log s)\<lparr>log_lh := h\<rparr> \<and> wrote [] s s' \<and> b_data (bufs s' b) = b_data (bufs s b) \<and> b_blockno (bufs s' b) = n \<and>
    (if n \<in> P then h = log_lh (the_log s)
     else h = (log_lh (the_log s))\<lparr>lh_n := lh_n (log_lh (the_log s)) + 1, lh_block := (lh_block (log_lh (the_log s)))(lh_len s0 := n)\<rparr>)"
proof -
  note D = log_invD [OF s0(1)] and eq = s0(2)
  have "lh_len s = lh_len s0" by (rule log_block_cong(3) [OF eq])
  then have slot: "log_slot n s = log_slot n s0" unfolding log_slot_def eq by presburger
  have guard: "log_write b s = (let s' = upd_lh (\<lambda>h. h\<lparr>lh_block := (lh_block h)(log_slot n s0 := n)\<rparr>) s
      in Ok (if of_nat (log_slot n s0) = lh_n (log_lh (the_log s)) then upd_lh (\<lambda>h. h\<lparr>lh_n := lh_n h + 1\<rparr>) (bpin b s') else s'))"
    using D(4,8) room(2) op n unfolding log_write_def slot [symmetric] eq by (simp add: Let_def)
  show ?thesis
  proof (cases "n \<in> P")
    case True
    obtain i where i: "i < lh_len s0" "log_slot n s0 = i" "lh_block (log_lh (the_log s)) i = n"
      using log_slot_absorb [OF s0(1) True] eq by auto
    have "unat (of_nat i :: u32) = i" "unat (of_nat (lh_len s0) :: u32) = lh_len s0"
      using i(1) D(4) by (simp_all add: unsigned_of_nat take_bit_nat_eq_self)
    then have "of_nat i \<noteq> lh_n (log_lh (the_log s))" using D(9) i(1) eq by (metis less_irrefl)
    moreover have "upd_lh (\<lambda>h. h\<lparr>lh_block := (lh_block h)(i := n)\<rparr>) s = s"
      using i(3) by (simp add: upd_lh_def upd_log_def fun_upd_idem)
    ultimately have "log_write b s = Ok s" using guard i(2) by simp
    then show ?thesis
      using repin_inv [OF held _ n] True n by (intro exI [of _ s] exI [of _ "log_lh (the_log s)"]) (simp add: wrote_def insert_absorb)
  next
    case False
    let ?s = "upd_lh (\<lambda>h. h\<lparr>lh_block := (lh_block h)(lh_len s0 := n)\<rparr>) s"
    let ?s' = "upd_lh (\<lambda>h. h\<lparr>lh_n := lh_n h + 1\<rparr>) (bpin b ?s)"
    have "log_write b s = Ok ?s'" using guard log_slot_new [OF s0(1) False] D(9) eq by simp
    moreover have "cache_inv (log_dev (the_log s)) (insert n P) (nv(n := d)) {b} ?s'"
      using bpin_inv [of "log_dev (the_log s)" P nv "{b}" ?s b n d] held n False by simp
    ultimately show ?thesis
      using False n by (intro exI [of _ ?s'] exI [of _ "log_lh (the_log ?s')"]) (simp add: wrote_def)
  qed
qed

lemma sint_of_nat_small: "n < 2147483648 \<Longrightarrow> sint (of_nat n :: i32) = int n"
  by (simp add: signed_of_nat signed_take_bit_int_eq_self)

lemma log_use_step:
  fixes s :: "'a log_state_scheme"
  assumes inv: "log_inv P nv s" and dev: "dev = log_dev (the_log s)"
    and room: "n \<in> P \<or> lh_len s + 1 < NBUF" "int (lh_len s) < sint (log_size (the_log s)) - 1"
    and op: "1 \<le> sint (log_outstanding (the_log s))"
  shows "\<exists>s' h. log_use dev n f s = Ok s' \<and> log_inv (insert n P) (nv(n := f (blk P nv (disk s) n))) s' \<and> wrote [] s s' \<and>
    the_log s' = (the_log s)\<lparr>log_lh := h\<rparr>"
proof -
  note D = log_invD [OF inv]
  let ?d = "f (blk P nv (disk s) n)"
  have pre: "\<forall>c\<in>{}. b_blockno (bufs s c) \<noteq> n" by simp
  have free: "n \<in> P \<or> card P + card ({} :: nat set) < NBUF" using D(4,7) by simp
  obtain b s1 where r1: "bread dev n s = Ok (b, s1)" "b \<notin> {}" "b_blockno (bufs s1 b) = n" "b_data (bufs s1 b) = blk P nv (disk s) n"
    "cache_inv dev P nv {b} s1" "disk s1 = disk s" "dwrites s1 = dwrites s" "the_log s1 = the_log s"
    "\<forall>c. c \<noteq> b \<longrightarrow> bufs s1 c = bufs s c"
    by (rule breadE [OF D(1) [folded dev] pre D(6) free]) (rule that)
  let ?s2 = "upd_buf b (\<lambda>x. x\<lparr>b_data := f (b_data x)\<rparr>) s1"
  have "?s2 = upd_buf b (\<lambda>x. x\<lparr>b_data := ?d\<rparr>) s1" using r1(4) by (simp add: upd_buf_def)
  then have i2: "cache_inv dev P nv {b} ?s2" "b_data (bufs ?s2 b) = ?d" "b_blockno (bufs ?s2 b) = n"
    using cache_inv_data [OF r1(5)] r1(3,4) by simp_all
  have l2: "the_log ?s2 = the_log s" using r1(8) by simp
  have "\<exists>s3 h. log_write b ?s2 = Ok s3 \<and> cache_inv (log_dev (the_log ?s2)) (insert n P) (nv(n := ?d)) {b} s3 \<and>
      the_log s3 = (the_log ?s2)\<lparr>log_lh := h\<rparr> \<and> wrote [] ?s2 s3 \<and> b_data (bufs s3 b) = b_data (bufs ?s2 b) \<and> b_blockno (bufs s3 b) = n \<and>
      (if n \<in> P then h = log_lh (the_log ?s2)
       else h = (log_lh (the_log ?s2))\<lparr>lh_n := lh_n (log_lh (the_log ?s2)) + 1, lh_block := (lh_block (log_lh (the_log ?s2)))(lh_len s := n)\<rparr>)"
    by (rule log_write_step [OF _ _ inv l2]) (use i2(1,3) dev room op l2 in simp_all)
  then obtain s3 h where s3: "log_write b ?s2 = Ok s3" "cache_inv dev (insert n P) (nv(n := ?d)) {b} s3"
    "the_log s3 = (the_log s)\<lparr>log_lh := h\<rparr>" "wrote [] ?s2 s3" "b_data (bufs s3 b) = ?d" "b_blockno (bufs s3 b) = n"
    "if n \<in> P then h = log_lh (the_log s)
     else h = (log_lh (the_log s))\<lparr>lh_n := lh_n (log_lh (the_log s)) + 1, lh_block := (lh_block (log_lh (the_log s)))(lh_len s := n)\<rparr>"
    unfolding l2 i2(2) dev by blast
  have "b_data (bufs s3 b) = blk (insert n P) (nv(n := ?d)) (disk s3) (b_blockno (bufs s3 b))"
    using s3(5,6) by (simp add: blk_def)
  from brelseE [OF s3(2) _ this] obtain s4 where s4: "brelse b s3 = Ok s4" "cache_inv dev (insert n P) (nv(n := ?d)) ({b} - {b}) s4"
    "disk s4 = disk s3" "dwrites s4 = dwrites s3" "the_log s4 = the_log s3" by blast
  have l4: "the_log s4 = (the_log s)\<lparr>log_lh := h\<rparr>" using s4(5) s3(3) by simp
  have "log_inv (insert n P) (nv(n := ?d)) s4"
  proof (cases "n \<in> P")
    case True
    then have l: "the_log s4 = the_log s" using s3(7) l4 by simp
    show ?thesis
      using D(2-5) True s4(2) dev unfolding log_inv_def l log_block_cong [OF l] by (simp add: insert_absorb)
  next
    case False
    have h: "lh_n h = of_nat (Suc (lh_len s))" "lh_block h = (lh_block (log_lh (the_log s)))(lh_len s := n)"
      using False s3(7) D(9) by simp_all
    have "lh_len s + 1 < NBUF" using room(1) False by simp
    then have "sint (lh_n h) = int (Suc (lh_len s))" unfolding h(1) by (intro sint_of_nat_small) simp
    moreover have "lh_len s4 = nat (sint (lh_n h))" "lh_n (log_lh (the_log s4)) = lh_n h" using l4 by (simp_all add: lh_len_def)
    ultimately have len: "lh_len s4 = Suc (lh_len s)" "0 \<le> sint (lh_n (log_lh (the_log s4)))" by simp_all
    have hb: "home_block i s4 = (if i = lh_len s then n else home_block i s)" for i using l4 h(2) by (simp add: home_block_def)
    have img: "(\<lambda>i. home_block i s4) ` {..<Suc (lh_len s)} = insert n P"
      unfolding D(2) by (auto simp: hb lessThan_Suc)
    have "inj_on (\<lambda>i. home_block i s4) {..<Suc (lh_len s)}"
      using card_image_le [of "{..<Suc (lh_len s)}"] img False D(6,7) by (intro eq_card_imp_inj_on) simp_all
    then show ?thesis using len img s4(2) l4 dev \<open>lh_len s + 1 < NBUF\<close> by (simp add: log_inv_def)
  qed
  moreover have "wrote [] s s4" using s3(4) s4(3,4) r1(6,7) by (simp add: wrote_def)
  moreover have "log_use dev n f s = Ok s4" using r1(1) s3(1) s4(1) by (simp add: log_use_def)
  ultimately show ?thesis using l4 by blast
qed

definition apply_updates :: "(u32 \<times> (block \<Rightarrow> block)) list \<Rightarrow> (u32 \<Rightarrow> block) \<Rightarrow> u32 \<Rightarrow> block" where
  "apply_updates us = fold (\<lambda>(n, f) D. D(n := f (D n))) us"

lemma blk_insert: "blk (insert n P) (nv(n := v)) D = (blk P nv D)(n := v)"
  by (auto simp: blk_def)

lemma blk_empty: "blk {} nv D = D"
  by (auto simp: blk_def)

lemma log_uses_steps:
  fixes s :: "'a log_state_scheme"
  assumes "log_inv P nv s" and "dev = log_dev (the_log s)" and "Q = P \<union> fst ` set us" and "card Q < NBUF"
    and "int (card Q) < sint (log_size (the_log s)) - 1" and "1 \<le> sint (log_outstanding (the_log s))"
  shows "\<exists>s' nv' h. fold_res (\<lambda>(n, f). log_use dev n f) us s = Ok s' \<and> log_inv Q nv' s' \<and> wrote [] s s' \<and>
    the_log s' = (the_log s)\<lparr>log_lh := h\<rparr> \<and> blk Q nv' (disk s) = apply_updates us (blk P nv (disk s))"
  using assms
proof (induction us arbitrary: P nv s)
  case Nil
  then show ?case
    by (intro exI [of _ s] exI [of _ nv] exI [of _ "log_lh (the_log s)"]) (simp add: wrote_def apply_updates_def)
next
  case (Cons u us)
  obtain n f where u: "u = (n, f)" by (cases u)
  note D = log_invD [OF Cons.prems(1)]
  have fin: "finite Q" using Cons.prems(3) D(6) by simp
  have le: "card P \<le> card Q" using Cons.prems(3) card_mono [OF fin] by blast
  have new: "card P < card Q" if "n \<notin> P" using psubset_card_mono [OF fin, of P] Cons.prems(3) u that by auto
  have room: "n \<in> P \<or> lh_len s + 1 < NBUF"
  proof (cases "n \<in> P")
    case False
    then show ?thesis using new [OF False] D(7) Cons.prems(4) by simp
  qed simp
  have "\<exists>s1 h1. log_use dev n f s = Ok s1 \<and> log_inv (insert n P) (nv(n := f (blk P nv (disk s) n))) s1 \<and> wrote [] s s1 \<and>
      the_log s1 = (the_log s)\<lparr>log_lh := h1\<rparr>"
    by (rule log_use_step [OF Cons.prems(1,2) room]) (use D(7) le Cons.prems(5,6) in auto)
  then obtain s1 h1 where s1: "log_use dev n f s = Ok s1" "log_inv (insert n P) (nv(n := f (blk P nv (disk s) n))) s1" "wrote [] s s1"
    "the_log s1 = (the_log s)\<lparr>log_lh := h1\<rparr>" by blast
  have "\<exists>s2 nv' h. fold_res (\<lambda>(n, f). log_use dev n f) us s1 = Ok s2 \<and> log_inv Q nv' s2 \<and> wrote [] s1 s2 \<and>
      the_log s2 = (the_log s1)\<lparr>log_lh := h\<rparr> \<and>
      blk Q nv' (disk s1) = apply_updates us (blk (insert n P) (nv(n := f (blk P nv (disk s) n))) (disk s1))"
    by (rule Cons.IH [OF s1(2)]) (use Cons.prems s1(4) u in auto)
  then obtain s2 nv' h where s2: "fold_res (\<lambda>(n, f). log_use dev n f) us s1 = Ok s2" "log_inv Q nv' s2" "wrote [] s1 s2"
    "the_log s2 = (the_log s1)\<lparr>log_lh := h\<rparr>"
    "blk Q nv' (disk s1) = apply_updates us (blk (insert n P) (nv(n := f (blk P nv (disk s) n))) (disk s1))" by blast
  have "disk s1 = disk s" using s1(3) by (simp add: wrote_def)
  then have "blk Q nv' (disk s) = apply_updates (u # us) (blk P nv (disk s))"
    using s2(5) u by (simp add: blk_insert apply_updates_def)
  moreover have "the_log s2 = (the_log s)\<lparr>log_lh := h\<rparr>" using s2(4) s1(4) by simp
  ultimately show ?case
    using s1(1,3) s2(1-3) u wrote_trans [OF s1(3) s2(3)] by (intro exI [of _ s2] exI [of _ nv'] exI [of _ h]) simp
qed

definition transaction :: "u32 \<Rightarrow> (u32 \<times> (block \<Rightarrow> block)) list \<Rightarrow> 'a log_state_scheme \<Rightarrow> 'a log_state_scheme res" where
  "transaction dev us s =
     bnd (begin_op s) (\<lambda>s. bnd (fold_res (\<lambda>(n, f). log_use dev n f) us s) end_op)"

lemma upd_log_frame [simp]:
  fixes s :: "'a log_state_scheme"
  shows "bufs (upd_log f s) = bufs s" "disk (upd_log f s) = disk s" "dwrites (upd_log f s) = dwrites s"
    "the_log (upd_log f s) = f (the_log s)" "cache_inv dev P nv H (upd_log f s) = cache_inv dev P nv H s"
  by (simp_all add: upd_log_def)

lemma log_inv_cong:
  fixes s s' :: "'a log_state_scheme"
  assumes "log_dev (the_log s') = log_dev (the_log s)" "log_lh (the_log s') = log_lh (the_log s)"
    "cache_inv (log_dev (the_log s)) P nv {} s' = cache_inv (log_dev (the_log s)) P nv {} s"
  shows "log_inv P nv s' = log_inv P nv s"
  using assms by (simp add: log_inv_def home_block_def lh_len_def)

lemma the_log_wakeup [simp]:
  fixes s :: "'a log_state_scheme"
  shows "the_log (wakeup c s) = the_log s"
  by (rule more_the_log) simp

text \<open>The state in which a transaction starts.\<close>

definition log_idle :: "'a log_state_scheme \<Rightarrow> bool" where
  "log_idle s \<longleftrightarrow> (\<exists>nv. cache_inv (log_dev (the_log s)) {} nv {} s) \<and> lh_n (log_lh (the_log s)) = 0 \<and>
     log_outstanding (the_log s) = 0 \<and> log_committing (the_log s) = 0 \<and> get32 (disk s (log_start (the_log s))) 0 = 0"

lemma end_op_commits:
  fixes s :: "'a log_state_scheme"
  assumes inv: "log_inv P nv s" "P \<noteq> {}" "P \<inter> log_area NBUF s = {}"
    and one: "log_outstanding (the_log s) = 1" "log_committing (the_log s) = 0"
    and clean: "get32 (disk s (log_start (the_log s))) 0 = 0"
  shows "\<exists>s'. end_op s = Ok s' \<and> log_idle s' \<and> wrote (commit_writes nv s) s s' \<and>
    log_dev (the_log s') = log_dev (the_log s) \<and> log_start (the_log s') = log_start (the_log s) \<and>
    (\<forall>x. x \<notin> log_area NBUF s \<longrightarrow> disk s' x = blk P nv (disk s) x)"
    and "log_ready P nv s"
proof -
  note D = log_invD [OF inv(1)]
  have sub: "log_area (lh_len s) s \<subseteq> log_area NBUF s" using D(4) by (auto simp: log_area_def)
  have "0 < lh_len s" using inv(2) D(2) by (cases "lh_len s") auto
  then show ready: "log_ready P nv s"
    unfolding log_ready_def using D(1-4) sub inv(3) by blast
  let ?s1 = "upd_log (\<lambda>l. l\<lparr>log_committing := 1\<rparr>) (upd_log (\<lambda>l. l\<lparr>log_outstanding := log_outstanding l - 1\<rparr>) s)"
  have c: "log_block i ?s1 = log_block i s" "home_block i ?s1 = home_block i s" "lh_len ?s1 = lh_len s" for i
    by (simp_all add: log_block_def home_block_def lh_len_def)
  have a: "log_area n ?s1 = log_area n s" for n by (simp add: log_area_def c)
  have i: "cache_inv (log_dev (the_log ?s1)) P nv {} ?s1" using log_readyD(1) [OF ready] by simp
  have "log_ready P nv ?s1" using i ready [unfolded log_ready_def] unfolding log_ready_def c a by blast
  from commit_steps [OF this] obtain s2 where s2: "commit ?s1 = Ok s2" "cache_inv (log_dev (the_log s)) {} nv {} s2"
    "wrote (commit_writes nv ?s1) ?s1 s2" "the_log s2 = (the_log ?s1)\<lparr>log_lh := (log_lh (the_log s))\<lparr>lh_n := 0\<rparr>\<rparr>" by auto
  have w: "wrote (commit_writes nv s) s s2" using s2(3) by (simp add: commit_writes_def c wrote_def Let_def)
  let ?s3 = "wakeup Log_chan (upd_log (\<lambda>l. l\<lparr>log_committing := 0\<rparr>) s2)"
  have e: "end_op s = Ok ?s3" using one s2(1) by (simp add: end_op_def Let_def)
  have st: "log_start (the_log s) \<notin> log_area NBUF s \<Longrightarrow> False" by (simp add: log_area_def)
  have d: "disk s2 = replay (commit_writes nv s) (disk s)" using w by (simp add: wrote_def)
  have z: "get32 (disk s2 (log_start (the_log s))) 0 = 0" unfolding d commit_writes_eq by simp
  have "disk s2 x = blk P nv (disk s) x" if x: "x \<notin> log_area NBUF s" for x
  proof -
    have "x \<notin> log_area (lh_len s) s" using x sub by blast
    then have "x \<noteq> log_start (the_log s)" "x \<notin> fst ` set (log_writes nv s)" using fst_writes(2) [OF ready] by blast+
    then show ?thesis unfolding d commit_writes_eq using replay_home [OF ready] replay_other by (simp add: blk_def)
  qed
  moreover have "log_idle ?s3" using s2(2,4) one z by (auto simp: log_idle_def)
  moreover have "wrote (commit_writes nv s) s ?s3" using w by (simp add: wrote_def)
  ultimately show "\<exists>s'. end_op s = Ok s' \<and> log_idle s' \<and> wrote (commit_writes nv s) s s' \<and>
    log_dev (the_log s') = log_dev (the_log s) \<and> log_start (the_log s') = log_start (the_log s) \<and>
    (\<forall>x. x \<notin> log_area NBUF s \<longrightarrow> disk s' x = blk P nv (disk s) x)"
    using e s2(4) by (intro exI [of _ ?s3]) simp
qed

text \<open>
  C1: A file-system transaction is atomic with respect to crashes.  \<^verbatim>\<open>begin_op\<close>, any
  sequence of logged block updates that fits in the log, and \<^verbatim>\<open>end_op\<close> return with all
  updates on the disk.  If the machine stops after any number \<open>k\<close> of the disk writes that
  this makes, the recovery at the next boot returns, and outside the log the disk is as before
  the transaction or has all its updates, and it has them all once every write was made.
\<close>

theorem transaction_crash_atomic:
  fixes s :: "'a log_state_scheme"
  assumes idle: "log_idle s" and dev: "dev = log_dev (the_log s)" and us: "us \<noteq> []" "fst ` set us \<inter> log_area NBUF s = {}"
    and room: "card (fst ` set us) < NBUF" "int (card (fst ` set us)) < sint (log_size (the_log s)) - 1"
    and new: "D = apply_updates us (disk s)"
  shows "\<exists>s' W. transaction dev us s = Ok s' \<and> log_idle s' \<and> dwrites s' = dwrites s @ W \<and>
    (\<forall>x. x \<notin> log_area NBUF s \<longrightarrow> disk s' x = D x) \<and>
    (\<forall>k t. rebooted (replay (take k W) (disk s)) s t \<longrightarrow>
       (\<exists>t' d. recover_from_log t = Ok t' \<and> d \<in> {disk s, D} \<and> (length W \<le> k \<longrightarrow> d = D) \<and>
          (\<forall>x. x \<notin> log_area NBUF s \<longrightarrow> disk t' x = d x)))"
proof -
  let ?l = "the_log s" and ?s1 = "upd_log (\<lambda>l. l\<lparr>log_outstanding := log_outstanding l + 1\<rparr>) s" and ?Q = "fst ` set us"
  obtain nv0 where i0: "cache_inv (log_dev ?l) {} nv0 {} s" "lh_n (log_lh ?l) = 0" "log_outstanding ?l = 0" "log_committing ?l = 0"
    "get32 (disk s (log_start ?l)) 0 = 0" using idle unfolding log_idle_def by blast
  have b: "begin_op s = Ok ?s1" using i0 by (simp add: begin_op_def Let_def)
  have i1: "log_inv {} nv0 ?s1" using i0 by (simp add: log_inv_def lh_len_def)
  have "\<exists>s2 nv h. fold_res (\<lambda>(n, f). log_use dev n f) us ?s1 = Ok s2 \<and> log_inv ?Q nv s2 \<and> wrote [] ?s1 s2 \<and>
      the_log s2 = (the_log ?s1)\<lparr>log_lh := h\<rparr> \<and> blk ?Q nv (disk ?s1) = apply_updates us (blk {} nv0 (disk ?s1))"
    by (rule log_uses_steps [OF i1]) (use dev room i0 in simp_all)
  then obtain s2 nv h where s2: "fold_res (\<lambda>(n, f). log_use dev n f) us ?s1 = Ok s2" "log_inv ?Q nv s2" "wrote [] s s2"
    "the_log s2 = (the_log ?s1)\<lparr>log_lh := h\<rparr>" "blk ?Q nv (disk s) = D"
    using new by (auto simp: blk_empty wrote_def)
  have d2: "disk s2 = disk s" "dwrites s2 = dwrites s" using s2(3) by (simp_all add: wrote_def)
  have l2: "log_dev (the_log s2) = log_dev ?l" "log_start (the_log s2) = log_start ?l" using s2(4) by simp_all
  have area: "log_area n s2 = log_area n s" for n using l2 by (simp add: log_area_def log_block_def)
  let ?W = "commit_writes nv s2"
  have ready: "log_ready ?Q nv s2" and "\<exists>s'. end_op s2 = Ok s' \<and> log_idle s' \<and> wrote ?W s2 s' \<and>
      log_dev (the_log s') = log_dev (the_log s2) \<and> log_start (the_log s') = log_start (the_log s2) \<and>
      (\<forall>x. x \<notin> log_area NBUF s2 \<longrightarrow> disk s' x = blk ?Q nv (disk s2) x)"
    by (rule end_op_commits [OF s2(2)]; use us s2(4) i0 area d2 in simp)+
  then obtain s' where s': "end_op s2 = Ok s'" "log_idle s'" "dwrites s' = dwrites s @ ?W" "\<forall>x. x \<notin> log_area NBUF s \<longrightarrow> disk s' x = D x"
    using d2 s2(5) area by (auto simp: wrote_def)
  have "\<exists>t' d. recover_from_log t = Ok t' \<and> d \<in> {disk s, D} \<and> (length ?W \<le> k \<longrightarrow> d = D) \<and>
      (\<forall>x. x \<notin> log_area NBUF s \<longrightarrow> disk t' x = d x)"
    if t: "rebooted (replay (take k ?W) (disk s)) s t" for k t
  proof -
    have t2: "rebooted (replay (take k ?W) (disk s2)) s2 t" using t l2 d2 by (simp add: rebooted_def)
    obtain t' where t': "recover_from_log t = Ok t'"
      "\<forall>x. x \<notin> log_area (lh_len s2) s \<longrightarrow> disk t' x = (if k \<le> lh_len s2 then disk s x else D x)"
      using recover_after_crash [OF ready _ t2] i0(5) d2 l2(2) area s2(5) by auto
    have "log_area (lh_len s2) s \<subseteq> log_area NBUF s" using log_readyD(5) [OF ready] by (auto simp: log_area_def)
    moreover have "lh_len s2 < length ?W" using fst_writes(3,4) [OF ready] by (simp add: commit_writes_eq)
    ultimately show ?thesis
      using t' by (intro exI [of _ t'] exI [of _ "if k \<le> lh_len s2 then disk s else D"]) auto
  qed
  moreover have "transaction dev us s = Ok s'" using b s2(1) s'(1) by (simp add: transaction_def)
  ultimately show ?thesis using s'(2-4) by blast
qed

definition log_boot :: "(u32 \<Rightarrow> block) \<Rightarrow> log_state" where
  "log_boot d = log_zero\<lparr>disk := d, cpus := (\<lambda>_. idle_cpu\<lparr>c_proc := Some 0\<rparr>),
     the_log := log_zero_data\<lparr>log_start := 2, log_size := 30, log_dev := 1\<rparr>\<rparr>"

lemma binit_log_boot:
  "cache_inv 1 {} nv {} (binit (log_boot d))" "the_log (binit (log_boot d)) = log_zero_data\<lparr>log_start := 2, log_size := 30, log_dev := 1\<rparr>"
  "disk (binit (log_boot d)) = d" "dwrites (binit (log_boot d)) = []"
proof -
  have "bufs (log_boot d) b = buf_zero" for b by (simp add: log_boot_def zero_simps)
  then have "buf_unused (bufs (log_boot d) b)" for b by (simp add: buf_unused_def buf_zero_def)
  moreover have "myproc (log_boot d) \<noteq> None" by (simp add: log_boot_def myproc_def mycpu_def)
  ultimately show "cache_inv 1 {} nv {} (binit (log_boot d))" by (intro cache_inv_binit) simp_all
  obtain B where "binit (log_boot d) = (log_boot d)\<lparr>bufs := B\<rparr>" using binit_frame by blast
  then show "the_log (binit (log_boot d)) = log_zero_data\<lparr>log_start := 2, log_size := 30, log_dev := 1\<rparr>"
    "disk (binit (log_boot d)) = d" "dwrites (binit (log_boot d)) = []"
    by (simp_all add: log_boot_def zero_simps)
qed

lemma outside_log_boot: "(50 :: u32) \<notin> log_area NBUF (binit (log_boot d))"
proof
  assume "(50 :: u32) \<in> log_area NBUF (binit (log_boot d))"
  then obtain i where i: "i < NBUF" "(50 :: u32) = of_nat (i + 3)"
    by (auto simp: log_area_def log_block_def binit_log_boot)
  have "unat (of_nat (i + 3) :: u32) = i + 3" using i(1) by (simp add: unsigned_of_nat take_bit_nat_eq_self del: of_nat_add)
  then have "i + 3 = 50" unfolding i(2) [symmetric] by simp
  then show False using i(1) by simp
qed

theorem transaction_crash_atomic_witness:
  "\<exists>s' W t'. transaction 1 [(50, \<lambda>_ _. 7)] (binit (log_boot (\<lambda>_ _. 0))) = Ok s' \<and> disk s' 50 0 = 7 \<and>
    recover_from_log (binit (log_boot (replay (take 3 W) (\<lambda>_ _. 0)))) = Ok t' \<and> disk t' 50 0 \<in> {0, 7} \<and> dwrites s' = W"
proof -
  let ?s = "binit (log_boot (\<lambda>_ _. 0))" and ?us = "[(50 :: u32, \<lambda>(_ :: block) (_ :: nat). 7 :: u8)]"
  note area = outside_log_boot [of "\<lambda>_ _. 0"]
  have "get32 (\<lambda>_. 0) 0 = 0" by (simp add: get32_def bytes4_def le_cons_def)
  then have idle: "log_idle ?s" unfolding log_idle_def binit_log_boot(2,3) using binit_log_boot(1) by (auto simp: log_zero_data_def)
  have pre: "1 = log_dev (the_log ?s)" "?us \<noteq> []" "fst ` set ?us \<inter> log_area NBUF ?s = {}" "card (fst ` set ?us) < NBUF"
    "int (card (fst ` set ?us)) < sint (log_size (the_log ?s)) - 1" using area by (simp_all add: binit_log_boot)
  let ?D = "apply_updates ?us (disk ?s)"
  from transaction_crash_atomic [OF idle pre refl] obtain s' W where
    s': "transaction 1 ?us ?s = Ok s'" "dwrites s' = dwrites ?s @ W" "\<forall>x. x \<notin> log_area NBUF ?s \<longrightarrow> disk s' x = ?D x"
      "\<forall>k t. rebooted (replay (take k W) (disk ?s)) ?s t \<longrightarrow> (\<exists>t' d. recover_from_log t = Ok t' \<and> d \<in> {disk ?s, ?D} \<and>
        (length W \<le> k \<longrightarrow> d = ?D) \<and> (\<forall>x. x \<notin> log_area NBUF ?s \<longrightarrow> disk t' x = d x))"
    by blast
  have "rebooted (replay (take 3 W) (disk ?s)) ?s (binit (log_boot (replay (take 3 W) (\<lambda>_ _. 0))))"
    by (simp add: rebooted_def binit_log_boot)
  then obtain t' d where t': "recover_from_log (binit (log_boot (replay (take 3 W) (\<lambda>_ _. 0)))) = Ok t'"
    "d \<in> {disk ?s, ?D}" "disk t' 50 = d 50"
    using s'(4) area by blast
  have "?D 50 0 = 7" "disk ?s 50 0 = 0" by (simp_all add: apply_updates_def binit_log_boot)
  then have "disk t' 50 0 \<in> {0, 7}" "disk s' 50 0 = 7" using t'(2,3) s'(3) area by auto
  moreover have "dwrites s' = W" using s'(2) by (simp add: binit_log_boot)
  ultimately show ?thesis using s'(1) t'(1) by blast
qed

section \<open>A full log\<close>

lemma all_buffers_pinned:
  assumes inv: "cache_inv dev P nv {} s" and P: "card P = NBUF" and b: "b < NBUF"
  shows "b_dev (bufs s b) = dev \<and> b_blockno (bufs s b) \<in> P"
proof -
  let ?Q = "{b. b < NBUF \<and> b_dev (bufs s b) = dev \<and> b_blockno (bufs s b) \<in> P}"
  have "P \<subseteq> (\<lambda>b. b_blockno (bufs s b)) ` ?Q" using cache_invD(7) [OF inv] by blast
  then have "card P \<le> card ?Q" by (rule surj_card_le [rotated]) simp
  moreover have "card ?Q \<le> card {..<NBUF}" by (rule card_mono) auto
  ultimately have "?Q = {..<NBUF}" using P by (intro card_subset_eq) auto
  then show ?thesis using b by auto
qed


definition log_full :: log_state where
  "log_full = (let s = binit (log_boot (\<lambda>_ _. 0))
     in s\<lparr>bufs := (\<lambda>b. (bufs s b)\<lparr>b_dev := 1, b_blockno := 100 + of_nat b, b_valid := 1, b_refcnt := 1, b_data := (\<lambda>_. 0)\<rparr>),
          the_log := (the_log s)\<lparr>log_size := 40, log_lh := \<lparr>lh_n = 30, lh_block = (\<lambda>i. 100 + of_nat i)\<rparr>\<rparr>\<rparr>)"


end
