(* ===== verification/Fstx.thy ===== *)
theory Fstx
  imports Logcrash Fs
begin

text \<open>
  The file system's view of the disk inside a transaction: what block \<open>n\<close> holds is \<open>V n\<close>,
  wherever it is, on the disk, in the cache or pinned by the log.  The operations of
  \<^verbatim>\<open>kernel/fs.c\<close> read and change \<open>V\<close>; buffers, pins and the log's header are below it.  The
  lemmas on \<^verbatim>\<open>bread\<close>, \<^verbatim>\<open>log_write\<close> and \<^verbatim>\<open>brelse\<close> are what the proofs about the file system
  use; \<open>balloc\<close>, \<open>bfree\<close> and \<open>iupdate\<close> are the first of them.
\<close>

section \<open>The view\<close>

definition log_hdr :: "u32 set \<Rightarrow> 'a log_state_scheme \<Rightarrow> bool" where
  "log_hdr P s \<longleftrightarrow> P = (\<lambda>i. home_block i s) ` {..<lh_len s} \<and>
     inj_on (\<lambda>i. home_block i s) {..<lh_len s} \<and> lh_len s < NBUF \<and> 0 \<le> sint (lh_n (log_lh (the_log s)))"

lemma log_hdr_cong: "the_log s' = the_log s \<Longrightarrow> log_hdr P s' \<longleftrightarrow> log_hdr P s"
  by (simp add: log_hdr_def home_block_def lh_len_def)

lemma log_hdrD:
  assumes "log_hdr P s"
  shows "finite P" "card P = lh_len s" "sint (lh_n (log_lh (the_log s))) = int (lh_len s)" "lh_n (log_lh (the_log s)) = of_nat (lh_len s)"
    "lh_len s < NBUF"
  using assms card_image [of "\<lambda>i. home_block i s" "{..<lh_len s}"] by (auto simp: log_hdr_def lh_len_def)

text \<open>
  \<open>fs_tx dev k V H s\<close>: the caller is in a transaction that may log \<open>k\<close> more blocks, it holds the
  buffers \<open>H\<close>, which are up to date, and the blocks hold \<open>V\<close>.  Three buffers are kept for the
  blocks that an operation holds at a time.
\<close>

definition fs_tx :: "u32 \<Rightarrow> nat \<Rightarrow> (u32 \<Rightarrow> block) \<Rightarrow> nat set \<Rightarrow> 'a log_state_scheme \<Rightarrow> bool" where
  "fs_tx dev k V H s \<longleftrightarrow> (\<exists>P nv. cache_inv dev P nv H s \<and> log_hdr P s \<and> dev = log_dev (the_log s) \<and>
     1 \<le> sint (log_outstanding (the_log s)) \<and> card P + k + 3 \<le> NBUF \<and> int (card P + k) < sint (log_size (the_log s)) \<and>
     V = blk P nv (disk s) \<and> (\<forall>b\<in>H. b_data (bufs s b) = V (b_blockno (bufs s b))))"

lemma more_below:
  fixes s s' :: "'a log_state_scheme"
  shows "bio_state.more s' = bio_state.more s \<Longrightarrow> log_state.more s' = log_state.more s"
  by (cases s; cases s'; simp)

lemma fs_fields_more:
  fixes s s' :: "'a fs_state_scheme"
  shows "log_state.more s' = log_state.more s \<Longrightarrow> sb s' = sb s" "log_state.more s' = log_state.more s \<Longrightarrow> inodes s' = inodes s"
  by (cases s; cases s'; simp)+

lemma tx_held:
  assumes "fs_tx dev k V H s" and "b \<in> H"
  shows "b < NBUF" "b_dev (bufs s b) = dev" "b_data (bufs s b) = V (b_blockno (bufs s b))"
    "c \<in> H \<Longrightarrow> c \<noteq> b \<Longrightarrow> b_blockno (bufs s c) \<noteq> b_blockno (bufs s b)"
proof -
  obtain P nv where i: "cache_inv dev P nv H s" "\<forall>b\<in>H. b_data (bufs s b) = V (b_blockno (bufs s b))" using assms(1) by (auto simp: fs_tx_def)
  note h = held_facts [OF i(1) assms(2)]
  show "b < NBUF" "b_dev (bufs s b) = dev" by (rule h)+
  show "b_data (bufs s b) = V (b_blockno (bufs s b))" using i(2) assms(2) by blast
  show "b_blockno (bufs s c) \<noteq> b_blockno (bufs s b)" if "c \<in> H" "c \<noteq> b"
    using h(8) [of c] held_facts(1,2) [OF i(1) that(1)] that(2) by auto
qed

lemma tx_bread:
  fixes s :: "'a log_state_scheme"
  assumes tx: "fs_tx dev k V H s" and n: "\<forall>c\<in>H. b_blockno (bufs s c) \<noteq> n" and H: "card H \<le> 2"
  shows "\<exists>b s'. bread dev n s = Ok (b, s') \<and> b \<notin> H \<and> b_blockno (bufs s' b) = n \<and> b_data (bufs s' b) = V n \<and>
    fs_tx dev k V (insert b H) s' \<and> (\<forall>c. c \<noteq> b \<longrightarrow> bufs s' c = bufs s c) \<and> log_state.more s' = log_state.more s"
proof -
  obtain P nv where i: "cache_inv dev P nv H s" "log_hdr P s" "dev = log_dev (the_log s)" "1 \<le> sint (log_outstanding (the_log s))"
      "card P + k + 3 \<le> NBUF" "int (card P + k) < sint (log_size (the_log s))" "V = blk P nv (disk s)"
      "\<forall>b\<in>H. b_data (bufs s b) = V (b_blockno (bufs s b))"
    using tx unfolding fs_tx_def by blast
  have "n \<in> P \<or> card P + card H < NBUF" using i(5) H by simp
  then obtain b x where r: "bread dev n s = Ok (b, s\<lparr>bufs := (bufs s)(b := x)\<rparr>)" "b \<notin> H" "b_blockno x = n"
      "b_data x = blk P nv (disk s) n" "cache_inv dev P nv (insert b H) (s\<lparr>bufs := (bufs s)(b := x)\<rparr>)"
    using bread_inv [OF i(1) bspec [OF n] log_hdrD(1) [OF i(2)]] by blast
  let ?s = "s\<lparr>bufs := (bufs s)(b := x)\<rparr>"
  have "fs_tx dev k V (insert b H) ?s"
    unfolding fs_tx_def using i r log_hdr_cong [of ?s s P] by (intro exI [of _ P] exI [of _ nv]) auto
  then show ?thesis using r i(7) by (intro exI [of _ b] exI [of _ ?s]) simp
qed

lemma tx_brelse:
  fixes s :: "'a log_state_scheme"
  assumes tx: "fs_tx dev k V H s" and b: "b \<in> H"
  shows "\<exists>s'. brelse b s = Ok s' \<and> fs_tx dev k V (H - {b}) s' \<and>
    (\<forall>c. b_blockno (bufs s' c) = b_blockno (bufs s c) \<and> b_data (bufs s' c) = b_data (bufs s c)) \<and> log_state.more s' = log_state.more s"
proof -
  obtain P nv where i: "cache_inv dev P nv H s" "log_hdr P s" "dev = log_dev (the_log s)" "1 \<le> sint (log_outstanding (the_log s))"
      "card P + k + 3 \<le> NBUF" "int (card P + k) < sint (log_size (the_log s))" "V = blk P nv (disk s)"
      "\<forall>b\<in>H. b_data (bufs s b) = V (b_blockno (bufs s b))"
    using tx unfolding fs_tx_def by blast
  have "b_data (bufs s b) = blk P nv (disk s) (b_blockno (bufs s b))" using i(7,8) b by blast
  from brelse_inv [OF i(1) b this] obtain s' where r: "brelse b s = Ok s'" "cache_inv dev P nv (H - {b}) s'" "disk s' = disk s"
      "bio_state.more s' = bio_state.more s"
      "\<forall>c. b_blockno (bufs s' c) = b_blockno (bufs s c) \<and> b_data (bufs s' c) = b_data (bufs s c)" by blast
  note l = more_the_log [OF r(4)]
  have "fs_tx dev k V (H - {b}) s'"
    unfolding fs_tx_def l using i r log_hdr_cong [OF l, of P] by (intro exI [of _ P] exI [of _ nv]) auto
  then show ?thesis using r more_below [OF r(4)] by blast
qed

lemma log_hdr_slot:
  assumes "log_hdr P s"
  shows "if n \<in> P then log_slot n s < lh_len s \<and> lh_block (log_lh (the_log s)) (log_slot n s) = n else log_slot n s = lh_len s"
proof -
  have P: "n \<in> P \<longleftrightarrow> (\<exists>i<lh_len s. lh_block (log_lh (the_log s)) i = n)" using assms by (auto simp: log_hdr_def home_block_def)
  show ?thesis
  proof (cases "first_slot (\<lambda>i. lh_block (log_lh (the_log s)) i = n) (lh_len s)")
    case None
    have "log_slot n s = lh_len s" using None by (simp add: log_slot_def)
    moreover have "n \<notin> P" using None P by (simp add: first_slot_None)
    ultimately show ?thesis by simp
  next
    case (Some i)
    then have "i < lh_len s" "lh_block (log_lh (the_log s)) i = n" unfolding first_slot_Some by blast+
    then show ?thesis using P Some by (auto simp: log_slot_def)
  qed
qed

lemma log_hdr_extend:
  fixes s s' :: "'a log_state_scheme"
  assumes hdr: "log_hdr P s" and n: "n \<notin> P" and room: "lh_len s + 1 < NBUF"
    and l: "log_lh (the_log s') = (log_lh (the_log s))\<lparr>lh_n := lh_n (log_lh (the_log s)) + 1, lh_block := (lh_block (log_lh (the_log s)))(lh_len s := n)\<rparr>"
  shows "log_hdr (insert n P) s'"
proof -
  note D = log_hdrD [OF hdr]
  have "lh_n (log_lh (the_log s')) = of_nat (Suc (lh_len s))" using l D(4) by simp
  then have n': "sint (lh_n (log_lh (the_log s'))) = int (Suc (lh_len s))" using room by (simp add: sint_of_nat_small del: of_nat_Suc)
  then have len: "lh_len s' = Suc (lh_len s)" unfolding lh_len_def [of s'] by simp
  have hb: "home_block i s' = (if i = lh_len s then n else home_block i s)" for i using l by (simp add: home_block_def)
  have img: "(\<lambda>i. home_block i s') ` {..<Suc (lh_len s)} = insert n P"
    using hdr by (auto simp: hb lessThan_Suc log_hdr_def)
  have "inj_on (\<lambda>i. home_block i s') {..<Suc (lh_len s)}"
    using img n D(1,2) by (intro eq_card_imp_inj_on) simp_all
  then show ?thesis using img len n' room by (simp add: log_hdr_def)
qed

lemma tx_log_write:
  fixes s :: "'a log_state_scheme"
  assumes tx: "fs_tx dev (Suc k) V H s" and b: "b \<in> H" and n: "n = b_blockno (bufs s b)"
  shows "\<exists>s'. log_write b (set_data b d s) = Ok s' \<and> fs_tx dev k (V(n := d)) H s' \<and>
    (\<forall>c. b_blockno (bufs s' c) = b_blockno (bufs s c)) \<and> (\<forall>c. c \<noteq> b \<longrightarrow> b_data (bufs s' c) = b_data (bufs s c)) \<and>
    b_data (bufs s' b) = d \<and> log_state.more s' = log_state.more s"
proof -
  obtain P nv where i: "cache_inv dev P nv H s" "log_hdr P s" "dev = log_dev (the_log s)" "1 \<le> sint (log_outstanding (the_log s))"
      "card P + Suc k + 3 \<le> NBUF" "int (card P + Suc k) < sint (log_size (the_log s))" "V = blk P nv (disk s)"
      "\<forall>b\<in>H. b_data (bufs s b) = V (b_blockno (bufs s b))"
    using tx unfolding fs_tx_def by blast
  note D = log_hdrD [OF i(2)]
  define t where "t = set_data b d s"
  have t: "the_log t = the_log s" "cache_inv dev P nv H t" "disk t = disk s" "lh_len t = lh_len s" "log_state.more t = log_state.more s"
      "bufs t = (bufs s)(b := (bufs s b)\<lparr>b_data := d\<rparr>)"
    using cache_inv_data [OF i(1) b, of d] by (simp_all add: t_def set_data_def upd_buf_def lh_len_def)
  have slot: "log_slot n t = log_slot n s" unfolding log_slot_def t(1,4) ..
  have bn: "b_blockno (bufs t b) = n" using t(6) n by simp
  have guard: "log_write b t = (let s' = upd_lh (\<lambda>h. h\<lparr>lh_block := (lh_block h)(log_slot n s := n)\<rparr>) t
      in Ok (if of_nat (log_slot n s) = lh_n (log_lh (the_log s)) then upd_lh (\<lambda>h. h\<lparr>lh_n := lh_n h + 1\<rparr>) (bpin b s') else s'))"
    using D(2,3) i(4,5,6) bn unfolding log_write_def t(1) by (simp add: Let_def slot)
  have held: "\<forall>c\<in>H. c \<noteq> b \<longrightarrow> b_blockno (bufs s c) \<noteq> n" using tx_held(4) [OF tx b] n by blast
  show ?thesis
  proof (cases "n \<in> P")
    case True
    then have sl: "log_slot n s < lh_len s" "lh_block (log_lh (the_log s)) (log_slot n s) = n" using log_hdr_slot [OF i(2), of n] by simp_all
    have "unat (of_nat (log_slot n s) :: u32) = log_slot n s" "unat (of_nat (lh_len s) :: u32) = lh_len s"
      using sl(1) D(5) by (simp_all add: unsigned_of_nat take_bit_nat_eq_self)
    then have "of_nat (log_slot n s) \<noteq> lh_n (log_lh (the_log s))" using D(4) sl(1) by (metis less_irrefl)
    moreover have "upd_lh (\<lambda>h. h\<lparr>lh_block := (lh_block h)(log_slot n s := n)\<rparr>) t = t"
      using sl(2) t(1) by (simp add: upd_lh_def upd_log_def fun_upd_idem)
    ultimately have w: "log_write b t = Ok t" using guard by simp
    have "blk P (nv(n := d)) (disk t) = V(n := d)" using True i(7) t(3) by (auto simp: blk_def)
    moreover have "cache_inv dev P (nv(n := d)) H t" using repin_inv [OF t(2) b] bn by simp
    ultimately have "fs_tx dev k (V(n := d)) H t"
      unfolding fs_tx_def t(1) using i held b n log_hdr_cong [OF t(1), of P] t(6) by (intro exI [of _ P] exI [of _ "nv(n := d)"]) auto
    then show ?thesis using w t(5,6) unfolding t_def [symmetric] by (intro exI [of _ t]) simp
  next
    case False
    then have sl: "log_slot n s = lh_len s" using log_hdr_slot [OF i(2), of n] by simp
    define t1 where "t1 = upd_lh (\<lambda>h. h\<lparr>lh_block := (lh_block h)(lh_len s := n)\<rparr>) t"
    define s' where "s' = upd_lh (\<lambda>h. h\<lparr>lh_n := lh_n h + 1\<rparr>) (bpin b t1)"
    have w: "log_write b t = Ok s'" using guard D(4) unfolding sl by (simp add: s'_def t1_def)
    have "cache_inv dev P nv H t1" "bufs t1 = bufs t" using t(2) by (simp_all add: t1_def)
    then have c: "cache_inv dev (insert n P) (nv(n := d)) H s'" using bpin_inv [OF _ b, of dev P nv t1 n d] False bn by (simp add: s'_def)
    have b': "b_data (bufs s' c) = b_data (bufs t c)" "b_blockno (bufs s' c) = b_blockno (bufs t c)" for c
      by (simp_all add: s'_def t1_def)
    have hdr: "log_hdr (insert n P) s'"
      using D(2) i(5) t(1) by (intro log_hdr_extend [OF i(2) False]) (simp_all add: s'_def t1_def)
    have l: "log_dev (the_log s') = log_dev (the_log s)" "log_outstanding (the_log s') = log_outstanding (the_log s)"
        "log_size (the_log s') = log_size (the_log s)" "disk s' = disk s" "log_state.more s' = log_state.more s"
      using t by (simp_all add: s'_def t1_def upd_lh_def upd_log_def bpin_def upd_buf_def)
    have "blk (insert n P) (nv(n := d)) (disk s') = V(n := d)" using i(7) l(4) by (simp add: blk_insert)
    then have "fs_tx dev k (V(n := d)) H s'"
      unfolding fs_tx_def l b' using i c hdr held b n D(1) False t(6)
      by (intro exI [of _ "insert n P"] exI [of _ "nv(n := d)"]) auto
    then show ?thesis using w t(6) l(5) b' unfolding t_def [symmetric] by (intro exI [of _ s']) simp
  qed
qed

section \<open>Reading and updating a block\<close>

definition keeps :: "nat set \<Rightarrow> 'a bio_state_scheme \<Rightarrow> 'a bio_state_scheme \<Rightarrow> bool" where
  "keeps H s s' \<longleftrightarrow> (\<forall>c\<in>H. b_blockno (bufs s' c) = b_blockno (bufs s c) \<and> b_data (bufs s' c) = b_data (bufs s c))"

text \<open>A step of the file system: the new view, with the buffers held and everything above the log kept.\<close>

definition fs_step :: "u32 \<Rightarrow> nat \<Rightarrow> (u32 \<Rightarrow> block) \<Rightarrow> nat set \<Rightarrow> 'a log_state_scheme \<Rightarrow> 'a log_state_scheme \<Rightarrow> bool" where
  "fs_step dev k V H s s' \<longleftrightarrow> fs_tx dev k V H s' \<and> keeps H s s' \<and> log_state.more s' = log_state.more s"

lemma fs_step_trans:
  "fs_step dev k V H s s' \<Longrightarrow> fs_step dev k' V' H s' s'' \<Longrightarrow> fs_step dev k' V' H s s''"
  by (simp add: fs_step_def keeps_def)

lemma fs_step_refl: "fs_tx dev k V H s \<Longrightarrow> fs_step dev k V H s s"
  by (simp add: fs_step_def keeps_def)

lemma tx_use:
  fixes s :: "'a log_state_scheme"
  assumes tx: "fs_tx dev k V H s" and n: "\<forall>c\<in>H. b_blockno (bufs s c) \<noteq> n" and H: "card H \<le> 2"
  shows "\<exists>b s1. bread dev n s = Ok (b, s1) \<and> data_of b s1 = V n \<and> log_state.more s1 = log_state.more s \<and>
    (\<exists>s'. brelse b s1 = Ok s' \<and> fs_step dev k V H s s') \<and>
    (\<forall>k' d. k = Suc k' \<longrightarrow> (\<exists>s2 s'. log_write b (set_data b d s1) = Ok s2 \<and> brelse b s2 = Ok s' \<and> fs_step dev k' (V(n := d)) H s s'))"
proof -
  obtain b s1 where r: "bread dev n s = Ok (b, s1)" "b \<notin> H" "b_blockno (bufs s1 b) = n" "b_data (bufs s1 b) = V n"
      "fs_tx dev k V (insert b H) s1" "\<forall>c. c \<noteq> b \<longrightarrow> bufs s1 c = bufs s c" "log_state.more s1 = log_state.more s"
    using tx_bread [OF assms] by blast
  have bH: "b \<in> insert b H" "insert b H - {b} = H" using r(2) by auto
  have "\<exists>s'. brelse b s1 = Ok s' \<and> fs_step dev k V H s s'"
    using tx_brelse [OF r(5) bH(1)] r(2,6,7) unfolding bH(2) fs_step_def keeps_def by metis
  moreover have "\<exists>s2 s'. log_write b (set_data b d s1) = Ok s2 \<and> brelse b s2 = Ok s' \<and> fs_step dev k' (V(n := d)) H s s'" if k: "k = Suc k'" for k' d
  proof -
    obtain s2 where s2: "log_write b (set_data b d s1) = Ok s2" "fs_tx dev k' (V(n := d)) (insert b H) s2"
        "\<forall>c. b_blockno (bufs s2 c) = b_blockno (bufs s1 c)" "\<forall>c. c \<noteq> b \<longrightarrow> b_data (bufs s2 c) = b_data (bufs s1 c)"
        "log_state.more s2 = log_state.more s1"
      using tx_log_write [OF r(5) [unfolded k] bH(1) r(3) [symmetric], of d] by blast
    obtain s' where "brelse b s2 = Ok s'" "fs_tx dev k' (V(n := d)) H s'" "log_state.more s' = log_state.more s2"
        "\<forall>c. b_blockno (bufs s' c) = b_blockno (bufs s2 c) \<and> b_data (bufs s' c) = b_data (bufs s2 c)"
      using tx_brelse [OF s2(2) bH(1)] unfolding bH(2) by blast
    moreover from this have "keeps H s s'" using s2(3,4) r(2,6) unfolding keeps_def by metis
    ultimately show ?thesis using s2(1,5) r(7) unfolding fs_step_def by (intro exI [of _ s2] exI [of _ s']) simp
  qed
  ultimately show ?thesis using r(1,4,7) unfolding data_of_def by blast
qed

section \<open>The free map\<close>

definition bit_used :: "(u32 \<Rightarrow> block) \<Rightarrow> u32 \<Rightarrow> nat \<Rightarrow> bool" where
  "bit_used V bm j \<longleftrightarrow> V (bm + of_nat (j div 8192)) (j mod 8192 div 8) AND bmask (j mod 8192) \<noteq> 0"

definition mark_used :: "u32 \<Rightarrow> nat \<Rightarrow> (u32 \<Rightarrow> block) \<Rightarrow> u32 \<Rightarrow> block" where
  "mark_used bm j V = (let n = bm + of_nat (j div 8192); i = j mod 8192 div 8 in V(n := (V n)(i := V n i OR bmask (j mod 8192))))"

definition mark_free :: "u32 \<Rightarrow> nat \<Rightarrow> (u32 \<Rightarrow> block) \<Rightarrow> u32 \<Rightarrow> block" where
  "mark_free bm j V = (let n = bm + of_nat (j div 8192); i = j mod 8192 div 8 in V(n := (V n)(i := V n i AND NOT (bmask (j mod 8192)))))"

lemma BBLOCK_of_nat:
  assumes "j < 2 ^ 32"
  shows "BBLOCK (of_nat j) s = sb_bmapstart (sb s) + of_nat (j div 8192)"
proof -
  have "unat (of_nat j :: u32) = j" using assms by (simp add: unsigned_of_nat take_bit_nat_eq_self)
  then have "(of_nat j :: u32) div 8192 = of_nat (j div 8192)"
    using assms by (simp add: word_unat_eq_iff unat_div unsigned_of_nat take_bit_nat_eq_self)
  then show ?thesis by (simp add: BBLOCK_def add.commute)
qed

lemma bzero_step:
  fixes s :: "'a fs_state_scheme"
  assumes "fs_tx dev (Suc k) V H s" and "\<forall>c\<in>H. b_blockno (bufs s c) \<noteq> n" and "card H \<le> 2"
  shows "\<exists>s'. bzero dev n s = Ok s' \<and> fs_step dev k (V(n := (\<lambda>_. 0))) H s s'"
proof -
  obtain b s1 where u: "bread dev n s = Ok (b, s1)"
      "\<forall>k' d. Suc k = Suc k' \<longrightarrow> (\<exists>s2 s'. log_write b (set_data b d s1) = Ok s2 \<and> brelse b s2 = Ok s' \<and> fs_step dev k' (V(n := d)) H s s')"
    using tx_use [OF assms] by blast
  obtain s2 s' where "log_write b (set_data b (\<lambda>_. 0) s1) = Ok s2" "brelse b s2 = Ok s'" "fs_step dev k (V(n := (\<lambda>_. 0))) H s s'"
    using u(2) by blast
  then show ?thesis using u(1) by (simp add: bzero_def)
qed

text \<open>The blocks that \<^verbatim>\<open>balloc\<close> reads or writes are not held by the caller.\<close>

definition alloc_clear :: "(u32 \<Rightarrow> block) \<Rightarrow> u32 \<Rightarrow> nat \<Rightarrow> nat set \<Rightarrow> 'a bio_state_scheme \<Rightarrow> bool" where
  "alloc_clear V bm sz H s \<longleftrightarrow> (\<forall>c\<in>H. \<forall>j < sz. b_blockno (bufs s c) \<noteq> bm + of_nat (j div 8192) \<and>
     (\<not> bit_used V bm j \<longrightarrow> b_blockno (bufs s c) \<noteq> of_nat j))"

lemma alloc_clear_keeps: "keeps H s s' \<Longrightarrow> alloc_clear V bm sz H s' \<longleftrightarrow> alloc_clear V bm sz H s"
  by (simp add: alloc_clear_def keeps_def)

lemma div_mod_offset:
  fixes b i :: nat
  assumes "8192 dvd b" and "i < 8192"
  shows "(b + i) div 8192 = b div 8192" "(b + i) mod 8192 = i"
  using assms by auto

text \<open>What \<^verbatim>\<open>balloc\<close> promises for the block \<open>m\<close> that it returns, when it looks from \<open>b\<close> on.\<close>

definition balloc_post ::
  "u32 \<Rightarrow> nat \<Rightarrow> (u32 \<Rightarrow> block) \<Rightarrow> u32 \<Rightarrow> nat \<Rightarrow> nat set \<Rightarrow> nat \<Rightarrow> 'a fs_state_scheme \<Rightarrow> nat \<Rightarrow> 'a fs_state_scheme \<Rightarrow> bool" where
  "balloc_post dev k V bm sz H b s m s' \<longleftrightarrow> b \<le> m \<and> m < sz \<and> \<not> bit_used V bm m \<and> (\<forall>j. b \<le> j \<and> j < m \<longrightarrow> bit_used V bm j) \<and>
     fs_step dev k ((mark_used bm m V)(of_nat m := (\<lambda>_. 0))) H s s'"

definition balloc_pre :: "u32 \<Rightarrow> nat \<Rightarrow> (u32 \<Rightarrow> block) \<Rightarrow> u32 \<Rightarrow> nat \<Rightarrow> nat set \<Rightarrow> nat \<Rightarrow> 'a fs_state_scheme \<Rightarrow> bool" where
  "balloc_pre dev k V bm sz H b s \<longleftrightarrow> fs_tx dev (Suc (Suc k)) V H s \<and> card H \<le> 2 \<and> 8192 dvd b \<and> sz \<le> 2 ^ 32 - 8192 \<and>
     sb_bmapstart (sb s) = bm \<and> alloc_clear V bm sz H s"

lemma balloc_preD:
  assumes "balloc_pre dev k V bm sz H b s"
  shows "fs_tx dev (Suc (Suc k)) V H s" "card H \<le> 2" "8192 dvd b" "sz \<le> 2 ^ 32 - 8192" "sb_bmapstart (sb s) = bm" "alloc_clear V bm sz H s"
  using assms by (simp_all add: balloc_pre_def)

lemma balloc_loop_read:
  assumes pre: "balloc_pre dev k V bm sz H b s" and lt: "b < sz"
  shows "\<exists>bp s1. bread dev (BBLOCK (of_nat b) s) s = Ok (bp, s1) \<and> data_of bp s1 = V (bm + of_nat (b div 8192)) \<and>
    (\<exists>s'. brelse bp s1 = Ok s' \<and> fs_step dev (Suc (Suc k)) V H s s') \<and>
    (\<forall>k' d. Suc (Suc k) = Suc k' \<longrightarrow> (\<exists>s2 s'. log_write bp (set_data bp d s1) = Ok s2 \<and> brelse bp s2 = Ok s' \<and>
       fs_step dev k' (V(bm + of_nat (b div 8192) := d)) H s s'))"
proof -
  note P = balloc_preD [OF pre]
  have n: "BBLOCK (of_nat b) s = bm + of_nat (b div 8192)" using BBLOCK_of_nat [of b s] lt P(4,5) by simp
  have "\<forall>c\<in>H. b_blockno (bufs s c) \<noteq> bm + of_nat (b div 8192)" using P(6) lt by (auto simp: alloc_clear_def)
  then show ?thesis unfolding n using tx_use [OF P(1) _ P(2)] by blast
qed

lemma balloc_loop_hit:
  assumes pre: "balloc_pre dev k V bm sz H b s" and lt: "b < sz" and n: "n = bm + of_nat (b div 8192)"
    and hit: "first_slot (\<lambda>bi. V n (bi div 8) AND bmask bi = 0) (min 8192 (sz - b)) = Some bi"
  shows "\<exists>s'. balloc_loop dev sz b s = Ok (of_nat (b + bi), s') \<and> balloc_post dev k V bm sz H b s (b + bi) s'"
proof -
  note P = balloc_preD [OF pre]
  let ?m = "b + bi" and ?d = "(V n)(bi div 8 := V n (bi div 8) OR bmask bi)"
  have bi: "bi < 8192" "?m < sz" "V n (bi div 8) AND bmask bi = 0" "\<forall>j<bi. V n (j div 8) AND bmask j \<noteq> 0"
    using hit unfolding first_slot_Some by auto
  have used: "bit_used V bm (b + i) \<longleftrightarrow> V n (i div 8) AND bmask i \<noteq> 0" if "i < 8192" for i
    using div_mod_offset [OF P(3) that] n by (simp add: bit_used_def)
  obtain bp s1 where u: "bread dev (BBLOCK (of_nat b) s) s = Ok (bp, s1)" "data_of bp s1 = V n"
      "\<exists>s2 s'. log_write bp (set_data bp ?d s1) = Ok s2 \<and> brelse bp s2 = Ok s' \<and> fs_step dev (Suc k) (V(n := ?d)) H s s'"
    using balloc_loop_read [OF pre lt] unfolding n by blast
  then obtain s2 s3 where w: "log_write bp (set_data bp ?d s1) = Ok s2" "brelse bp s2 = Ok s3" "fs_step dev (Suc k) (V(n := ?d)) H s s3" by blast
  have mk: "V(n := ?d) = mark_used bm ?m V" using div_mod_offset [OF P(3) bi(1)] n by (simp add: mark_used_def Let_def)
  have free: "\<not> bit_used V bm ?m" using used [OF bi(1)] bi(3) by simp
  have "\<forall>c\<in>H. b_blockno (bufs s c) \<noteq> of_nat ?m" using P(6) free bi(2) unfolding alloc_clear_def by blast
  then have "\<forall>c\<in>H. b_blockno (bufs s3 c) \<noteq> of_nat ?m" using w(3) by (simp add: fs_step_def keeps_def)
  then obtain s' where z: "bzero dev (of_nat ?m) s3 = Ok s'" "fs_step dev k ((V(n := ?d))(of_nat ?m := (\<lambda>_. 0))) H s3 s'"
    using bzero_step [of dev k "V(n := ?d)" H s3] w(3) P(2) unfolding fs_step_def by blast
  have "balloc_loop dev sz b s = Ok (of_nat ?m, s')"
    using lt u(1,2) hit w(1,2) z(1) by (subst balloc_loop.simps) (simp add: Let_def)
  moreover have "bit_used V bm j" if "b \<le> j" "j < ?m" for j
  proof -
    have "j - b < bi" "j - b < 8192" "j = b + (j - b)" using bi(1) that by auto
    then show "bit_used V bm j" using used [of "j - b"] bi(4) by metis
  qed
  ultimately show ?thesis
    using free bi(2) fs_step_trans [OF w(3) z(2)] unfolding mk balloc_post_def by (intro exI [of _ s']) simp
qed

lemma balloc_loop_miss:
  assumes pre: "balloc_pre dev k V bm sz H b s" and lt: "b < sz" and n: "n = bm + of_nat (b div 8192)"
    and miss: "first_slot (\<lambda>bi. V n (bi div 8) AND bmask bi = 0) (min 8192 (sz - b)) = None"
  shows "\<exists>s'. balloc_loop dev sz b s = balloc_loop dev sz (b + 8192) s' \<and> fs_step dev (Suc (Suc k)) V H s s' \<and>
    balloc_pre dev k V bm sz H (b + 8192) s' \<and> (\<forall>j. b \<le> j \<and> j < b + 8192 \<and> j < sz \<longrightarrow> bit_used V bm j)"
proof -
  note P = balloc_preD [OF pre]
  obtain bp s1 s' where u: "bread dev (BBLOCK (of_nat b) s) s = Ok (bp, s1)" "data_of bp s1 = V n" "brelse bp s1 = Ok s'"
      "fs_step dev (Suc (Suc k)) V H s s'"
    using balloc_loop_read [OF pre lt] unfolding n by blast
  have "balloc_loop dev sz b s = balloc_loop dev sz (b + 8192) s'"
    using lt u(1-3) miss by (subst balloc_loop.simps) simp
  moreover have "bit_used V bm j" if "b \<le> j" "j < b + 8192" "j < sz" for j
  proof -
    have "j - b < 8192" "j - b < min 8192 (sz - b)" "j = b + (j - b)" using that by auto
    moreover have "bit_used V bm (b + (j - b)) \<longleftrightarrow> V n ((j - b) div 8) AND bmask (j - b) \<noteq> 0"
      using div_mod_offset [OF P(3) \<open>j - b < 8192\<close>] n by (simp add: bit_used_def)
    ultimately show ?thesis using miss unfolding first_slot_None by metis
  qed
  moreover have "sb s' = sb s" using u(4) fs_fields_more(1) unfolding fs_step_def by blast
  then have "balloc_pre dev k V bm sz H (b + 8192) s'"
    using P u(4) alloc_clear_keeps [of H s s'] by (simp add: balloc_pre_def fs_step_def)
  ultimately show ?thesis using u(4) by blast
qed

lemma balloc_loop_spec:
  assumes "balloc_pre dev k V bm sz H b s"
  shows "if \<exists>j < sz. b \<le> j \<and> \<not> bit_used V bm j
    then \<exists>m s'. balloc_loop dev sz b s = Ok (of_nat m, s') \<and> balloc_post dev k V bm sz H b s m s'
    else balloc_loop dev sz b s = Panic ''balloc: out of blocks''"
  using assms
proof (induction "sz - b" arbitrary: b s rule: less_induct)
  case less
  let ?n = "bm + of_nat (b div 8192)"
  show ?case
  proof (cases "b < sz")
    case False
    then show ?thesis by (auto simp: balloc_loop.simps)
  next
    case True
    show ?thesis
    proof (cases "first_slot (\<lambda>bi. V ?n (bi div 8) AND bmask bi = 0) (min 8192 (sz - b))")
      case (Some bi)
      obtain s' where s': "balloc_loop dev sz b s = Ok (of_nat (b + bi), s')" "balloc_post dev k V bm sz H b s (b + bi) s'"
        using balloc_loop_hit [OF less.prems True refl Some] by blast
      then have ex: "\<exists>j < sz. b \<le> j \<and> \<not> bit_used V bm j" unfolding balloc_post_def by blast
      show ?thesis unfolding if_P [OF ex] using s' by blast
    next
      case None
      obtain s' where s': "balloc_loop dev sz b s = balloc_loop dev sz (b + 8192) s'" "fs_step dev (Suc (Suc k)) V H s s'"
          "balloc_pre dev k V bm sz H (b + 8192) s'" "\<forall>j. b \<le> j \<and> j < b + 8192 \<and> j < sz \<longrightarrow> bit_used V bm j"
        using balloc_loop_miss [OF less.prems True refl None] by blast
      have ex: "(\<exists>j < sz. b + 8192 \<le> j \<and> \<not> bit_used V bm j) \<longleftrightarrow> (\<exists>j < sz. b \<le> j \<and> \<not> bit_used V bm j)"
        using s'(4) by (metis add_leD1 not_less)
      have up: "balloc_post dev k V bm sz H (b + 8192) s' m s'' \<Longrightarrow> balloc_post dev k V bm sz H b s m s''" for m s''
        using s'(4) fs_step_trans [OF s'(2)] unfolding balloc_post_def by (metis add_leD1 dual_order.strict_trans linorder_not_le)
      have lt: "sz - (b + 8192) < sz - b" using True by simp
      note IH = less.hyps [OF lt s'(3), unfolded ex]
      show ?thesis
      proof (cases "\<exists>j < sz. b \<le> j \<and> \<not> bit_used V bm j")
        case ex: True
        show ?thesis unfolding if_P [OF ex] s'(1) using IH [unfolded if_P [OF ex]] up by blast
      next
        case ex: False
        show ?thesis unfolding if_not_P [OF ex] s'(1) using IH [unfolded if_not_P [OF ex]] .
      qed
    qed
  qed
qed

lemma bmask_exp: "bmask i = 2 ^ (i mod 8)"
  by (simp add: bmask_def push_bit_eq_mult)

lemma bmask_test: "x AND bmask i \<noteq> 0 \<longleftrightarrow> bit x (i mod 8)" for x :: u8
  by (simp add: bmask_exp and_exp_eq_0_iff_not_bit)

lemma bitmap_slot:
  assumes "j < 2 ^ 32" and "m < 2 ^ 32" and "bm + of_nat (j div 8192) = (bm + of_nat (m div 8192) :: u32)"
    and "j mod 8192 div 8 = m mod 8192 div 8" and "j mod 8192 mod 8 = m mod 8192 mod 8"
  shows "j = m"
proof -
  have "unat (of_nat (j div 8192) :: u32) = j div 8192" "unat (of_nat (m div 8192) :: u32) = m div 8192"
    using assms(1,2) by (simp_all add: unsigned_of_nat take_bit_nat_eq_self)
  then have "j div 8192 = m div 8192" using assms(3) by (metis add_left_cancel)
  moreover have "j mod 8192 = m mod 8192" using assms(4,5) div_mod_decomp [of "j mod 8192" 8] div_mod_decomp [of "m mod 8192" 8] by metis
  ultimately show ?thesis using div_mod_decomp [of j 8192] div_mod_decomp [of m 8192] by metis
qed

lemma bit_used_bit: "bit_used V bm j \<longleftrightarrow> bit (V (bm + of_nat (j div 8192)) (j mod 8192 div 8)) (j mod 8192 mod 8)"
  unfolding bit_used_def by (rule bmask_test)

lemma bit_used_marks:
  assumes "j < 2 ^ 32" and "m < 2 ^ 32"
  shows "bit_used (mark_used bm m V) bm j \<longleftrightarrow> bit_used V bm j \<or> j = m"
    "bit_used (mark_free bm m V) bm j \<longleftrightarrow> bit_used V bm j \<and> j \<noteq> m"
  using bitmap_slot [OF assms, of bm]
  by (auto simp: bit_used_bit mark_used_def mark_free_def Let_def bmask_exp bit_simps)

text \<open>The blocks of the bitmap are inside the file system and marked as used.\<close>

definition bitmap_ok :: "(u32 \<Rightarrow> block) \<Rightarrow> u32 \<Rightarrow> nat \<Rightarrow> bool" where
  "bitmap_ok V bm sz \<longleftrightarrow> sz \<le> 2 ^ 32 - 8192 \<and> (\<forall>j < sz. unat (bm + of_nat (j div 8192)) < sz \<and> bit_used V bm (unat (bm + of_nat (j div 8192))))"

text \<open>
  C1: Inside a transaction with room for two more blocks, \<^verbatim>\<open>balloc\<close> returns the first block
  that is free in the bitmap, cleared to zero, and marks this block and no other as used; every
  other block of the disk, the super block and the inode table stay as they are.  It panics
  exactly when no block is free.
\<close>

theorem balloc_allocates:
  fixes s :: "'a fs_state_scheme"
  assumes tx: "fs_tx dev (k + 2) V {} s" and bm: "bm = sb_bmapstart (sb s)" and sz: "sz = unat (sb_size (sb s))" and ok: "bitmap_ok V bm sz"
  shows "if \<exists>j < sz. \<not> bit_used V bm j
    then \<exists>m s' V'. balloc dev s = Ok (of_nat m, s') \<and> m < sz \<and> \<not> bit_used V bm m \<and> (\<forall>j < m. bit_used V bm j) \<and>
      fs_tx dev k V' {} s' \<and> V' (of_nat m) = (\<lambda>_. 0) \<and> (\<forall>j < sz. bit_used V' bm j \<longleftrightarrow> bit_used V bm j \<or> j = m) \<and>
      (\<forall>n. n \<noteq> of_nat m \<and> n \<noteq> bm + of_nat (m div 8192) \<longrightarrow> V' n = V n) \<and> sb s' = sb s \<and> inodes s' = inodes s
    else balloc dev s = Panic ''balloc: out of blocks''"
proof -
  have pre: "balloc_pre dev k V bm sz {} 0 s" using tx bm ok by (simp add: balloc_pre_def alloc_clear_def bitmap_ok_def)
  note spec = balloc_loop_spec [OF pre]
  have eq: "balloc dev s = balloc_loop dev sz 0 s" by (simp add: balloc_def sz)
  show ?thesis
  proof (cases "\<exists>j < sz. \<not> bit_used V bm j")
    case ex: True
    then obtain m s' where m: "balloc_loop dev sz 0 s = Ok (of_nat m, s')" "balloc_post dev k V bm sz {} 0 s m s'" using spec by auto
    let ?V = "(mark_used bm m V)(of_nat m := (\<lambda>_. 0))"
    have st: "m < sz" "\<not> bit_used V bm m" "\<forall>j < m. bit_used V bm j" "fs_step dev k ?V {} s s'" using m(2) by (simp_all add: balloc_post_def)
    have small: "j < 2 ^ 32" if "j < sz" for j using ok that by (simp add: bitmap_ok_def)
    have um: "unat (of_nat m :: u32) = m" using small [OF st(1)] by (simp add: unsigned_of_nat take_bit_nat_eq_self)
    have "bit_used ?V bm j \<longleftrightarrow> bit_used V bm j \<or> j = m" if j: "j < sz" for j
    proof -
      have "unat (bm + of_nat (j div 8192)) \<noteq> m" using ok j st(2) by (auto simp: bitmap_ok_def)
      then have "bm + of_nat (j div 8192) \<noteq> of_nat m" using um by auto
      then have "bit_used ?V bm j = bit_used (mark_used bm m V) bm j" by (simp add: bit_used_def)
      then show ?thesis using bit_used_marks(1) [OF small [OF j] small [OF st(1)]] by simp
    qed
    moreover have "sb s' = sb s" "inodes s' = inodes s" using st(4) fs_fields_more [of s' s] by (simp_all add: fs_step_def)
    moreover have "?V n = V n" if "n \<noteq> of_nat m" "n \<noteq> bm + of_nat (m div 8192)" for n using that by (simp add: mark_used_def Let_def)
    ultimately show ?thesis
      unfolding if_P [OF ex] eq using m(1) st by (intro exI [of _ m] exI [of _ s'] exI [of _ ?V]) (simp add: fs_step_def)
  next
    case ex: False
    then show ?thesis unfolding if_not_P [OF ex] eq using spec by auto
  qed
qed

text \<open>A file system of 100 blocks, of which the first 48 are in use, inside a transaction.\<close>

definition fs_boot :: fs_state where
  "fs_boot = binit (fs_zero\<lparr>disk := (\<lambda>n i. if n = 45 \<and> i < 6 then - 1 else 0), cpus := (\<lambda>_. idle_cpu\<lparr>c_proc := Some 0\<rparr>),
     the_log := log_zero_data\<lparr>log_start := 2, log_size := 30, log_dev := 1, log_outstanding := 1\<rparr>,
     sb := sb_zero\<lparr>sb_size := 100, sb_bmapstart := 45, sb_inodestart := 32\<rparr>,
     inodes := (\<lambda>_. inode_zero\<lparr>i_dev := 1, i_inum := 5, i_size := 77\<rparr>)\<rparr>)"

lemma fs_boot_tx:
  "fs_tx 1 20 (\<lambda>n i. if n = 45 \<and> i < 6 then - 1 else 0) {} fs_boot"
  "sb fs_boot = sb_zero\<lparr>sb_size := 100, sb_bmapstart := 45, sb_inodestart := 32\<rparr>"
  "inodes fs_boot = (\<lambda>_. inode_zero\<lparr>i_dev := 1, i_inum := 5, i_size := 77\<rparr>)"
proof -
  define d :: "u32 \<Rightarrow> block" where "d = (\<lambda>n i. if n = 45 \<and> i < 6 then - 1 else 0)"
  define l where "l = log_zero_data\<lparr>log_start := 2, log_size := 30, log_dev := 1, log_outstanding := 1\<rparr>"
  define s :: fs_state where "s = fs_zero\<lparr>disk := d, cpus := (\<lambda>_. idle_cpu\<lparr>c_proc := Some 0\<rparr>), the_log := l,
    sb := sb_zero\<lparr>sb_size := 100, sb_bmapstart := 45, sb_inodestart := 32\<rparr>,
    inodes := (\<lambda>_. inode_zero\<lparr>i_dev := 1, i_inum := 5, i_size := 77\<rparr>)\<rparr>"
  have b: "fs_boot = binit s" unfolding fs_boot_def s_def d_def l_def ..
  have "bufs s b = buf_zero" for b by (simp add: s_def zero_simps)
  then have "buf_unused (bufs s b)" for b by (simp add: buf_unused_def buf_zero_def)
  moreover have "myproc s \<noteq> None" by (simp add: s_def myproc_def mycpu_def)
  ultimately have inv: "cache_inv 1 {} (\<lambda>_ _. 0) {} fs_boot" unfolding b by (intro cache_inv_binit) simp_all
  obtain B where B: "fs_boot = s\<lparr>bufs := B\<rparr>" unfolding b using binit_frame by blast
  have f: "disk fs_boot = d" "the_log fs_boot = l" unfolding B by (simp_all add: s_def)
  have "log_hdr {} fs_boot" unfolding log_hdr_def lh_len_def f(2) by (simp add: l_def log_zero_data_def)
  then show "fs_tx 1 20 (\<lambda>n i. if n = 45 \<and> i < 6 then - 1 else 0) {} fs_boot"
    unfolding fs_tx_def f d_def [symmetric] using inv by (intro exI [of _ "{}"] exI [of _ "\<lambda>_ _. 0"]) (simp add: l_def blk_empty)
  show "sb fs_boot = sb_zero\<lparr>sb_size := 100, sb_bmapstart := 45, sb_inodestart := 32\<rparr>"
    "inodes fs_boot = (\<lambda>_. inode_zero\<lparr>i_dev := 1, i_inum := 5, i_size := 77\<rparr>)" unfolding B by (simp_all add: s_def)
qed

lemma fs_boot_used:
  assumes "j < 100"
  shows "bit_used (\<lambda>n i. if n = 45 \<and> i < 6 then - 1 else 0) 45 j \<longleftrightarrow> j < 48"
  using assms by (auto simp: bit_used_bit)

theorem balloc_allocates_witness: "\<exists>s'. balloc 1 fs_boot = Ok (48, s')"
proof -
  let ?V = "\<lambda>(n :: u32) i. if n = 45 \<and> i < 6 then - 1 else 0"
  note used = fs_boot_used
  have bm: "45 = sb_bmapstart (sb fs_boot)" and sz: "100 = unat (sb_size (sb fs_boot))" by (simp_all add: fs_boot_tx)
  have tx: "fs_tx 1 (18 + 2) ?V {} fs_boot" using fs_boot_tx(1) by simp
  have ok: "bitmap_ok ?V 45 100" using used by (auto simp: bitmap_ok_def)
  have ex: "\<exists>j<100. \<not> bit_used ?V 45 j" using used [of 48] by (intro exI [of _ 48]) simp
  from balloc_allocates [OF tx bm sz ok, unfolded if_P [OF ex]] obtain m s' where
    m: "balloc 1 fs_boot = Ok (of_nat m, s')" "m < 100" "\<not> bit_used ?V 45 m" "\<forall>j < m. bit_used ?V 45 j" by blast
  have "\<not> m < 48" using used [OF m(2)] m(3) by blast
  moreover have "\<not> 48 < m" using used [of 48] m(4) by auto
  ultimately have "m = 48" by linarith
  then show ?thesis using m(1) by auto
qed

text \<open>
  C2: \<^verbatim>\<open>bfree\<close> marks the block as free and changes nothing else; it panics exactly when the
  block is free already.
\<close>

theorem bfree_frees:
  fixes s :: "'a fs_state_scheme"
  assumes tx: "fs_tx dev (k + 1) V {} s" and bm: "bm = sb_bmapstart (sb s)"
  shows "if bit_used V bm (unat b)
    then \<exists>s' V'. bfree dev b s = Ok s' \<and> fs_tx dev k V' {} s' \<and> (\<forall>j < 2 ^ 32. bit_used V' bm j \<longleftrightarrow> bit_used V bm j \<and> j \<noteq> unat b) \<and>
      (\<forall>n. n \<noteq> BBLOCK b s \<longrightarrow> V' n = V n) \<and> sb s' = sb s \<and> inodes s' = inodes s
    else bfree dev b s = Panic ''freeing free block''"
proof -
  have lt: "unat b < 2 ^ 32" using unsigned_less [of b] by simp
  have n: "BBLOCK b s = bm + of_nat (unat b div 8192)" using BBLOCK_of_nat [OF lt, of s] bm by simp
  let ?n = "BBLOCK b s" and ?bi = "unat b mod 8192"
  obtain bp s1 where u: "bread dev ?n s = Ok (bp, s1)" "data_of bp s1 = V ?n"
      "\<And>d. \<exists>s2 s'. log_write bp (set_data bp d s1) = Ok s2 \<and> brelse bp s2 = Ok s' \<and> fs_step dev k (V(?n := d)) {} s s'"
    using tx_use [OF tx, of ?n] by auto
  have used: "bit_used V bm (unat b) \<longleftrightarrow> V ?n (?bi div 8) AND bmask ?bi \<noteq> 0" unfolding n bit_used_def ..
  show ?thesis
  proof (cases "bit_used V bm (unat b)")
    case True
    let ?d = "(V ?n)(?bi div 8 := V ?n (?bi div 8) AND NOT (bmask ?bi))"
    obtain s2 s' where w: "log_write bp (set_data bp ?d s1) = Ok s2" "brelse bp s2 = Ok s'" "fs_step dev k (V(?n := ?d)) {} s s'" using u(3) by blast
    have mk: "V(?n := ?d) = mark_free bm (unat b) V" unfolding n by (simp add: mark_free_def Let_def)
    have "bfree dev b s = Ok s'" using u(1,2) w(1,2) True unfolding used by (simp add: bfree_def Let_def)
    moreover have "fs_tx dev k (mark_free bm (unat b) V) {} s'" "sb s' = sb s" "inodes s' = inodes s"
      using w(3) fs_fields_more [of s' s] unfolding mk by (simp_all add: fs_step_def)
    moreover have "\<forall>n. n \<noteq> ?n \<longrightarrow> mark_free bm (unat b) V n = V n" unfolding mk [symmetric] by simp
    ultimately show ?thesis
      unfolding if_P [OF True] using bit_used_marks(2) [OF _ lt] by (intro exI [of _ s'] exI [of _ "mark_free bm (unat b) V"]) simp
  next
    case False
    then show ?thesis using u(1,2) unfolding if_not_P [OF False] used by (simp add: bfree_def Let_def)
  qed
qed

theorem bfree_frees_witness: "\<exists>s'. bfree 1 20 fs_boot = Ok s'"
proof -
  have tx: "fs_tx 1 (19 + 1) (\<lambda>n i. if n = 45 \<and> i < 6 then - 1 else 0) {} fs_boot" using fs_boot_tx(1) by simp
  have bm: "45 = sb_bmapstart (sb fs_boot)" by (simp add: fs_boot_tx)
  have u: "bit_used (\<lambda>n i. if n = 45 \<and> i < 6 then - 1 else 0) 45 (unat (20 :: u32))" using fs_boot_used [of 20] by simp
  show ?thesis using bfree_frees [OF tx bm, of 20, unfolded if_P [OF u]] by blast
qed

section \<open>Inodes on disk\<close>

lemma get16_put32_other: "k + 4 \<le> j \<or> j + 2 \<le> k \<Longrightarrow> get16 (put32 d k v) j = get16 d j"
  by (rule get16_cong) (auto intro: put32_outside)

lemma get32_put16_other: "k + 2 \<le> j \<or> j + 4 \<le> k \<Longrightarrow> get32 (put16 d k v) j = get32 d j"
  by (rule get32_cong) (auto intro: put16_outside)

lemma get16_put16_other: "k + 2 \<le> j \<or> j + 2 \<le> k \<Longrightarrow> get16 (put16 d k v) j = get16 d j"
  by (rule get16_cong) (auto intro: put16_outside)

lemmas get_put_other = get16_put32_other get32_put16_other get16_put16_other get32_put32_other

lemma put_addrs:
  shows "get32 (fold (\<lambda>j d. put32 d (k + 12 + 4 * j) (a j)) [0..<n] d) (k + 12 + 4 * i) = (if i < n then a i else get32 d (k + 12 + 4 * i))"
    "x < k + 12 \<or> k + 12 + 4 * n \<le> x \<Longrightarrow> fold (\<lambda>j d. put32 d (k + 12 + 4 * j) (a j)) [0..<n] d x = d x"
  by (induction n) (auto simp: get32_put32_other less_Suc_eq put32_outside)

lemma dinode_write_outside: "x < k \<or> k + 64 \<le> x \<Longrightarrow> dinode_write d k ip x = d x"
  unfolding dinode_write_def Let_def by (subst put_addrs(2)) (auto simp: put16_outside put32_outside)

lemma dinode_read_write:
  "dinode_read (dinode_write d k ip) k x = x\<lparr>i_type := i_type ip, i_major := i_major ip, i_minor := i_minor ip, i_nlink := i_nlink ip,
     i_size := i_size ip, i_addrs := (\<lambda>j. if j < NDIRECT + 2 then i_addrs ip j else i_addrs x j)\<rparr>"
proof -
  define e where "e = put32 (put16 (put16 (put16 (put16 d k (i_type ip)) (k + 2) (i_major ip)) (k + 4) (i_minor ip)) (k + 6) (i_nlink ip)) (k + 8) (i_size ip)"
  define w where "w = fold (\<lambda>j d. put32 d (k + 12 + 4 * j) (i_addrs ip j)) [0..<NDIRECT + 2] e"
  have w: "dinode_write d k ip = w" by (simp only: dinode_write_def Let_def w_def e_def)
  have low: "w i = e i" if "i < k + 12" for i unfolding w_def using put_addrs(2) that by blast
  have g16: "get16 w j = get16 e j" if "j + 2 \<le> k + 12" for j by (rule get16_cong) (use that low in auto)
  have g32: "get32 w (k + 8) = get32 e (k + 8)" by (rule get32_cong) (use low in auto)
  have "get16 e k = i_type ip" "get16 e (k + 2) = i_major ip" "get16 e (k + 4) = i_minor ip" "get16 e (k + 6) = i_nlink ip"
      "get32 e (k + 8) = i_size ip"
    by (simp_all add: e_def get_put_other)
  then have f: "get16 w k = i_type ip" "get16 w (k + 2) = i_major ip" "get16 w (k + 4) = i_minor ip" "get16 w (k + 6) = i_nlink ip"
      "get32 w (k + 8) = i_size ip"
    using g16 g32 by simp_all
  have "(\<lambda>j. if j < NDIRECT + 2 then get32 w (k + 12 + 4 * j) else i_addrs x j) = (\<lambda>j. if j < NDIRECT + 2 then i_addrs ip j else i_addrs x j)"
    unfolding w_def put_addrs(1) by auto
  then show ?thesis unfolding w dinode_read_def f by simp
qed

lemma dinode_read_outside:
  assumes "k + 64 \<le> k' \<or> k' + 64 \<le> k"
  shows "dinode_read (dinode_write d k ip) k' x = dinode_read d k' x"
proof -
  have o: "dinode_write d k ip i = d i" if "k' \<le> i" "i < k' + 64" for i using that assms by (intro dinode_write_outside) auto
  have g16: "get16 (dinode_write d k ip) (k' + j) = get16 d (k' + j)" if "j + 2 \<le> 64" for j by (rule get16_cong) (use that o in auto)
  have g32: "get32 (dinode_write d k ip) (k' + j) = get32 d (k' + j)" if "j + 4 \<le> 64" for j by (rule get32_cong) (use that o in auto)
  have "(\<lambda>j. if j < NDIRECT + 2 then get32 (dinode_write d k ip) (k' + 12 + 4 * j) else i_addrs x j) =
      (\<lambda>j. if j < NDIRECT + 2 then get32 d (k' + 12 + 4 * j) else i_addrs x j)"
    using g32 [of "12 + 4 * j" for j] by (intro ext) (simp add: add.assoc)
  then show ?thesis using g16 [of 0] g16 [of 2] g16 [of 4] g16 [of 6] g32 [of 8] by (simp add: dinode_read_def)
qed

lemma dinode_slot:
  assumes "inum' \<noteq> inum"
  shows "IBLOCK inum' s \<noteq> IBLOCK inum s \<or> dinode_off inum + 64 \<le> dinode_off inum' \<or> dinode_off inum' + 64 \<le> dinode_off inum"
proof (cases "unat inum' mod 16 = unat inum mod 16")
  case True
  have "unat inum' div 16 \<noteq> unat inum div 16" using assms True by (metis div_mod_decomp word_unat_eq_iff)
  then have "inum' div 16 \<noteq> inum div 16" by (auto simp: word_unat_eq_iff unat_div)
  then show ?thesis by (simp add: IBLOCK_def)
next
  case False
  then show ?thesis by (auto simp: dinode_off_def)
qed

lemma iupdate_step:
  fixes s :: "'a fs_state_scheme"
  assumes tx: "fs_tx dev (Suc k) V H s" and dev: "i_dev (inodes s ip) = dev" and n: "n = IBLOCK (i_inum (inodes s ip)) s"
    and H: "\<forall>c\<in>H. b_blockno (bufs s c) \<noteq> n" "card H \<le> 2"
  shows "\<exists>s'. iupdate ip s = Ok s' \<and> fs_step dev k (V(n := dinode_write (V n) (dinode_off (i_inum (inodes s ip))) (inodes s ip))) H s s'"
proof -
  obtain bp s1 where u: "bread dev n s = Ok (bp, s1)" "data_of bp s1 = V n" "log_state.more s1 = log_state.more s"
      "\<And>d. \<exists>s2 s'. log_write bp (set_data bp d s1) = Ok s2 \<and> brelse bp s2 = Ok s' \<and> fs_step dev k (V(n := d)) H s s'"
    using tx_use [OF tx H] by blast
  let ?d = "dinode_write (V n) (dinode_off (i_inum (inodes s ip))) (inodes s ip)"
  obtain s2 s' where w: "log_write bp (set_data bp ?d s1) = Ok s2" "brelse bp s2 = Ok s'" "fs_step dev k (V(n := ?d)) H s s'" using u(4) by blast
  have "inodes s1 = inodes s" by (rule fs_fields_more(2) [OF u(3)])
  then have "iupdate ip s = Ok s'" using u(1,2) w(1,2) dev n by (simp add: iupdate_def Let_def)
  then show ?thesis using w(3) by blast
qed

text \<open>
  C3: \<^verbatim>\<open>iupdate\<close> writes an inode so that reading it back, as \<^verbatim>\<open>ilock\<close> does, gives its type,
  device numbers, link count, size and thirteen addresses; every other inode of the disk,
  those in the same block included, reads as before, and so does every other block.
\<close>

theorem iupdate_roundtrip:
  fixes s :: "'a fs_state_scheme"
  assumes tx: "fs_tx dev (k + 1) V {} s" and dev: "i_dev (inodes s ip) = dev" and inum: "inum = i_inum (inodes s ip)"
  shows "\<exists>s' V'. iupdate ip s = Ok s' \<and> fs_tx dev k V' {} s' \<and> sb s' = sb s \<and> inodes s' = inodes s \<and>
    dinode_read (V' (IBLOCK inum s)) (dinode_off inum) x = x\<lparr>i_type := i_type (inodes s ip), i_major := i_major (inodes s ip),
      i_minor := i_minor (inodes s ip), i_nlink := i_nlink (inodes s ip), i_size := i_size (inodes s ip),
      i_addrs := (\<lambda>j. if j < 13 then i_addrs (inodes s ip) j else i_addrs x j)\<rparr> \<and>
    (\<forall>i. i \<noteq> inum \<longrightarrow> dinode_read (V' (IBLOCK i s)) (dinode_off i) x = dinode_read (V (IBLOCK i s)) (dinode_off i) x) \<and>
    (\<forall>n. n \<noteq> IBLOCK inum s \<longrightarrow> V' n = V n)"
proof -
  let ?n = "IBLOCK inum s"
  let ?V = "V(?n := dinode_write (V ?n) (dinode_off inum) (inodes s ip))"
  obtain s' where s': "iupdate ip s = Ok s'" "fs_step dev k ?V {} s s'"
    using iupdate_step [of dev k V "{}" s ip ?n] tx dev inum by auto
  have "dinode_read (?V (IBLOCK i s)) (dinode_off i) x = dinode_read (V (IBLOCK i s)) (dinode_off i) x" if "i \<noteq> inum" for i
    using dinode_slot [OF that, of s] by (cases "IBLOCK i s = ?n") (auto simp: dinode_read_outside)
  moreover have "sb s' = sb s" "inodes s' = inodes s" using s'(2) fs_fields_more [of s' s] by (simp_all add: fs_step_def)
  ultimately show ?thesis
    using s' dinode_read_write [of "V ?n" "dinode_off inum" "inodes s ip" x]
    by (intro exI [of _ s'] exI [of _ ?V]) (simp add: fs_step_def)
qed

theorem iupdate_roundtrip_witness: "\<exists>s'. iupdate 3 fs_boot = Ok s' \<and> inodes s' = inodes fs_boot"
proof -
  have tx: "fs_tx 1 (19 + 1) (\<lambda>n i. if n = 45 \<and> i < 6 then - 1 else 0) {} fs_boot" using fs_boot_tx(1) by simp
  have "i_dev (inodes fs_boot 3) = 1" by (simp add: fs_boot_tx)
  then show ?thesis using iupdate_roundtrip [OF tx _ refl, of 3 inode_zero] by blast
qed

end
