(* ===== verification/Paths.thy ===== *)
theory Paths
  imports Dir
begin

text \<open>
  Path names, \<^verbatim>\<open>skipelem\<close> of \<^verbatim>\<open>kernel/fs.c\<close>: taking the elements of a path one after the
  other gives the same names as splitting the path at its slashes.
\<close>

section \<open>Splitting at slashes\<close>

fun split_slash :: "u8 list \<Rightarrow> u8 list list" where
  "split_slash [] = [[]]"
| "split_slash (c # cs) =
     (if c = 47 then [] # split_slash cs else (c # hd (split_slash cs)) # tl (split_slash cs))"

definition components :: "u8 list \<Rightarrow> u8 list list" where
  "components path = filter (\<lambda>e. e \<noteq> []) (split_slash path)"

lemma split_slash_nonempty [simp]: "split_slash cs \<noteq> []"
  by (cases cs) auto

lemma split_slash_elem:
  "47 \<notin> set e \<Longrightarrow> split_slash (e @ 47 # rest) = e # split_slash rest"
  "47 \<notin> set e \<Longrightarrow> split_slash e = [e]"
  by (induction e) auto

lemma components_simps [simp]:
  "components [] = []" "components (47 # cs) = components cs"
  by (simp_all add: components_def)

lemma components_elem:
  assumes "e \<noteq> []" "47 \<notin> set e"
  shows "components (e @ 47 # rest) = e # components rest" "components e = [e]"
  using assms by (simp_all add: components_def split_slash_elem)

lemma components_skip: "components (dropWhile (\<lambda>c. c = 47) cs) = components cs"
  by (induction cs) auto

section \<open>Taking the elements one by one\<close>

function path_names :: "u8 list \<Rightarrow> cptr \<Rightarrow> u8 list list" where
  "path_names path name =
     (case skipelem path name of None \<Rightarrow> []
      | Some (path, name) \<Rightarrow> cstr DIRSIZ name # path_names path name)"
  by pat_completeness auto
termination
  by (relation "measure (\<lambda>(path, name). length path)") (auto dest: skipelem_shorter)

declare path_names.simps [simp del]

lemma move_obj_nat:
  fixes m :: cptr and src :: cptr
  shows "move_obj m d src s n i = (if d \<le> i \<and> i < d + n then src (s + (i - d)) else m i)"
proof (induction n arbitrary: m d s)
  case (Suc n)
  have "i - d = Suc (i - (d + 1))" if "d < i" using that by simp
  then show ?case by (auto simp: Suc.IH Suc_diff_Suc algebra_simps)
qed auto

lemma cstr_take:
  assumes "\<And>i. i < min n (length xs) \<Longrightarrow> p i = xs ! i" and "0 \<notin> set xs" and "length xs < n \<Longrightarrow> p (length xs) = 0"
  shows "cstr n p = take n xs"
  using assms
proof (induction n arbitrary: p xs)
  case (Suc n)
  show ?case
  proof (cases xs)
    case Nil
    then show ?thesis using Suc.prems(3) by simp
  next
    case (Cons x ys)
    have "cstr n (\<lambda>i. p (Suc i)) = take n ys"
      using Suc.prems Cons Suc.prems(1) [of "Suc _"] by (intro Suc.IH) auto
    moreover have "p 0 = x" using Suc.prems(1) [of 0] Cons by simp
    ultimately show ?thesis using Suc.prems(2) Cons by auto
  qed
qed simp

lemma cstr_elem:
  assumes "0 \<notin> set e"
  shows "cstr DIRSIZ (if DIRSIZ \<le> length e then move_obj name 0 (cbytes e) 0 DIRSIZ
    else (move_obj name 0 (cbytes e) 0 (length e))(length e := 0)) = take DIRSIZ e"
  by (rule cstr_take) (use assms in \<open>auto simp: move_obj_nat cbytes_def\<close>)

lemma skipelem_name:
  assumes "skipelem path name = Some (path', name')" and "0 \<notin> set path"
  shows "\<exists>e. e \<noteq> [] \<and> components path = e # components path' \<and> cstr DIRSIZ name' = take DIRSIZ e \<and> set path' \<subseteq> set path"
proof -
  let ?p = "dropWhile (\<lambda>c. c = (47::u8)) path"
  let ?e = "takeWhile (\<lambda>c. c \<noteq> (47::u8)) ?p" and ?r = "dropWhile (\<lambda>c. c \<noteq> (47::u8)) ?p"
  let ?n = "if DIRSIZ \<le> length ?e then move_obj name 0 (cbytes ?e) 0 DIRSIZ
            else (move_obj name 0 (cbytes ?e) 0 (length ?e))(length ?e := 0)"
  have ne: "?p \<noteq> []"
  proof
    assume "?p = []"
    then have "skipelem path name = None" unfolding skipelem_def Let_def by (rule if_P)
    then show False using assms(1) by simp
  qed
  then have "skipelem path name = Some (dropWhile (\<lambda>c. c = 47) ?r, ?n)" unfolding skipelem_def Let_def by (rule if_not_P)
  with assms(1) have p': "path' = dropWhile (\<lambda>c. c = 47) ?r" and n': "name' = ?n" by (simp_all only: option.inject prod.inject)
  have "hd ?p \<noteq> 47" using hd_dropWhile [OF ne] .
  then have e: "?e \<noteq> []" using ne by (cases ?p) auto
  have e47: "47 \<notin> set ?e" by (auto dest: set_takeWhileD)
  have app: "?p = ?e @ ?r" by simp
  have "components path = components ?p" by (simp add: components_skip)
  also have "\<dots> = ?e # components path'"
  proof (cases ?r)
    case Nil
    then have "components ?p = [?e]" using components_elem(2) [OF e e47] app by (metis append_Nil2)
    then show ?thesis unfolding p' Nil by simp
  next
    case (Cons c r)
    then have "c = 47" using hd_dropWhile [of "\<lambda>c. c \<noteq> 47" ?p] by (metis list.sel(1) list.distinct(1))
    then have "components ?p = ?e # components r" using components_elem(1) [OF e e47] app Cons by metis
    then show ?thesis using Cons p' \<open>c = 47\<close> by (simp add: components_skip)
  qed
  finally have comp: "components path = ?e # components path'" .
  have sub: "set ?p \<subseteq> set path" "set path' \<subseteq> set ?p"
    unfolding p' by (auto dest: set_dropWhileD)
  have "0 \<notin> set ?e" using sub(1) assms(2) by (auto dest: set_takeWhileD)
  then have "cstr DIRSIZ name' = take DIRSIZ ?e"
    unfolding n' by (rule cstr_elem)
  then show ?thesis using comp e sub by blast
qed

text \<open>
  C13: The names that path resolution takes from a path, one \<^verbatim>\<open>skipelem\<close> after the other,
  are the non-empty parts between slashes, each cut to \<^verbatim>\<open>DIRSIZ\<close> bytes, whatever the
  buffer held before.
\<close>

theorem skipelem_splits_path:
  assumes "0 \<notin> set path"
  shows "path_names path name = map (take DIRSIZ) (components path)"
  using assms
proof (induction path name rule: path_names.induct)
  case (1 path name)
  show ?case
  proof (cases "skipelem path name")
    case None
    then have "dropWhile (\<lambda>c. c = 47) path = []" by (auto simp: skipelem_def Let_def split: if_splits)
    then have "components path = []" using components_skip [of path] by (metis components_simps(1))
    then show ?thesis using None by (subst path_names.simps) simp
  next
    case (Some pn)
    obtain path' name' where pn: "skipelem path name = Some (path', name')" using Some by (cases pn) auto
    from skipelem_name [OF this 1(2)] obtain e where
      e: "components path = e # components path'" "cstr DIRSIZ name' = take DIRSIZ e" "set path' \<subseteq> set path" by blast
    have "path_names path' name' = map (take DIRSIZ) (components path')" using 1(1) [OF pn refl] e(3) 1(2) by blast
    then show ?thesis using e pn by (subst path_names.simps) simp
  qed
qed

theorem skipelem_splits_path_witness:
  "path_names (47 # 47 # replicate 15 97 @ 47 # [98, 99]) (\<lambda>_. 0) = [replicate 14 97, [98, 99]]"
proof -
  define e where "e = replicate 15 (97 :: u8)"
  have e: "e \<noteq> []" "47 \<notin> set e" "0 \<notin> set e" "take 14 e = replicate 14 97" unfolding e_def by simp_all
  have "components [98, 99] = [[98, 99]]" by (rule components_elem(2)) simp_all
  then have "components (47 # 47 # e @ 47 # [98, 99]) = [e, [98, 99]]" using components_elem(1) [OF e(1,2)] by simp
  moreover have "0 \<notin> set (47 # 47 # e @ 47 # [98, 99])" using e(3) by simp
  ultimately show ?thesis using skipelem_splits_path [of "47 # 47 # e @ 47 # [98, 99]" "\<lambda>_. 0"] e(4) unfolding e_def by simp
qed

end
