(* ===== verification/Numfmt.thy ===== *)
theory Numfmt
  imports Printf
begin

text \<open>
  Correctness of the number formatting of \<^verbatim>\<open>kernel/printf.c\<close>: the digits denote the
  number, they fit in the buffer on the stack, and they reach the serial line in order.
\<close>

section \<open>Reading numbers back\<close>

definition digit_val :: "u8 \<Rightarrow> nat" where
  "digit_val c = (if unat c \<le> 57 then unat c - 48 else unat c - 87)"

definition read_digits :: "nat \<Rightarrow> u8 list \<Rightarrow> nat" where
  "read_digits base cs = fold (\<lambda>c v. v * base + digit_val c) cs 0"

text \<open>A number with an optional sign.\<close>

definition read_number :: "nat \<Rightarrow> u8 list \<Rightarrow> int" where
  "read_number base cs =
     (case cs of [] \<Rightarrow> 0 | c # ds \<Rightarrow> if c = 45 then - int (read_digits base ds) else int (read_digits base cs))"

section \<open>Digits\<close>

lemma digits_table: "\<forall>k\<in>set [0..<16]. digit_val (digits k) = k \<and> digits k \<noteq> 45"
  by code_simp

lemma digit_val_digits: "k < 16 \<Longrightarrow> digit_val (digits k) = k"
  and digits_not_minus: "k < 16 \<Longrightarrow> digits k \<noteq> 45"
  using digits_table by (simp_all del: upt_rec_numeral)

lemma read_digits_snoc: "read_digits base (cs @ [c]) = read_digits base cs * base + digit_val c"
  by (simp add: read_digits_def)

lemma read_digit_loop:
  assumes "2 \<le> base" "base \<le> 16"
  shows "read_digits base (rev (digit_loop base x)) = x"
  using assms
proof (induction base x rule: digit_loop.induct)
  case (1 base x)
  have m: "x mod base < 16" using 1(2,3) mod_less_divisor [of base x] by linarith
  show ?case
  proof (cases "x div base = 0")
    case True
    then have "x mod base = x" using div_mult_mod_eq [of x base] by simp
    then show ?thesis using True m by (subst digit_loop.simps) (simp add: read_digits_def digit_val_digits)
  next
    case False
    then have "read_digits base (rev (digit_loop base (x div base))) = x div base" using 1 by simp
    then show ?thesis
      using False 1(2) m by (subst digit_loop.simps) (simp add: read_digits_snoc digit_val_digits)
  qed
qed

lemma length_digit_loop: "2 \<le> base \<Longrightarrow> x < base ^ Suc n \<Longrightarrow> length (digit_loop base x) \<le> Suc n"
proof (induction n arbitrary: x)
  case 0
  then show ?case by (subst digit_loop.simps) simp
next
  case (Suc n)
  then have "x div base < base ^ Suc n" by (simp add: less_mult_imp_div_less mult.commute)
  then show ?case using Suc by (subst digit_loop.simps) simp
qed

lemma digit_loop_not_minus: "2 \<le> base \<Longrightarrow> base \<le> 16 \<Longrightarrow> 45 \<notin> set (digit_loop base x)"
proof (induction base x rule: digit_loop.induct)
  case (1 base x)
  have "x mod base < 16" using 1(2,3) mod_less_divisor [of base x] by linarith
  then have "digits (x mod base) \<noteq> 45" by (rule digits_not_minus)
  then show ?case using 1 by (subst digit_loop.simps) auto
qed

lemma digit_loop_nonempty [simp]: "digit_loop base x \<noteq> []"
  by (subst digit_loop.simps) simp

lemma read_number_digits:
  assumes "2 \<le> base" "base \<le> 16"
  shows "read_number base (rev (digit_loop base x)) = int x"
    and "read_number base (45 # rev (digit_loop base x)) = - int x"
proof -
  show "read_number base (rev (digit_loop base x)) = int x"
  proof (cases "rev (digit_loop base x)")
    case (Cons c cs)
    then have "c \<noteq> 45" using digit_loop_not_minus [OF assms, of x] by (metis list.set_intros(1) set_rev)
    then show ?thesis using Cons read_digit_loop [OF assms, of x] by (simp add: read_number_def)
  qed simp
  show "read_number base (45 # rev (digit_loop base x)) = - int x"
    using read_digit_loop [OF assms, of x] by (simp add: read_number_def)
qed

lemma uint_sint_mod: "uint x = sint x mod 4294967296" for x :: i32
proof -
  have "uint (word_of_int (sint x) :: i32) = sint x mod 4294967296" by (simp only: unsigned_of_int take_bit_eq_mod) simp
  then show ?thesis by simp
qed

lemma unat_neg_sint:
  fixes x :: i32
  assumes "sint x < 0"
  shows "int (unat (- x)) = - sint x"
proof -
  have "uint (word_of_int (- sint x) :: i32) = (- sint x) mod 4294967296" by (simp only: unsigned_of_int take_bit_eq_mod) simp
  then have "uint (- x) = (- sint x) mod 4294967296" by simp
  moreover have "- sint x \<le> 2147483648" using sint_ge [of x] by simp
  ultimately show ?thesis using assms by simp
qed

lemma unat_sint: "0 \<le> sint x \<Longrightarrow> int (unat x) = sint x" for x :: i32
  using uint_sint_mod [of x] sint_lt [of x] by simp

lemma read_printint_buf:
  assumes "2 \<le> base" "base \<le> 16"
  shows "read_number base (rev (printint_buf xx base sg)) = (if sg then sint xx else uint xx)"
  using read_number_digits [OF assms] unat_neg_sint [of xx] unat_sint [of xx]
  by (auto simp: printint_buf_def Let_def not_less)

lemma length_printint_buf:
  assumes "base = 10 \<or> base = 16"
  shows "length (printint_buf xx base sg) \<le> 11"
proof -
  have lt: "unat x < 4294967296" for x :: i32 using unsigned_less [of x] by simp
  have "length (digit_loop base (unat x)) \<le> 10" for x :: i32
    using assms
  proof
    assume "base = 10"
    then show ?thesis using length_digit_loop [of 10 "unat x" 9] lt [of x] by simp
  next
    assume "base = 16"
    then show ?thesis using length_digit_loop [of 16 "unat x" 7] lt [of x] by simp
  qed
  from this [of xx] this [of "- xx"] show ?thesis by (simp add: printint_buf_def Let_def)
qed

section \<open>Output\<close>

text \<open>A device that is always ready.\<close>

definition uart_ready :: "'a uart_state_scheme \<Rightarrow> bool" where
  "uart_ready s \<longleftrightarrow> panicked s = 0 \<and> (\<forall>n. uart_idle s n)"

lemma consputc_ready:
  assumes "uart_ready s" and "c \<noteq> 0x100"
  shows "\<exists>s'. consputc c s = Ok s' \<and> uart_ready s' \<and> uart_sent s' = uart_sent s @ [ucast c]"
  using assms by (simp add: consputc_def uartputc_sync_def tx_idle_def WriteTHR_def uart_ready_def)

lemma put_bytes_ready:
  assumes "uart_ready s"
  shows "\<exists>s'. fold_res (\<lambda>c. consputc (ucast c)) cs s = Ok s' \<and> uart_ready s' \<and> uart_sent s' = uart_sent s @ cs"
  using assms
proof (induction cs arbitrary: s)
  case (Cons c cs)
  have "unat c < 2 ^ LENGTH(8)" by (rule unsigned_less)
  then have "unat (ucast c :: i32) < 256" "ucast (ucast c :: i32) = c"
    by (simp_all add: word_unat_eq_iff unsigned_ucast_eq take_bit_nat_eq_self take_bit_word_eq_self)
  then have u: "(ucast c :: i32) \<noteq> 0x100" "ucast (ucast c :: i32) = c" by auto
  from consputc_ready [OF Cons.prems u(1)] obtain s1 where
    s1: "consputc (ucast c) s = Ok s1" "uart_ready s1" "uart_sent s1 = uart_sent s @ [c]" unfolding u(2) by blast
  then show ?case using Cons.IH [OF s1(2)] by auto
qed simp

text \<open>
  C27: For the bases that \<^verbatim>\<open>printf\<close> uses, \<^verbatim>\<open>printint\<close> sends to a ready device digits that
  denote the number, signed or unsigned, the least one included, and it never stores outside
  its buffer of 16 characters.
\<close>

theorem printint_prints:
  assumes "uart_ready s" and "base = 10 \<or> base = 16"
  shows "\<exists>s' out. printint xx base sg s = Ok s' \<and> uart_sent s' = uart_sent s @ out \<and>
    read_number base out = (if sg then sint xx else uint xx) \<and> length out \<le> 16"
proof -
  let ?out = "rev (printint_buf xx base sg)"
  obtain s' where "printint xx base sg s = Ok s'" "uart_sent s' = uart_sent s @ ?out"
    using put_bytes_ready [OF assms(1)] unfolding printint_def by blast
  moreover have "read_number base ?out = (if sg then sint xx else uint xx)" by (rule read_printint_buf) (use assms(2) in auto)
  moreover have "length ?out \<le> 16" using length_printint_buf [OF assms(2), of xx sg] by simp
  ultimately show ?thesis by blast
qed

theorem printint_prints_witness:
  "\<exists>s' out. printint 0x80000000 10 True uart_zero = Ok s' \<and> uart_sent s' = out \<and> read_number 10 out = - 2147483648"
proof -
  have "uart_ready uart_zero" "uart_sent uart_zero = []" by (simp_all add: uart_ready_def zero_simps)
  then show ?thesis using printint_prints [of uart_zero 10 "0x80000000" True] by auto
qed

end
