(* ===== verification/Tty.thy ===== *)
theory Tty
  imports Console Ring Numfmt
begin

text \<open>
  The serial line and the console, \<^verbatim>\<open>kernel/uart.c\<close> and \<^verbatim>\<open>kernel/console.c\<close>: output is
  queued and sent in order, and the input buffer with its three indices is a line editor in
  front of a queue of finished lines.
\<close>

section \<open>Output\<close>

definition uart_contents :: "'a uart_state_scheme \<Rightarrow> u8 list" where
  "uart_contents s = ring_list UART_TX_BUF_SIZE (uart_tx_buf s) (uart_tx_r s) (uart_tx_w s)"

definition uart_empty :: "'a uart_state_scheme \<Rightarrow> bool" where
  "uart_empty s \<longleftrightarrow> uart_tx_w s = uart_tx_r s"

lemma uart_full_iff:
  assumes "length (uart_contents s) \<le> UART_TX_BUF_SIZE"
  shows "uart_full s \<longleftrightarrow> length (uart_contents s) = UART_TX_BUF_SIZE"
proof -
  have "uart_tx_w s = uart_tx_r s + 32 \<longleftrightarrow> uart_tx_w s - uart_tx_r s = 32" by (simp add: algebra_simps)
  also have "\<dots> \<longleftrightarrow> unat (uart_tx_w s - uart_tx_r s) = 32" by (simp add: word_unat_eq_iff)
  finally show ?thesis by (simp add: uart_full_def uart_contents_def)
qed

lemma uart_empty_iff: "uart_empty s \<longleftrightarrow> uart_contents s = []"
  by (auto simp: uart_empty_def uart_contents_def)

lemma uart_contents_push:
  "length (uart_contents s) < UART_TX_BUF_SIZE \<Longrightarrow> uart_contents (uart_push c s) = uart_contents s @ [c]"
  unfolding uart_contents_def uart_push_def by (simp add: ring_list_put)

lemma uart_contents_pop:
  "uart_contents s \<noteq> [] \<Longrightarrow> uart_contents s = fst (uart_pop s) # uart_contents (snd (uart_pop s))"
  by (simp add: uart_contents_def uart_pop_def ring_list_get)

interpretation uq: fifo uart_push uart_pop uart_full uart_empty uart_contents UART_TX_BUF_SIZE
  by unfold_locales (rule uart_full_iff uart_empty_iff uart_contents_push uart_contents_pop; assumption)+

text \<open>Everything that was handed to the driver: what the device got and what is still queued.\<close>

definition uart_stream :: "'a uart_state_scheme \<Rightarrow> u8 list" where
  "uart_stream s = uart_sent s @ uart_contents s"

lemma uart_wakeup [simp]:
  "uart_tx_buf (wakeup c s) = uart_tx_buf s" "uart_tx_r (wakeup c s) = uart_tx_r s" "uart_tx_w (wakeup c s) = uart_tx_w s"
  "uart_sent (wakeup c s) = uart_sent s" "uart_idle (wakeup c s) = uart_idle s" "panicked (wakeup c s) = panicked s"
  by (simp_all add: wakeup_eq)

lemma uartstart_loop_stream:
  assumes "k = length (uart_contents s)"
  shows "uart_stream (uartstart_loop k s) = uart_stream s \<and> length (uart_contents (uartstart_loop k s)) \<le> k \<and>
    ((\<forall>n. uart_idle s n) \<longrightarrow> uart_contents (uartstart_loop k s) = [])"
  using assms
proof (induction k arbitrary: s)
  case (Suc k)
  let ?s1 = "snd (tx_idle s)"
  have c1: "uart_contents ?s1 = uart_contents s" "uart_sent ?s1 = uart_sent s" by (simp_all add: tx_idle_def uart_contents_def)
  show ?case
  proof (cases "uart_idle s 0")
    case False
    then have "uartstart_loop (Suc k) s = ?s1" by (simp add: tx_idle_def)
    then show ?thesis using Suc.prems c1 False by (auto simp: uart_stream_def)
  next
    case True
    obtain c s2 where p: "uart_pop ?s1 = (c, s2)" by (cases "uart_pop ?s1")
    have ne: "uart_contents ?s1 \<noteq> []" using Suc.prems c1 by auto
    have c2: "uart_contents s = c # uart_contents s2" using uart_contents_pop [OF ne] p c1 by simp
    have f2: "uart_sent s2 = uart_sent s" "uart_idle s2 = (\<lambda>n. uart_idle s (Suc n))"
      using p by (auto simp: uart_pop_def tx_idle_def)
    let ?s3 = "WriteTHR c (wakeup Uart_tx_r s2)"
    have c3: "uart_contents ?s3 = uart_contents s2" "uart_sent ?s3 = uart_sent s @ [c]" "uart_idle ?s3 = (\<lambda>n. uart_idle s (Suc n))"
      by (simp_all add: WriteTHR_def uart_contents_def f2)
    have "uartstart_loop (Suc k) s = uartstart_loop k ?s3" using True p by (simp add: tx_idle_def)
    moreover have "k = length (uart_contents ?s3)" using Suc.prems c2 c3 by simp
    ultimately show ?thesis using Suc.IH [of ?s3] c2 c3 by (auto simp: uart_stream_def)
  qed
qed (simp add: uart_stream_def)

lemma uartstart_stream:
  "uart_stream (uartstart s) = uart_stream s" "length (uart_contents (uartstart s)) \<le> length (uart_contents s)"
  "(\<forall>n. uart_idle s n) \<Longrightarrow> uart_contents (uartstart s) = []"
proof -
  have "unat (uart_tx_w s - uart_tx_r s) = length (uart_contents s)" by (simp add: uart_contents_def)
  then show "uart_stream (uartstart s) = uart_stream s" "length (uart_contents (uartstart s)) \<le> length (uart_contents s)"
    "(\<forall>n. uart_idle s n) \<Longrightarrow> uart_contents (uartstart s) = []"
    using uartstart_loop_stream [of _ s] by (auto simp: uartstart_def)
qed

text \<open>
  C14: Console output is neither lost, duplicated nor reordered.  With room in the buffer,
  \<^verbatim>\<open>uartputc\<close> adds its byte behind everything handed to the driver before; it waits
  exactly when the buffer is full or the kernel has panicked.  \<^verbatim>\<open>uartstart\<close>, which the
  interrupt handler calls, moves bytes from the buffer to the device and changes nothing else
  of the stream, and it empties the buffer when the device stays ready.
\<close>

theorem uart_output_in_order:
  assumes "length (uart_contents s) \<le> UART_TX_BUF_SIZE"
  shows "(panicked s = 0 \<and> length (uart_contents s) < UART_TX_BUF_SIZE \<longrightarrow>
       (\<exists>s'. uartputc c s = Ok s' \<and> uart_stream s' = uart_stream s @ [ucast c] \<and> length (uart_contents s') \<le> UART_TX_BUF_SIZE)) \<and>
    (panicked s \<noteq> 0 \<or> length (uart_contents s) = UART_TX_BUF_SIZE \<longrightarrow> (\<exists>w. uartputc c s = Waits w)) \<and>
    uart_stream (uartstart s) = uart_stream s \<and> ((\<forall>n. uart_idle s n) \<longrightarrow> uart_contents (uartstart s) = [])"
proof -
  have full: "uart_full s \<longleftrightarrow> length (uart_contents s) = UART_TX_BUF_SIZE" by (rule uart_full_iff [OF assms])
  let ?s = "uart_push (ucast c) s"
  have "uartputc c s = Ok (uartstart ?s) \<and> uart_stream (uartstart ?s) = uart_stream s @ [ucast c] \<and>
      length (uart_contents (uartstart ?s)) \<le> UART_TX_BUF_SIZE"
    if "panicked s = 0" "length (uart_contents s) < UART_TX_BUF_SIZE"
  proof -
    note p = uart_contents_push [OF that(2), of "ucast c"]
    have "uart_sent ?s = uart_sent s" by (simp add: uart_push_def)
    then have "uart_stream ?s = uart_stream s @ [ucast c]" using p by (simp add: uart_stream_def)
    then show ?thesis
      using that full p uartstart_stream(1,2) [of ?s] by (simp add: uartputc_def)
  qed
  moreover have "\<exists>w. uartputc c s = Waits w" if "panicked s \<noteq> 0 \<or> length (uart_contents s) = UART_TX_BUF_SIZE"
    using that full by (auto simp: uartputc_def)
  ultimately show ?thesis using uartstart_stream(1,3) [of s] by blast
qed

theorem uart_output_in_order_witness:
  "\<exists>s'. uartputc 65 uart_zero = Ok s' \<and> uart_stream s' = [65]"
proof -
  have z: "uart_contents uart_zero = []" "uart_sent uart_zero = []" "panicked uart_zero = 0"
    by (simp_all add: zero_simps uart_contents_def)
  then show ?thesis using uart_output_in_order [of uart_zero 65] by (auto simp: uart_stream_def)
qed

section \<open>Line editing\<close>

text \<open>
  The abstract console: the bytes of finished lines that no reader has taken yet, and the line
  that is being typed.
\<close>

type_synonym editor = "u8 list \<times> u8 list"

fun type_char :: "u8 \<Rightarrow> editor \<Rightarrow> editor" where
  "type_char c (done_lines, line) =
     (if c = 21 then (done_lines, [])
      else if c = 8 \<or> c = 127 then (done_lines, butlast line)
      else if c = 0 \<or> length (done_lines @ line) = INPUT_BUF then (done_lines, line)
      else let c = (if c = 13 then 10 else c)
           in if c = 10 \<or> c = 4 \<or> Suc (length (done_lines @ line)) = INPUT_BUF
              then (done_lines @ line @ [c], []) else (done_lines, line @ [c]))"

definition cons_editor :: "'a console_state_scheme \<Rightarrow> editor" where
  "cons_editor s = (ring_list INPUT_BUF (cons_buf s) (cons_r s) (cons_w s),
     ring_list INPUT_BUF (cons_buf s) (cons_w s) (cons_e s))"

definition cons_ok :: "'a console_state_scheme \<Rightarrow> bool" where
  "cons_ok s \<longleftrightarrow> length (fst (cons_editor s) @ snd (cons_editor s)) \<le> INPUT_BUF \<and> 10 \<notin> set (snd (cons_editor s))"

lemma ring_list_split:
  fixes r w e :: u32
  assumes "unat (w - r) + unat (e - w) \<le> 128"
  shows "ring_list N buf r e = ring_list N buf r w @ ring_list N buf w e" "unat (e - r) = unat (w - r) + unat (e - w)"
proof -
  have "unat (e - r) = unat ((w - r) + (e - w))" by simp
  also have "\<dots> = unat (w - r) + unat (e - w)" using assms by (subst unat_add_lem [THEN iffD1]) simp_all
  finally show u: "unat (e - r) = unat (w - r) + unat (e - w)" .
  have e: "[0..<unat (e - r)] = [0..<unat (w - r)] @ map (\<lambda>i. i + unat (w - r)) [0..<unat (e - w)]"
    unfolding u map_add_upt using upt_add_eq_append [of 0 "unat (w - r)" "unat (e - w)"] by (simp add: add.commute)
  have "r + (of_nat i + of_nat (unat (w - r))) = w + of_nat i" for i by simp
  then show "ring_list N buf r e = ring_list N buf r w @ ring_list N buf w e"
    unfolding ring_list_def e by (simp add: comp_def add.commute)
qed

lemma ring_list_drop_last:
  fixes w e :: u32
  assumes "e \<noteq> w"
  shows "ring_list N buf w (e - 1) = butlast (ring_list N buf w e)" "unat (e - 1 - w) = unat (e - w) - 1"
proof -
  have "e - w \<noteq> 0" using assms by simp
  then show u: "unat (e - 1 - w) = unat (e - w) - 1" using unat_minus_one [of "e - w"] by (simp add: algebra_simps)
  have "0 < unat (e - w)" using assms by (simp add: unat_gt_0)
  then obtain n where n: "unat (e - w) = Suc n" by (cases "unat (e - w)") auto
  show "ring_list N buf w (e - 1) = butlast (ring_list N buf w e)" unfolding ring_list_def u n by simp
qed

lemma uartputc_sync_ready:
  assumes "uart_ready s"
  shows "uartputc_sync c s = Ok (s\<lparr>uart_sent := uart_sent s @ [ucast c]\<rparr>)"
proof -
  have i: "uart_idle s = (\<lambda>n. True)" and p: "panicked s = 0" using assms by (auto simp: uart_ready_def)
  have "s\<lparr>uart_idle := uart_idle s\<rparr> = s" by (cases s) simp
  then have "tx_idle s = (True, s)" unfolding tx_idle_def i by simp
  then show ?thesis using p by (simp add: uartputc_sync_def WriteTHR_def)
qed

lemma uart_ready_sent [simp]: "uart_ready (s\<lparr>uart_sent := out\<rparr>) \<longleftrightarrow> uart_ready s"
  by (simp add: uart_ready_def)

lemma consputc_only_output:
  assumes "uart_ready s"
  shows "\<exists>out. consputc c s = Ok (s\<lparr>uart_sent := out\<rparr>)"
  using assms by (auto simp: consputc_def uartputc_sync_ready)

lemma kill_line_clears:
  assumes "uart_ready s" and "k = unat (cons_e s - cons_w s)" and "10 \<notin> set (snd (cons_editor s))"
  shows "\<exists>s'. kill_line k s = Ok s' \<and> cons_buf s' = cons_buf s \<and> cons_r s' = cons_r s \<and> cons_w s' = cons_w s \<and> cons_e s' = cons_w s"
  using assms
proof (induction k arbitrary: s)
  case 0
  then show ?case by (auto simp: unat_eq_zero)
next
  case (Suc k)
  have ne: "cons_e s \<noteq> cons_w s" using Suc.prems(2) by auto
  let ?t = "s\<lparr>cons_e := cons_e s - 1\<rparr>"
  have l: "snd (cons_editor s) \<noteq> []" using ne by (auto simp: cons_editor_def)
  have "(of_nat (Suc k) :: u32) = cons_e s - cons_w s" unfolding Suc.prems(2) by simp
  then have k: "cons_w s + of_nat k = cons_e s - 1" by (simp add: algebra_simps)
  have "last (snd (cons_editor s)) = cons_buf s (unat (cons_e s - 1) mod INPUT_BUF)"
    unfolding cons_editor_def ring_list_def Suc.prems(2) [symmetric] using k by simp
  then have no: "cons_buf s (unat (cons_e s - 1) mod INPUT_BUF) \<noteq> 10" using last_in_set [OF l] Suc.prems(3) by metis
  obtain out where o: "consputc BACKSPACE ?t = Ok (?t\<lparr>uart_sent := out\<rparr>)"
    using consputc_only_output [of ?t] Suc.prems(1) by (auto simp: uart_ready_def)
  let ?u = "?t\<lparr>uart_sent := out\<rparr>"
  have "snd (cons_editor ?u) = butlast (snd (cons_editor s))" using ring_list_drop_last(1) [OF ne] by (simp add: cons_editor_def)
  then have "10 \<notin> set (snd (cons_editor ?u))" using Suc.prems(3) in_set_butlastD by metis
  moreover have "k = unat (cons_e ?u - cons_w ?u)" using ring_list_drop_last(2) [OF ne] Suc.prems(2) by simp
  moreover have "uart_ready ?u" using Suc.prems(1) by (simp add: uart_ready_def)
  ultimately show ?case using Suc.IH [of ?u] no o by simp
qed

lemma byte_i32:
  fixes b :: u8
  shows "ucast (ucast b :: i32) = b" "(ucast b :: i32) = 10 \<longleftrightarrow> b = 10" "(ucast b :: i32) = 4 \<longleftrightarrow> b = 4"
    "(ucast b :: i32) = 13 \<longleftrightarrow> b = 13" "(ucast b :: i32) = 0 \<longleftrightarrow> b = 0" "(ucast b :: i32) = 16 \<longleftrightarrow> b = 16"
    "(ucast b :: i32) = 21 \<longleftrightarrow> b = 21" "(ucast b :: i32) = 8 \<longleftrightarrow> b = 8" "(ucast b :: i32) = 0x7f \<longleftrightarrow> b = 127"
proof -
  have "unat b < 2 ^ LENGTH(8)" by (rule unsigned_less)
  then have u: "unat (ucast b :: i32) = unat b" by (simp add: unsigned_ucast_eq take_bit_nat_eq_self take_bit_word_eq_self)
  show "ucast (ucast b :: i32) = b" "(ucast b :: i32) = 10 \<longleftrightarrow> b = 10" "(ucast b :: i32) = 4 \<longleftrightarrow> b = 4"
    "(ucast b :: i32) = 13 \<longleftrightarrow> b = 13" "(ucast b :: i32) = 0 \<longleftrightarrow> b = 0" "(ucast b :: i32) = 16 \<longleftrightarrow> b = 16"
    "(ucast b :: i32) = 21 \<longleftrightarrow> b = 21" "(ucast b :: i32) = 8 \<longleftrightarrow> b = 8" "(ucast b :: i32) = 0x7f \<longleftrightarrow> b = 127"
    using \<open>unat b < 2 ^ LENGTH(8)\<close> by (simp_all add: word_unat_eq_iff u unsigned_ucast_eq take_bit_nat_eq_self take_bit_word_eq_self)
qed

lemma cons_ok_lengths:
  assumes "cons_ok s"
  shows "unat (cons_w s - cons_r s) + unat (cons_e s - cons_w s) \<le> 128"
    "unat (cons_e s - cons_r s) = unat (cons_w s - cons_r s) + unat (cons_e s - cons_w s)"
  using assms ring_list_split(2) [of "cons_w s" "cons_r s" "cons_e s"] by (simp_all add: cons_ok_def cons_editor_def)

text \<open>Storing a byte appends it to the line, or finishes the line with it.\<close>

lemma cons_store_editor:
  fixes s :: "'a console_state_scheme"
  assumes "cons_ok s" and "unat (cons_e s - cons_r s) < 128" and c: "c = ucast b"
  shows "cons_editor (cons_store c s) =
    (let (q, l) = cons_editor s
     in if b = 10 \<or> b = 4 \<or> Suc (length (q @ l)) = INPUT_BUF then (q @ l @ [b], []) else (q, l @ [b]))"
proof -
  let ?r = "cons_r s" and ?w = "cons_w s" and ?e = "cons_e s"
  let ?buf = "(cons_buf s)(unat ?e mod 128 := b)"
  note len = cons_ok_lengths [OF assms(1)]
  have b: "ucast c = b" "c = 10 \<longleftrightarrow> b = 10" "c = 4 \<longleftrightarrow> b = 4" using byte_i32 [of b] unfolding c by simp_all
  have we: "ring_list 128 ?buf ?w (?e + 1) = ring_list 128 (cons_buf s) ?w ?e @ [b]"
    and re: "ring_list 128 ?buf ?r (?e + 1) = ring_list 128 (cons_buf s) ?r ?e @ [b]"
    using assms(2) len by (simp_all add: ring_list_put)
  have "unat (?e + 1 - ?w) = Suc (unat (?e - ?w))" using arg_cong [OF we, of length] by simp
  then have ub: "unat (?w - ?r) + unat (?e + 1 - ?w) \<le> 128" using assms(2) len by simp
  have "ring_list 128 ?buf ?r ?w @ ring_list 128 (cons_buf s) ?w ?e @ [b] =
      ring_list 128 (cons_buf s) ?r ?w @ ring_list 128 (cons_buf s) ?w ?e @ [b]"
    using re ring_list_split(1) [OF ub, of 128 ?buf] ring_list_split(1) [OF len(1), of 128 "cons_buf s"] we by simp
  then have rw: "ring_list 128 ?buf ?r ?w = ring_list 128 (cons_buf s) ?r ?w" by simp
  have full: "?e + 1 = ?r + 128 \<longleftrightarrow> Suc (unat (?e - ?r)) = 128"
  proof -
    have "unat (?e + 1 - ?r) = Suc (unat (?e - ?r))" using arg_cong [OF re, of length] by simp
    moreover have "?e + 1 = ?r + 128 \<longleftrightarrow> ?e + 1 - ?r = 128" by (simp add: algebra_simps)
    ultimately show ?thesis by (simp add: word_unat_eq_iff)
  qed
  show ?thesis
    using re rw we full len ring_list_split(1) [OF len(1), of 128 "cons_buf s"]
    by (simp add: cons_store_def cons_editor_def Let_def b wakeup_eq)
qed

lemma type_char_ok:
  assumes "length (q @ l) \<le> 128" and "10 \<notin> set l" and "type_char b (q, l) = (q', l')"
  shows "length (q' @ l') \<le> 128 \<and> 10 \<notin> set l'"
  using assms by (auto simp: Let_def split: if_splits dest: in_set_butlastD)

lemma consoleintr_editor:
  fixes s :: "'a console_state_scheme"
  assumes r: "uart_ready s" and ok: "cons_ok s" and "b \<noteq> 16"
  shows "\<exists>s'. consoleintr (ucast b) s = Ok s' \<and> cons_editor s' = type_char b (cons_editor s)"
proof -
  let ?c = "ucast b :: i32"
  note len = cons_ok_lengths [OF ok]
  consider "b = 21" | "b \<noteq> 21" "b = 8 \<or> b = 127" | "b \<noteq> 21" "\<not> (b = 8 \<or> b = 127)" by blast
  then show ?thesis
  proof cases
    case 1
    obtain s' where "kill_line (unat (cons_e s - cons_w s)) s = Ok s'" "cons_buf s' = cons_buf s"
        "cons_r s' = cons_r s" "cons_w s' = cons_w s" "cons_e s' = cons_w s"
      using kill_line_clears [OF r refl] ok by (auto simp: cons_ok_def)
    then show ?thesis using 1 by (auto simp: consoleintr_def byte_i32 cons_editor_def)
  next
    case 2
    show ?thesis
    proof (cases "cons_e s = cons_w s")
      case True
      then show ?thesis using 2 assms(3) by (auto simp: consoleintr_def byte_i32 cons_editor_def ring_list_def)
    next
      case False
      let ?t = "s\<lparr>cons_e := cons_e s - 1\<rparr>"
      obtain out where "consputc BACKSPACE ?t = Ok (?t\<lparr>uart_sent := out\<rparr>)"
        using consputc_only_output [of ?t] r by (auto simp: uart_ready_def)
      then show ?thesis using 2 assms(3) False ring_list_drop_last(1) [OF False]
        by (auto simp: consoleintr_def byte_i32 cons_editor_def)
    qed
  next
    case 3
    have room: "cons_e s - cons_r s < 128 \<longleftrightarrow> length (fst (cons_editor s) @ snd (cons_editor s)) \<noteq> 128"
      using len by (simp add: word_less_nat_alt cons_editor_def) linarith
    show ?thesis
    proof (cases "b \<noteq> 0 \<and> cons_e s - cons_r s < 128")
      case False
      then show ?thesis using 3 assms(3) room by (auto simp: consoleintr_def byte_i32 split_beta cons_editor_def)
    next
      case True
      define b' where "b' = (if b = 13 then 10 else b)"
      have b': "(if ?c = 13 then 10 else ?c) = ucast b'" by (simp add: b'_def byte_i32)
      obtain out where o: "consputc (ucast b') s = Ok (s\<lparr>uart_sent := out\<rparr>)" using consputc_only_output [OF r] by blast
      let ?t = "s\<lparr>uart_sent := out\<rparr>"
      have e: "cons_editor ?t = cons_editor s" "cons_ok ?t" using ok by (simp_all add: cons_editor_def cons_ok_def)
      have "consoleintr ?c s = Ok (cons_store (ucast b') ?t)"
        using 3 True assms(3) o b' by (simp add: consoleintr_def byte_i32 Let_def)
      moreover have "cons_editor (cons_store (ucast b') ?t) = type_char b (cons_editor s)"
        using cons_store_editor [OF e(2), of "ucast b'" b'] True 3 room
        by (cases "cons_editor s") (auto simp: word_less_nat_alt Let_def e(1) b'_def)
      ultimately show ?thesis by blast
    qed
  qed
qed

text \<open>
  C5: The console's input buffer refines the line editor \<open>type_char\<close>: with the device ready,
  \<^verbatim>\<open>consoleintr\<close> handles every byte but \<^verbatim>\<open>Control-P\<close> without waiting.  Erase and kill
  act on the unfinished line only; a line is handed to the readers, behind those before it, by a
  newline, a carriage return, \<^verbatim>\<open>Control-D\<close> or a full buffer; input that does not fit is
  dropped.  The invariant of the three indices is kept, so the buffer never overruns.
\<close>

theorem console_refines_editor:
  assumes "uart_ready s" and "cons_ok s" and "b \<noteq> 16"
  shows "\<exists>s'. consoleintr (ucast b) s = Ok s' \<and> cons_editor s' = type_char b (cons_editor s) \<and> cons_ok s'"
proof -
  obtain s' where s': "consoleintr (ucast b) s = Ok s'" "cons_editor s' = type_char b (cons_editor s)"
    using consoleintr_editor [OF assms] by blast
  have "cons_ok s'"
    using assms(2) type_char_ok [of "fst (cons_editor s)" "snd (cons_editor s)" b "fst (cons_editor s')" "snd (cons_editor s')"] s'(2)
    by (simp add: cons_ok_def del: type_char.simps)
  then show ?thesis using s' by blast
qed

theorem console_refines_editor_witness:
  "\<exists>s'. consoleintr (ucast (13 :: u8)) console_zero = Ok s' \<and> cons_editor s' = ([10], [])"
proof -
  have "uart_ready console_zero" "cons_editor console_zero = ([], [])"
    by (simp_all add: uart_ready_def zero_simps cons_editor_def ring_list_def)
  then show ?thesis using console_refines_editor [of console_zero 13] by (auto simp: cons_ok_def)
qed

end
