(* ===== verification/Virtq.thy ===== *)
theory Virtq
  imports Virtio Pool
begin

text \<open>
  Correctness of the virtio driver's queue, \<^verbatim>\<open>kernel/virtio_disk.c\<close>: the descriptors are
  conserved, every request in flight has three descriptors of its own, the device finds in them
  the transfer that was asked for, and the interrupt ends exactly the transfers that the device
  has completed.
\<close>

section \<open>Requests in flight\<close>

text \<open>The driver after its initialisation: every descriptor is free.\<close>

definition virtio_booted :: virtio_state where
  "virtio_booted = upd_vd (\<lambda>v. v\<lparr>vd_free := (\<lambda>i. of_bool (i < NUM))\<rparr>) virtio_zero"


text \<open>\<open>Req b write i0 i1 i2\<close>: the transfer of the buffer \<open>b\<close>, with its descriptors in order.\<close>

datatype request = Req nat bool nat nat nat

fun req_buf :: "request \<Rightarrow> nat" where "req_buf (Req b w i0 i1 i2) = b"
fun req_head :: "request \<Rightarrow> nat" where "req_head (Req b w i0 i1 i2) = i0"
fun req_descs :: "request \<Rightarrow> nat set" where "req_descs (Req b w i0 i1 i2) = {i0, i1, i2}"

fun desc_chain :: "vdisk \<Rightarrow> request \<Rightarrow> bool" where
  "desc_chain v (Req b w i0 i1 i2) \<longleftrightarrow> distinct [i0, i1, i2] \<and> {i0, i1, i2} \<subseteq> {..<NUM} \<and>
     vd_desc v i0 = \<lparr>d_addr = Dma_op i0, d_len = 16, d_flags = VRING_DESC_F_NEXT, d_next = of_nat i1\<rparr> \<and>
     vd_desc v i1 = \<lparr>d_addr = Dma_data b, d_len = 1024, d_flags = (if w then 0 else VRING_DESC_F_WRITE) OR VRING_DESC_F_NEXT,
       d_next = of_nat i2\<rparr> \<and>
     vd_desc v i2 = \<lparr>d_addr = Dma_status i0, d_len = 1, d_flags = VRING_DESC_F_WRITE, d_next = 0\<rparr>"

definition chain_ok :: "vdisk \<Rightarrow> request \<Rightarrow> bool" where
  "chain_ok v r \<longleftrightarrow> desc_chain v r \<and> info_b v (req_head r) = Some (req_buf r)"

definition busy_descs :: "vdisk \<Rightarrow> nat set" where
  "busy_descs v = {i. i < NUM \<and> vd_free v i = 0}"

definition vq_inv :: "vdisk \<Rightarrow> request set \<Rightarrow> bool" where
  "vq_inv v R \<longleftrightarrow> (\<forall>r\<in>R. chain_ok v r) \<and> (\<forall>r\<in>R. \<forall>q\<in>R. r \<noteq> q \<longrightarrow> req_descs r \<inter> req_descs q = {}) \<and>
     busy_descs v = \<Union> (req_descs ` R)"

section \<open>The pool of descriptors\<close>

definition desc_alloc :: "'a virtio_state_scheme \<Rightarrow> (nat \<times> 'a virtio_state_scheme) res" where
  "desc_alloc s = (case alloc_desc s of (Some i, s') \<Rightarrow> Ok (i, s') | (None, s') \<Rightarrow> Waits ''desc'')"

definition desc_pool :: "'a virtio_state_scheme \<Rightarrow> nat set \<Rightarrow> bool" where
  "desc_pool s P \<longleftrightarrow> P = {..<NUM} - busy_descs (vd s)"

definition desc_owned :: "'a virtio_state_scheme \<Rightarrow> nat \<Rightarrow> bool" where
  "desc_owned s i \<longleftrightarrow> i \<in> busy_descs (vd s)"

text \<open>What taking and giving back descriptors does to the driver's structure.\<close>

definition taken :: "nat set \<Rightarrow> vdisk \<Rightarrow> vdisk" where
  "taken I v = v\<lparr>vd_free := (\<lambda>i. if i \<in> I then 0 else vd_free v i)\<rparr>"

definition freed :: "nat set \<Rightarrow> vdisk \<Rightarrow> vdisk" where
  "freed I v = v\<lparr>vd_desc := (\<lambda>i. if i \<in> I then \<lparr>d_addr = Dma_null, d_len = 0, d_flags = 0, d_next = 0\<rparr> else vd_desc v i),
     vd_free := (\<lambda>i. if i \<in> I then 1 else vd_free v i)\<rparr>"

lemma busy_bound: "i \<in> busy_descs v \<Longrightarrow> i < NUM" "finite (busy_descs v)" "busy_descs v \<subseteq> {..<NUM}"
  by (auto simp: busy_descs_def)

lemma busy_taken [simp]: "I \<subseteq> {..<NUM} \<Longrightarrow> busy_descs (taken I v) = busy_descs v \<union> I"
  by (auto simp: busy_descs_def taken_def)

lemma busy_freed [simp]: "busy_descs (freed I v) = busy_descs v - I"
  by (auto simp: busy_descs_def freed_def)

lemma freed_freed [simp]: "freed I (freed J v) = freed (I \<union> J) v"
  by (cases v) (simp add: freed_def fun_eq_iff)

lemma taken_taken [simp]: "taken I (taken J v) = taken (I \<union> J) v"
  by (cases v) (simp add: taken_def fun_eq_iff)

lemma freed_single: "freed {i} v = v\<lparr>vd_desc := (vd_desc v)(i := \<lparr>d_addr = Dma_null, d_len = 0, d_flags = 0, d_next = 0\<rparr>),
    vd_free := (vd_free v)(i := 1)\<rparr>"
  by (cases v) (simp add: freed_def fun_eq_iff)

lemma taken_single: "taken {i} v = v\<lparr>vd_free := (vd_free v)(i := 0)\<rparr>"
  by (cases v) (simp add: taken_def fun_eq_iff)

lemma taken_empty [simp]: "taken {} v = v" by (simp add: taken_def)
lemma freed_empty [simp]: "freed {} v = v" by (simp add: freed_def)

text \<open>The parts of the state outside the driver that its operations use.\<close>

definition outside :: "'a virtio_state_scheme \<Rightarrow> 'a virtio_state_scheme \<Rightarrow> bool" where
  "outside s s' \<longleftrightarrow> bufs s' = bufs s \<and> myproc s' = myproc s"

lemma outside_trans [trans]: "outside s1 s2 \<Longrightarrow> outside s2 s3 \<Longrightarrow> outside s1 s3"
  by (simp add: outside_def)

lemma outside_refl [simp]: "outside s s" by (simp add: outside_def)

lemma alloc_desc_free:
  assumes "busy_descs (vd s) \<noteq> {..<NUM}"
  shows "\<exists>i s'. alloc_desc s = (Some i, s') \<and> i < NUM \<and> i \<notin> busy_descs (vd s) \<and> vd s' = taken {i} (vd s) \<and> outside s s'"
proof -
  obtain j where j: "j < NUM" "vd_free (vd s) j \<noteq> 0" using assms by (auto simp: busy_descs_def)
  obtain i where "first_slot (\<lambda>i. vd_free (vd s) i \<noteq> 0) NUM = Some i"
    using j first_slot_None [of "\<lambda>i. vd_free (vd s) i \<noteq> 0" NUM] by (cases "first_slot (\<lambda>i. vd_free (vd s) i \<noteq> 0) NUM") auto
  then show ?thesis
    using first_slot_Some [of "\<lambda>i. vd_free (vd s) i \<noteq> 0" NUM i]
    by (auto simp: alloc_desc_def upd_vd_def taken_single busy_descs_def outside_def myproc_def mycpu_def cpuid_def)
qed

lemma alloc_desc_none:
  assumes "busy_descs (vd s) = {..<NUM}"
  shows "alloc_desc s = (None, s)"
proof -
  have "first_slot (\<lambda>i. vd_free (vd s) i \<noteq> 0) NUM = None" using assms by (auto simp: first_slot_None busy_descs_def)
  then show ?thesis by (simp add: alloc_desc_def)
qed

lemma free_desc_busy:
  assumes "i \<in> busy_descs (vd s)"
  shows "\<exists>s'. free_desc i s = Ok s' \<and> vd s' = freed {i} (vd s) \<and> outside s s'"
  using assms by (auto simp: free_desc_def busy_descs_def freed_single upd_vd_def outside_def wakeup_eq myproc_def mycpu_def cpuid_def)

lemma desc_alloc_laws:
  assumes "desc_pool s P" and "P \<noteq> {}"
  shows "\<exists>i s'. desc_alloc s = Ok (i, s') \<and> i \<in> P \<and> vd s' = taken {i} (vd s) \<and> outside s s'"
proof -
  have "busy_descs (vd s) \<noteq> {..<NUM}" using assms by (auto simp: desc_pool_def)
  then obtain i s' where "alloc_desc s = (Some i, s')" "i < NUM" "i \<notin> busy_descs (vd s)" "vd s' = taken {i} (vd s)" "outside s s'"
    using alloc_desc_free [of s] by blast
  then show ?thesis using assms by (simp add: desc_pool_def desc_alloc_def)
qed

interpretation dp: resource_pool desc_alloc free_desc desc_pool desc_owned
proof
  fix s :: "'a virtio_state_scheme" and P p q s'
  assume P: "desc_pool s P"
  show "\<exists>p s'. desc_alloc s = Ok (p, s') \<and> p \<in> P \<and> desc_pool s' (P - {p}) \<and> desc_owned s' p" if "P \<noteq> {}"
    using desc_alloc_laws [OF P that] P by (fastforce simp: desc_pool_def desc_owned_def)
  show "desc_owned s' q" if "P \<noteq> {}" "desc_alloc s = Ok (p, s')" "desc_owned s q"
    using desc_alloc_laws [OF P that(1)] that(2,3) P by (auto simp: desc_owned_def desc_pool_def)
  show "\<exists>s'. free_desc p s = Ok s' \<and> desc_pool s' (insert p P)" if "desc_owned s p"
    using free_desc_busy [of p s] that P busy_bound(1) [of p "vd s"] by (auto simp: desc_owned_def desc_pool_def)
  show "desc_owned s' q" if "desc_owned s p" "free_desc p s = Ok s'" "desc_owned s q" "q \<noteq> p"
    using free_desc_busy [of p s] that by (auto simp: desc_owned_def)
  show "p \<notin> P" if "desc_owned s p" using that P by (simp add: desc_owned_def desc_pool_def)
qed

lemma free_descs_busy:
  assumes "distinct idx" and "set idx \<subseteq> busy_descs (vd s)"
  shows "\<exists>s'. fold_res free_desc idx s = Ok s' \<and> vd s' = freed (set idx) (vd s) \<and> outside s s'"
  using assms
proof (induction idx arbitrary: s)
  case (Cons i idx)
  obtain s1 where s1: "free_desc i s = Ok s1" "vd s1 = freed {i} (vd s)" "outside s s1" using free_desc_busy [of i s] Cons.prems by auto
  have "set idx \<subseteq> busy_descs (vd s1)" using Cons.prems s1(2) by auto
  then show ?case using Cons.IH [of s1] Cons.prems s1 outside_trans [OF s1(3)] by (auto simp: Un_commute)
qed simp

definition free_count :: "vdisk \<Rightarrow> nat" where
  "free_count v = card ({..<NUM} - busy_descs v)"

lemma free_count_taken:
  assumes "i < NUM" and "i \<notin> busy_descs v"
  shows "free_count (taken {i} v) = free_count v - 1" "0 < free_count v"
proof -
  have e: "{..<NUM} - busy_descs (taken {i} v) = ({..<NUM} - busy_descs v) - {i}" using assms by auto
  show "free_count (taken {i} v) = free_count v - 1" unfolding free_count_def e using assms by simp
  show "0 < free_count v" using assms by (auto simp: free_count_def card_gt_0_iff)
qed

lemma alloc_descs_cases:
  assumes "distinct idx" and "set idx \<subseteq> busy_descs (vd s)"
  shows "\<exists>ps s'. distinct ps \<and> set ps \<subseteq> {..<NUM} - busy_descs (vd s) \<and> outside s s' \<and>
    (if k \<le> free_count (vd s) then alloc_descs k idx s = Ok (Some (idx @ ps), s') \<and> length ps = k \<and> vd s' = taken (set ps) (vd s)
     else alloc_descs k idx s = Ok (None, s') \<and> vd s' = freed (set idx \<union> set ps) (taken (set ps) (vd s)))"
  using assms
proof (induction k arbitrary: idx s)
  case 0
  then show ?case by (auto intro!: exI [of _ "[]"])
next
  case (Suc k)
  show ?case
  proof (cases "busy_descs (vd s) = {..<NUM}")
    case True
    then have "free_count (vd s) = 0" by (simp add: free_count_def)
    moreover obtain s' where "fold_res free_desc idx s = Ok s'" "vd s' = freed (set idx) (vd s)" "outside s s'"
      using free_descs_busy [OF Suc.prems] by blast
    ultimately show ?thesis using alloc_desc_none [OF True] by (auto intro!: exI [of _ "[]"])
  next
    case False
    obtain i s1 where i: "alloc_desc s = (Some i, s1)" "i < NUM" "i \<notin> busy_descs (vd s)" "vd s1 = taken {i} (vd s)" "outside s s1"
      using alloc_desc_free [OF False] by blast
    note c = free_count_taken [OF i(2,3)]
    have "distinct (idx @ [i])" "set (idx @ [i]) \<subseteq> busy_descs (vd s1)" using Suc.prems i by auto
    from Suc.IH [OF this] obtain ps s' where ps: "distinct ps" "set ps \<subseteq> {..<NUM} - busy_descs (vd s1)" "outside s1 s'"
      "if k \<le> free_count (vd s1) then alloc_descs k (idx @ [i]) s1 = Ok (Some ((idx @ [i]) @ ps), s') \<and> length ps = k \<and> vd s' = taken (set ps) (vd s1)
       else alloc_descs k (idx @ [i]) s1 = Ok (None, s') \<and> vd s' = freed (set (idx @ [i]) \<union> set ps) (taken (set ps) (vd s1))" by blast
    have "distinct (i # ps)" "set (i # ps) \<subseteq> {..<NUM} - busy_descs (vd s)" "outside s s'"
      using ps(1,2) i outside_trans [OF i(5) ps(3)] by auto
    moreover have "k \<le> free_count (vd s1) \<longleftrightarrow> Suc k \<le> free_count (vd s)" using c i(4) by auto
    moreover have "set ps \<union> {i} = set (i # ps)" "set (idx @ [i]) \<union> set ps = set idx \<union> set (i # ps)" by auto
    ultimately have "if Suc k \<le> free_count (vd s)
        then alloc_descs (Suc k) idx s = Ok (Some (idx @ i # ps), s') \<and> length (i # ps) = Suc k \<and> vd s' = taken (set (i # ps)) (vd s)
        else alloc_descs (Suc k) idx s = Ok (None, s') \<and> vd s' = freed (set idx \<union> set (i # ps)) (taken (set (i # ps)) (vd s))"
      using ps(4) i(1,4) by (simp del: set_append set_simps split: if_splits)
    then show ?thesis
      using \<open>distinct (i # ps)\<close> \<open>set (i # ps) \<subseteq> {..<NUM} - busy_descs (vd s)\<close> \<open>outside s s'\<close> by blast
  qed
qed

section \<open>Requests\<close>

lemma chain_ok_same:
  assumes "chain_ok v r" and "\<forall>i\<in>req_descs r. vd_desc v' i = vd_desc v i \<and> info_b v' i = info_b v i"
  shows "chain_ok v' r"
  using assms by (cases r) (simp add: chain_ok_def)

lemma chain_ok_descs:
  assumes "chain_ok v r"
  shows "req_descs r \<subseteq> {..<NUM}" "card (req_descs r) = 3" "req_head r \<in> req_descs r"
  using assms by (cases r; auto simp: chain_ok_def)+

text \<open>A free descriptor belongs to no request.\<close>

lemma vq_inv_free:
  assumes "vq_inv v R" and "r \<in> R" and "i \<notin> busy_descs v"
  shows "i \<notin> req_descs r"
  using assms by (auto simp: vq_inv_def)

lemma vq_inv_freed:
  assumes inv: "vq_inv v R" and I: "I \<inter> busy_descs v = {}"
  shows "vq_inv (freed I v) R"
proof -
  have "chain_ok (freed I v) r" if "r \<in> R" for r
  proof (rule chain_ok_same)
    show "chain_ok v r" using inv that by (simp add: vq_inv_def)
    show "\<forall>i\<in>req_descs r. vd_desc (freed I v) i = vd_desc v i \<and> info_b (freed I v) i = info_b v i"
      using inv that I by (auto simp: vq_inv_def freed_def)
  qed
  moreover have "busy_descs (freed I v) = busy_descs v" using I by auto
  ultimately show ?thesis using inv by (simp add: vq_inv_def)
qed

lemma vq_inv_insert:
  assumes inv: "vq_inv v R" and r: "chain_ok v' r" "req_descs r \<inter> busy_descs v = {}"
    and busy: "busy_descs v' = busy_descs v \<union> req_descs r"
    and same: "\<forall>i. i \<notin> req_descs r \<longrightarrow> vd_desc v' i = vd_desc v i \<and> info_b v' i = info_b v i"
  shows "vq_inv v' (insert r R)"
proof -
  have disj: "req_descs q \<inter> req_descs r = {}" if "q \<in> R" for q using inv r(2) that by (auto simp: vq_inv_def)
  have "chain_ok v' q" if "q \<in> R" for q
    using disj [OF that] same inv that by (intro chain_ok_same [of v q v']) (auto simp: vq_inv_def)
  then show ?thesis using inv r busy disj by (auto simp: vq_inv_def)
qed

lemma vq_inv_remove:
  assumes inv: "vq_inv v R" and r: "r \<in> R" and busy: "busy_descs v' = busy_descs v - req_descs r"
    and same: "\<forall>i. i \<notin> req_descs r \<longrightarrow> vd_desc v' i = vd_desc v i \<and> info_b v' i = info_b v i"
  shows "vq_inv v' (R - {r})"
proof -
  have disj: "req_descs q \<inter> req_descs r = {}" if "q \<in> R - {r}" for q using inv r that by (auto simp: vq_inv_def)
  have "chain_ok v' q" if "q \<in> R - {r}" for q
    using disj [OF that] same inv that by (intro chain_ok_same [of v q v']) (auto simp: vq_inv_def)
  moreover have "busy_descs v' = \<Union> (req_descs ` (R - {r}))"
    using inv r disj unfolding busy by (auto simp: vq_inv_def)
  ultimately show ?thesis using inv by (auto simp: vq_inv_def)
qed

text \<open>The request as the device reads it: the header, the buffer and the status byte.\<close>

definition request_block :: "bool \<Rightarrow> u32 \<Rightarrow> virtio_blk_req" where
  "request_block w blockno = \<lparr>rq_type = (if w then VIRTIO_BLK_T_OUT else VIRTIO_BLK_T_IN), rq_reserved = 0, rq_sector = ucast (blockno * 2)\<rparr>"

lemma submit_format:
  fixes s :: "'a virtio_state_scheme"
  assumes d: "distinct [i0, i1, i2]" "{i0, i1, i2} \<subseteq> {..<NUM}" and s': "s' = submit_chain b i0 (format_chain b w i0 i1 i2 s)"
  shows "chain_ok (vd s') (Req b w i0 i1 i2)" "vd_free (vd s') = vd_free (vd s)"
    "\<forall>i. i \<notin> {i0, i1, i2} \<longrightarrow> vd_desc (vd s') i = vd_desc (vd s) i \<and> info_b (vd s') i = info_b (vd s) i"
    "avail_idx (vd s') = avail_idx (vd s) + 1" "avail_ring (vd s') (unat (avail_idx (vd s)) mod NUM) = of_nat i0"
    "vd_ops (vd s') i0 = request_block w (b_blockno (bufs s b))" "info_status (vd s') i0 = 0xff"
    "bufs s' = (bufs s)(b := (bufs s b)\<lparr>b_disk := 1\<rparr>)" "myproc s' = myproc s"
  using d unfolding s'
  by (simp_all add: submit_chain_def format_chain_def set_desc_def upd_vd_def upd_buf_def mmio_write_def Let_def
      request_block_def chain_ok_def myproc_def mycpu_def cpuid_def)

lemma sleep_on_vd:
  assumes "myproc s = Some p"
  shows "\<exists>s'. sleep_on c s = Ok s' \<and> vd s' = vd s \<and> bufs s' = bufs s \<and> myproc s' = myproc s"
  using assms by (auto simp: sleep_on_def upd_proc_def myproc_def mycpu_def cpuid_def)

lemma length_3: "length xs = 3 \<Longrightarrow> \<exists>a b c. xs = [a, b, c]"
  by (auto simp: numeral_3_eq_3 length_Suc_conv)

text \<open>
  C1: \<^verbatim>\<open>virtio_disk_rw\<close> with three descriptors free hands the device a request of its own
  three descriptors, disjoint from those of all requests in flight: the new entry of the
  available ring leads to a header with the block's sector and the direction, the buffer, and a
  status byte that is not yet zero.  With fewer descriptors free it sleeps, and every descriptor
  it had taken is free again.  No other request is touched.
\<close>

theorem virtio_disk_rw_issues:
  assumes inv: "vq_inv (vd s) R" and my: "myproc s = Some p"
  shows "if 3 \<le> free_count (vd s)
    then \<exists>i0 i1 i2 s'. virtio_disk_rw b w s = Ok (Sleep (Rw_done i0) s') \<and> vq_inv (vd s') (insert (Req b w i0 i1 i2) R) \<and>
      {i0, i1, i2} \<inter> \<Union> (req_descs ` R) = {} \<and> avail_idx (vd s') = avail_idx (vd s) + 1 \<and>
      avail_ring (vd s') (unat (avail_idx (vd s)) mod NUM) = of_nat i0 \<and>
      vd_ops (vd s') i0 = request_block w (b_blockno (bufs s b)) \<and> info_status (vd s') i0 = 0xff \<and> b_disk (bufs s' b) = 1
    else \<exists>s'. virtio_disk_rw b w s = Ok (Sleep Rw_alloc s') \<and> vq_inv (vd s') R \<and> free_count (vd s') = free_count (vd s)"
proof -
  obtain ps s1 where ps: "distinct ps" "set ps \<subseteq> {..<NUM} - busy_descs (vd s)" "outside s s1"
    "if 3 \<le> free_count (vd s) then alloc_descs 3 [] s = Ok (Some ([] @ ps), s1) \<and> length ps = 3 \<and> vd s1 = taken (set ps) (vd s)
     else alloc_descs 3 [] s = Ok (None, s1) \<and> vd s1 = freed (set [] \<union> set ps) (taken (set ps) (vd s))"
    using alloc_descs_cases [of "[]" s 3] by auto
  have my1: "myproc s1 = Some p" "bufs s1 = bufs s" using ps(3) my by (simp_all add: outside_def)
  show ?thesis
  proof (cases "3 \<le> free_count (vd s)")
    case True
    then obtain i0 i1 i2 where i: "ps = [i0, i1, i2]" using ps(4) length_3 by fastforce
    have a: "alloc3_desc s = Ok (Some [i0, i1, i2], s1)" "vd s1 = taken {i0, i1, i2} (vd s)"
      using True ps(4) i by (simp_all add: alloc3_desc_def)
    define s2 where "s2 = submit_chain b i0 (format_chain b w i0 i1 i2 s1)"
    have d: "distinct [i0, i1, i2]" "{i0, i1, i2} \<subseteq> {..<NUM}" "{i0, i1, i2} \<inter> busy_descs (vd s) = {}" using ps(1,2) i by auto
    note f = submit_format [OF d(1,2) s2_def]
    obtain s' where s': "sleep_on (Buf_disk b) s2 = Ok s'" "vd s' = vd s2" "bufs s' = bufs s2"
      using sleep_on_vd [of s2 p "Buf_disk b"] f(9) my1 by auto
    have "busy_descs (vd s2) = busy_descs (vd s1)" using f(2) by (simp add: busy_descs_def)
    also have "\<dots> = busy_descs (vd s) \<union> {i0, i1, i2}" unfolding a(2) using d(2) by simp
    finally have "vq_inv (vd s') (insert (Req b w i0 i1 i2) R)"
      unfolding s'(2) using f(1,3) d(3) unfolding a(2) by (intro vq_inv_insert [OF inv]) (auto simp: taken_def)
    moreover have "virtio_disk_rw b w s = Ok (Sleep (Rw_done i0) s')"
      using a s' by (simp add: virtio_disk_rw_def s2_def)
    moreover have "{i0, i1, i2} \<inter> \<Union> (req_descs ` R) = {}" using d(3) inv by (simp add: vq_inv_def)
    moreover have "avail_idx (vd s') = avail_idx (vd s) + 1" "avail_ring (vd s') (unat (avail_idx (vd s)) mod NUM) = of_nat i0"
        "vd_ops (vd s') i0 = request_block w (b_blockno (bufs s b))" "info_status (vd s') i0 = 0xff" "b_disk (bufs s' b) = 1"
      using f(4-8) my1(2) unfolding s' a(2) by (simp_all add: taken_def)
    ultimately show ?thesis unfolding if_P [OF True] by (intro exI conjI)
  next
    case False
    have a: "alloc3_desc s = Ok (None, s1)" "vd s1 = freed (set ps) (vd s)"
      using False ps(4) by (simp_all add: alloc3_desc_def freed_def taken_def cong: if_cong)
    obtain s' where s': "sleep_on Disk_free s1 = Ok s'" "vd s' = vd s1" using sleep_on_vd [OF my1(1), of Disk_free] by auto
    have "set ps \<inter> busy_descs (vd s) = {}" using ps(2) by auto
    then have "vq_inv (vd s1) R" "free_count (vd s1) = free_count (vd s)"
      unfolding a(2) using vq_inv_freed [OF inv] by (auto simp: free_count_def Diff_Int_distrib intro!: arg_cong [of _ _ card])
    then show ?thesis using False a s' by (simp add: virtio_disk_rw_def)
  qed
qed

theorem virtio_disk_rw_issues_witness:
  "\<exists>i0 s'. virtio_disk_rw 7 True (virtio_booted\<lparr>cpus := (\<lambda>_. idle_cpu\<lparr>c_proc := Some 0\<rparr>)\<rparr>) = Ok (Sleep (Rw_done i0) s')"
proof -
  let ?s = "virtio_booted\<lparr>cpus := (\<lambda>_. idle_cpu\<lparr>c_proc := Some 0\<rparr>)\<rparr>"
  have "vq_inv (vd ?s) {}" "free_count (vd ?s) = 8" "myproc ?s = Some 0"
    by (simp_all add: virtio_booted_def vq_inv_def free_count_def busy_descs_def myproc_def mycpu_def cpuid_def upd_vd_def zero_simps)
  then show ?thesis using virtio_disk_rw_issues [of ?s "{}" 0 7 True] by auto
qed

text \<open>One transfer in flight: the buffer 7 is being written.\<close>

definition one_request :: virtio_state where
  "one_request =
     (let s = virtio_booted\<lparr>cpus := (\<lambda>_. idle_cpu\<lparr>c_proc := Some 0\<rparr>)\<rparr>
      in submit_chain 7 0 (format_chain 7 True 0 1 2 (upd_vd (taken {0, 1, 2}) s)))"

lemma one_request_ok:
  "vq_inv (vd one_request) {Req 7 True 0 1 2}" "free_count (vd one_request) = 5" "myproc one_request = Some 0"
proof -
  let ?s = "upd_vd (taken {0, 1, 2}) (virtio_booted\<lparr>cpus := (\<lambda>_. idle_cpu\<lparr>c_proc := Some 0\<rparr>)\<rparr>)"
  have o: "one_request = submit_chain 7 0 (format_chain 7 True 0 1 2 ?s)" by (simp add: one_request_def Let_def)
  have d: "distinct [0::nat, 1, 2]" "{0::nat, 1, 2} \<subseteq> {..<NUM}" by simp_all
  note f = submit_format [OF d o]
  have v: "busy_descs (vd virtio_booted) = {}" by (simp add: busy_descs_def virtio_booted_def upd_vd_def)
  have "busy_descs (vd one_request) = busy_descs (vd ?s)" using f(2) by (simp add: busy_descs_def)
  also have "\<dots> = {0, 1, 2}" using v d(2) by (simp add: upd_vd_def)
  finally have b: "busy_descs (vd one_request) = {0, 1, 2}" .
  then show "vq_inv (vd one_request) {Req 7 True 0 1 2}" using f(1) by (simp add: vq_inv_def)
  show "free_count (vd one_request) = 5" unfolding free_count_def b using d(2) by (simp add: card_Diff_subset)
  show "myproc one_request = Some 0" using f(9) by (simp add: upd_vd_def myproc_def mycpu_def cpuid_def)
qed

section \<open>Completion\<close>

lemma free_chain_request:
  assumes ok: "desc_chain (vd s) (Req b w i0 i1 i2)" and busy: "{i0, i1, i2} \<subseteq> busy_descs (vd s)"
  shows "\<exists>s'. free_chain i0 s = Ok s' \<and> vd s' = freed {i0, i1, i2} (vd s) \<and> outside s s'"
proof -
  have lt: "i1 < NUM" "i2 < NUM" and d: "i0 \<noteq> i1" "i0 \<noteq> i2" "i1 \<noteq> i2" using ok by auto
  have u: "unat (of_nat i1 :: u16) = i1" "unat (of_nat i2 :: u16) = i2"
    using lt by (simp_all add: unsigned_of_nat take_bit_nat_eq_self)
  have fl: "((if w then 0 else VRING_DESC_F_WRITE) OR VRING_DESC_F_NEXT) AND VRING_DESC_F_NEXT \<noteq> 0"
    "VRING_DESC_F_WRITE AND VRING_DESC_F_NEXT = 0" by simp_all
  obtain s1 where s1: "free_desc i0 s = Ok s1" "vd s1 = freed {i0} (vd s)" "outside s s1" using free_desc_busy [of i0 s] busy by auto
  obtain s2 where s2: "free_desc i1 s1 = Ok s2" "vd s2 = freed {i1} (vd s1)" "outside s1 s2"
    using free_desc_busy [of i1 s1] busy d s1(2) by auto
  obtain s3 where s3: "free_desc i2 s2 = Ok s3" "vd s3 = freed {i2} (vd s2)" "outside s2 s3"
    using free_desc_busy [of i2 s2] busy d s1(2) s2(2) by auto
  have k1: "vd_desc (vd s1) i1 = vd_desc (vd s) i1" and k2: "vd_desc (vd s2) i2 = vd_desc (vd s) i2"
    using d s1(2) s2(2) by (simp_all add: freed_def)
  have "free_chain i2 s2 = Ok s3" using s3(1) k2 ok fl(2) by (subst free_chain.simps) (simp add: Let_def)
  then have "free_chain i1 s1 = Ok s3" using s2(1) k1 ok fl(1) u(2) by (subst free_chain.simps) (simp add: Let_def)
  then have "free_chain i0 s = Ok s3" using s1(1) ok u(1) by (subst free_chain.simps) (simp add: Let_def)
  moreover have "vd s3 = freed {i0, i1, i2} (vd s)" unfolding s3(2) s2(2) s1(2) by (simp add: insert_commute)
  ultimately show ?thesis using outside_trans [OF outside_trans [OF s1(3) s2(3)] s3(3)] by blast
qed

text \<open>
  C2: When the transfer of a request is over, \<^verbatim>\<open>virtio_disk_rw\<close> wakes up, frees exactly
  the three descriptors of its chain without a panic and returns; while the transfer goes on it
  sleeps again.  The requests of other processes keep their descriptors.
\<close>

theorem virtio_disk_rw_completes:
  assumes inv: "vq_inv (vd s) R" and r: "Req b w i0 i1 i2 \<in> R" and my: "myproc s = Some p"
  shows "if b_disk (bufs s b) = 1
    then \<exists>s'. virtio_disk_rw_resume b w (Rw_done i0) s = Ok (Sleep (Rw_done i0) s') \<and> vd s' = vd s
    else \<exists>s'. virtio_disk_rw_resume b w (Rw_done i0) s = Ok (Return () s') \<and> vq_inv (vd s') (R - {Req b w i0 i1 i2}) \<and>
      free_count (vd s') = free_count (vd s) + 3"
proof -
  obtain s1 where s1: "sleep_resume s = Ok s1" "vd s1 = vd s" "bufs s1 = bufs s" "myproc s1 = Some p"
    using my by (auto simp: sleep_resume_def upd_proc_def myproc_def mycpu_def cpuid_def)
  show ?thesis
  proof (cases "b_disk (bufs s b) = 1")
    case True
    obtain s2 where "sleep_on (Buf_disk b) s1 = Ok s2" "vd s2 = vd s1" using sleep_on_vd [OF s1(4)] by blast
    then show ?thesis using True s1 by (simp add: virtio_disk_rw_resume_def)
  next
    case False
    let ?r = "Req b w i0 i1 i2"
    define t where "t = upd_vd (\<lambda>v. v\<lparr>info_b := (info_b v)(i0 := None)\<rparr>) s1"
    have ok: "chain_ok (vd s) ?r" using inv r by (auto simp: vq_inv_def)
    have "req_descs ?r \<subseteq> busy_descs (vd s)" using inv r unfolding vq_inv_def by blast
    then have busy: "{i0, i1, i2} \<subseteq> busy_descs (vd s)" by simp
    have t: "vd t = (vd s)\<lparr>info_b := (info_b (vd s))(i0 := None)\<rparr>" by (simp add: t_def upd_vd_def s1(2))
    obtain s' where s': "free_chain i0 t = Ok s'" "vd s' = freed {i0, i1, i2} (vd t)"
      using free_chain_request [of t b w i0 i1 i2] ok busy t by (auto simp: busy_descs_def chain_ok_def)
    have b': "busy_descs (vd s') = busy_descs (vd s) - req_descs ?r" unfolding s'(2) t by (simp add: busy_descs_def freed_def) auto
    have "vq_inv (vd s') (R - {?r})"
      using b' unfolding s'(2) t by (intro vq_inv_remove [OF inv r]) (auto simp: freed_def)
    moreover have "free_count (vd s') = free_count (vd s) + 3"
    proof -
      have "{..<NUM} - busy_descs (vd s') = ({..<NUM} - busy_descs (vd s)) \<union> req_descs ?r"
        unfolding b' using chain_ok_descs(1) [OF ok] by auto
      moreover have "({..<NUM} - busy_descs (vd s)) \<inter> req_descs ?r = {}" "finite (req_descs ?r)" using busy by auto
      ultimately show ?thesis unfolding free_count_def using chain_ok_descs(2) [OF ok] by (simp only: card_Un_disjoint finite_Diff finite_lessThan)
    qed
    moreover have "virtio_disk_rw_resume b w (Rw_done i0) s = Ok (Return () s')"
      using False s1 s' by (simp add: virtio_disk_rw_resume_def t_def)
    ultimately show ?thesis using False by simp
  qed
qed

theorem virtio_disk_rw_completes_witness:
  "\<exists>s'. virtio_disk_rw_resume 7 True (Rw_done 0) (one_request\<lparr>bufs := (bufs one_request)(7 := (bufs one_request 7)\<lparr>b_disk := 0\<rparr>)\<rparr>) =
     Ok (Return () s') \<and> free_count (vd s') = 8"
proof -
  let ?s = "one_request\<lparr>bufs := (bufs one_request)(7 := (bufs one_request 7)\<lparr>b_disk := 0\<rparr>)\<rparr>"
  have "vq_inv (vd ?s) {Req 7 True 0 1 2}" "free_count (vd ?s) = 5" "myproc ?s = Some 0" using one_request_ok by (simp_all add: myproc_def mycpu_def cpuid_def)
  then show ?thesis using virtio_disk_rw_completes [of ?s "{Req 7 True 0 1 2}" 7 True 0 1 2 0] by auto
qed

section \<open>The interrupt\<close>

text \<open>The heads of the \<open>k\<close> next entries of the used ring, and the buffers of their requests.\<close>

definition used_heads :: "vdisk \<Rightarrow> nat \<Rightarrow> nat set" where
  "used_heads v k = (\<lambda>j. unat (used_ring v (unat (vd_used_idx v + of_nat j) mod NUM))) ` {..<k}"

definition used_bufs :: "vdisk \<Rightarrow> nat \<Rightarrow> nat set" where
  "used_bufs v k = {b. \<exists>i\<in>used_heads v k. info_b v i = Some b}"

lemma used_heads_Suc:
  "used_heads v (Suc k) = insert (unat (used_ring v (unat (vd_used_idx v) mod NUM))) (used_heads (v\<lparr>vd_used_idx := vd_used_idx v + 1\<rparr>) k)"
proof -
  have e: "{..<Suc k} = insert 0 (Suc ` {..<k})" by (auto simp: image_iff less_Suc_eq_0_disj)
  show ?thesis unfolding used_heads_def e by (simp add: image_image algebra_simps)
qed

lemma used_bufs_Suc:
  assumes "info_b v (unat (used_ring v (unat (vd_used_idx v) mod NUM))) = Some b"
  shows "used_bufs v (Suc k) = insert b (used_bufs (v\<lparr>vd_used_idx := vd_used_idx v + 1\<rparr>) k)"
  using assms by (auto simp: used_bufs_def used_heads_Suc)

definition awake :: "nat set \<Rightarrow> 'a virtio_state_scheme \<Rightarrow> nat \<Rightarrow> procstate" where
  "awake B s i = (if i < NPROC \<and> Some i \<noteq> myproc s \<and> p_state (ptable s i) = SLEEPING \<and> p_chan (ptable s i) \<in> Buf_disk ` B
     then RUNNABLE else p_state (ptable s i))"

lemma virtio_intr_loop_ends:
  assumes "\<forall>i\<in>used_heads (vd s) k. info_status (vd s) i = 0 \<and> info_b (vd s) i \<noteq> None"
  shows "\<exists>s'. virtio_intr_loop k s = Ok s' \<and> vd s' = (vd s)\<lparr>vd_used_idx := vd_used_idx (vd s) + of_nat k\<rparr> \<and>
    bufs s' = (\<lambda>b. if b \<in> used_bufs (vd s) k then (bufs s b)\<lparr>b_disk := 0\<rparr> else bufs s b) \<and>
    (\<forall>i. p_state (ptable s' i) = awake (used_bufs (vd s) k) s i)"
  using assms
proof (induction k arbitrary: s)
  case 0
  then show ?case by (simp add: used_bufs_def used_heads_def awake_def)
next
  case (Suc k)
  let ?i = "unat (used_ring (vd s) (unat (vd_used_idx (vd s)) mod NUM))"
  have i: "?i \<in> used_heads (vd s) (Suc k)" by (simp add: used_heads_Suc)
  then obtain b where b: "info_b (vd s) ?i = Some b" "info_status (vd s) ?i = 0" using Suc.prems by blast
  define t where "t = upd_vd (\<lambda>v. v\<lparr>vd_used_idx := vd_used_idx v + 1\<rparr>) (wakeup (Buf_disk b) (upd_buf b (\<lambda>x. x\<lparr>b_disk := 0\<rparr>) s))"
  have step: "virtio_intr_loop (Suc k) s = virtio_intr_loop k t" using b by (simp add: t_def Let_def)
  have t: "vd t = (vd s)\<lparr>vd_used_idx := vd_used_idx (vd s) + 1\<rparr>" "bufs t = (bufs s)(b := (bufs s b)\<lparr>b_disk := 0\<rparr>)" "myproc t = myproc s"
      "\<And>i. p_state (ptable t i) = awake {b} s i" "\<And>i. p_chan (ptable t i) = p_chan (ptable s i)"
    by (simp_all add: t_def upd_vd_def upd_buf_def wakeup_eq awake_def myproc_def mycpu_def cpuid_def)
  have "\<forall>i\<in>used_heads (vd t) k. info_status (vd t) i = 0 \<and> info_b (vd t) i \<noteq> None"
    using Suc.prems unfolding t(1) used_heads_Suc by simp
  from Suc.IH [OF this] obtain s' where s': "virtio_intr_loop k t = Ok s'" "vd s' = (vd t)\<lparr>vd_used_idx := vd_used_idx (vd t) + of_nat k\<rparr>"
      "bufs s' = (\<lambda>b. if b \<in> used_bufs (vd t) k then (bufs t b)\<lparr>b_disk := 0\<rparr> else bufs t b)"
      "\<forall>i. p_state (ptable s' i) = awake (used_bufs (vd t) k) t i" by blast
  have u: "used_bufs (vd s) (Suc k) = insert b (used_bufs (vd t) k)" unfolding t(1) by (rule used_bufs_Suc [OF b(1)])
  have "awake (used_bufs (vd t) k) t i = awake (used_bufs (vd s) (Suc k)) s i" for i
    using t(3-5) unfolding u awake_def by auto
  then show ?case using s' t(1,2) unfolding step u by (auto simp: algebra_simps)
qed

text \<open>
  C3: The disk interrupt ends the transfers that the device has entered in the used ring: for
  each new entry, which is the head of a request with status zero, the buffer is given back to
  its process and the process that sleeps for it is made runnable; all other buffers and
  processes are left alone, no descriptor changes, and the driver has then seen every entry.
\<close>

theorem virtio_disk_intr_completes:
  assumes inv: "vq_inv (vd s) R"
    and used: "\<forall>i\<in>used_heads (vd s) (unat (dev_used_idx (vd s) - vd_used_idx (vd s))). i \<in> req_head ` R \<and> info_status (vd s) i = 0"
  shows "\<exists>s' B. virtio_disk_intr isr s = Ok s' \<and> B = req_buf ` {r\<in>R. req_head r \<in> used_heads (vd s) (unat (dev_used_idx (vd s) - vd_used_idx (vd s)))} \<and>
    bufs s' = (\<lambda>b. if b \<in> B then (bufs s b)\<lparr>b_disk := 0\<rparr> else bufs s b) \<and> (\<forall>i. p_state (ptable s' i) = awake B s i) \<and>
    vq_inv (vd s') R \<and> vd_used_idx (vd s') = dev_used_idx (vd s)"
proof -
  define k where "k = unat (dev_used_idx (vd s) - vd_used_idx (vd s))"
  let ?s = "mmio_write 0x064 (isr AND 0x3) s"
  have m: "vd ?s = vd s" "bufs ?s = bufs s" "ptable ?s = ptable s" "myproc ?s = myproc s"
    by (simp_all add: mmio_write_def myproc_def mycpu_def cpuid_def)
  have info: "info_b (vd s) (req_head r) = Some (req_buf r)" if "r \<in> R" for r using inv that by (simp add: vq_inv_def chain_ok_def)
  have "\<forall>i\<in>used_heads (vd ?s) k. info_status (vd ?s) i = 0 \<and> info_b (vd ?s) i \<noteq> None"
    using used info unfolding m k_def by fastforce
  from virtio_intr_loop_ends [OF this] obtain s' where s': "virtio_intr_loop k ?s = Ok s'"
      "vd s' = (vd s)\<lparr>vd_used_idx := vd_used_idx (vd s) + of_nat k\<rparr>"
      "bufs s' = (\<lambda>b. if b \<in> used_bufs (vd s) k then (bufs s b)\<lparr>b_disk := 0\<rparr> else bufs s b)"
      "\<forall>i. p_state (ptable s' i) = awake (used_bufs (vd s) k) ?s i" unfolding m by blast
  have B: "used_bufs (vd s) k = req_buf ` {r\<in>R. req_head r \<in> used_heads (vd s) k}"
    using used info unfolding k_def used_bufs_def by fastforce
  have "chain_ok (vd s') r" if "r \<in> R" for r
  proof (rule chain_ok_same)
    show "chain_ok (vd s) r" using inv that unfolding vq_inv_def by blast
  qed (simp add: s'(2))
  then have "vq_inv (vd s') R" using inv s'(2) by (simp add: vq_inv_def busy_descs_def)
  moreover have "vd_used_idx (vd s') = dev_used_idx (vd s)" unfolding s'(2) by (simp add: k_def)
  moreover have "\<forall>i. p_state (ptable s' i) = awake (used_bufs (vd s) k) s i" using s'(4) by (simp add: awake_def m)
  moreover have "virtio_disk_intr isr s = Ok s'" using s'(1) by (simp add: virtio_disk_intr_def k_def)
  ultimately show ?thesis
    unfolding k_def [symmetric] B [symmetric] using s'(3) by (intro exI [of _ s'] exI [of _ "used_bufs (vd s) k"] conjI refl)
qed

theorem virtio_disk_intr_completes_witness:
  "\<exists>s'. virtio_disk_intr 1 (upd_vd (\<lambda>v. v\<lparr>dev_used_idx := 1, info_status := (\<lambda>_. 0)\<rparr>) one_request) = Ok s' \<and> b_disk (bufs s' 7) = 0"
proof -
  let ?s = "upd_vd (\<lambda>v. v\<lparr>dev_used_idx := 1, info_status := (\<lambda>_. 0)\<rparr>) one_request"
  have u: "vd_used_idx (vd one_request) = 0" "used_ring (vd one_request) 0 = 0"
    by (simp_all add: one_request_def Let_def submit_chain_def format_chain_def set_desc_def upd_vd_def upd_buf_def mmio_write_def
        virtio_booted_def taken_def zero_simps)
  have h: "used_heads (vd ?s) 1 = {0}" using u by (simp add: used_heads_def upd_vd_def lessThan_Suc)
  have k: "unat (dev_used_idx (vd ?s) - vd_used_idx (vd ?s)) = 1" using u by (simp add: upd_vd_def)
  have c: "chain_ok (vd one_request) (Req 7 True 0 1 2)" using one_request_ok(1) by (simp add: vq_inv_def)
  have "chain_ok (vd ?s) (Req 7 True 0 1 2)" using c by (rule chain_ok_same) (simp add: upd_vd_def)
  then have i: "vq_inv (vd ?s) {Req 7 True 0 1 2}" using one_request_ok(1) by (simp add: vq_inv_def upd_vd_def busy_descs_def)
  have "\<forall>i\<in>used_heads (vd ?s) (unat (dev_used_idx (vd ?s) - vd_used_idx (vd ?s))). i \<in> req_head ` {Req 7 True 0 1 2} \<and> info_status (vd ?s) i = 0"
    unfolding k h by (simp add: upd_vd_def)
  from virtio_disk_intr_completes [OF i this, of 1] obtain s' B where
    s': "virtio_disk_intr 1 ?s = Ok s'" "B = req_buf ` {r \<in> {Req 7 True 0 1 2}. req_head r \<in> {0}}"
      "bufs s' = (\<lambda>b. if b \<in> B then (bufs ?s b)\<lparr>b_disk := 0\<rparr> else bufs ?s b)" unfolding k h by blast
  have "Req 7 True 0 1 2 \<in> {r \<in> {Req 7 True 0 1 2}. req_head r \<in> {0}}" by simp
  then have "7 \<in> B" unfolding s'(2) by (rule image_eqI [rotated]) simp
  then show ?thesis using s'(1,3) by simp
qed

end
