(* ===== verification/Spec2Isabelle.thy ===== *)
theory Spec2Isabelle
  imports Asm Boot Cpus Fstx Paths Tty Virtq
begin

text \<open>
  This library verifies \<^emph>\<open>novice\_kernel\<close>, a small Unix-like operating system for RISC-V in C
  and assembly.  The kernel (\<^verbatim>\<open>src/kernel\<close>) starts in \<^verbatim>\<open>entry.S\<close> and \<^verbatim>\<open>start.c\<close> in machine
  mode and in \<^verbatim>\<open>main.c\<close> in supervisor mode, which initialises the components and enters the
  scheduler.  From then on it is entered by traps (\<^verbatim>\<open>trampoline.S\<close>, \<^verbatim>\<open>kernelvec.S\<close>,
  \<^verbatim>\<open>trap.c\<close>): system calls go through \<^verbatim>\<open>syscall.c\<close> to \<^verbatim>\<open>sysfile.c\<close>, \<^verbatim>\<open>sysproc.c\<close> and
  \<^verbatim>\<open>syscallv2.c\<close>; page faults to the lazy allocator of \<^verbatim>\<open>trap\_handler.c\<close>; device interrupts
  to the UART, the disk and the timer.  Below the calls are processes and the scheduler
  (\<^verbatim>\<open>proc.c\<close>, \<^verbatim>\<open>swtch.S\<close>), virtual memory (\<^verbatim>\<open>vm.c\<close>) over the page allocator
  (\<^verbatim>\<open>kalloc.c\<close>), and the file system in layers: \<^verbatim>\<open>file.c\<close> and \<^verbatim>\<open>pipe.c\<close>; \<^verbatim>\<open>fs.c\<close>;
  \<^verbatim>\<open>log.c\<close>; \<^verbatim>\<open>bio.c\<close>; \<^verbatim>\<open>virtio\_disk.c\<close>.

  \<^bold>\<open>How code is modelled.\<close>  A kernel function is a HOL function over an explicit state, an
  extensible record that grows with the components: \<open>kmem_state\<close> (RAM, free list, reference
  counts), \<open>kernel_state\<close> (processes, CPUs, ticks), \<open>uart_state\<close>, \<open>console_state\<close>,
  \<open>bio_state\<close>, \<open>virtio_state\<close>, \<open>log_state\<close>, \<open>fs_state\<close>, \<open>file_state\<close>, \<open>trap_state\<close>,
  \<open>boot_state\<close>.  C integers are words of their width; RAM is a function from addresses to
  bytes, and page tables, the free list's links, trapframes and user memory are in it.  The
  result type \<open>res\<close> has \<open>Ok\<close> for a return, \<open>Panic\<close> for \<^verbatim>\<open>panic\<close> and for a dereference of a
  null pointer (which the kernel's trap handler turns into a panic), and \<open>Waits\<close> for a loop that
  waits for an event which the calling CPU cannot bring about itself.  Operations that
  sleep return a \<open>turn\<close>: what the code does until it returns or sleeps, with its local
  variables, so that other processes' operations can come in between.  A critical section of
  a spin lock is one step; where that is not enough the steps are separate definitions
  (\<open>kfree_dec\<close>, \<open>kfree_put\<close>).  A context switch splits an operation into the part before and
  the part after it.  Devices are the log of what the driver writes to them and arguments or
  sequences for what they answer.
\<close>

section \<open>The theories\<close>

text \<open>
  \<^bold>\<open>Foundations.\<close>
  \<^item> \<open>KPrelude\<close>: the integer types of \<^verbatim>\<open>types.h\<close>, \<open>res\<close> and its combinators, byte arrays, RAM
    accesses, and the collections and lemmas that the other theories share.
  \<^item> \<open>Kstring\<close> (\<^verbatim>\<open>string.c\<close>): every routine; \<^verbatim>\<open>memmove\<close> copies also between overlapping
    ranges, and \<^verbatim>\<open>safestrcpy\<close> terminates its result.
  \<^item> \<open>Pool\<close> and \<open>Ring\<close>: the interfaces of an allocator and of a bounded queue as locales, with
    their clients' lemmas; interpreted on the page allocator, on pipes and on the UART's buffer.

  \<^bold>\<open>Memory.\<close>
  \<^item> \<open>Kalloc\<close> (\<^verbatim>\<open>kalloc.c\<close>): the free list in RAM with reference counts.  \<^verbatim>\<open>kinit\<close> frees
    every page once, \<^verbatim>\<open>kalloc\<close> returns a page that was free, pages handed out are
    distinct, and \<^verbatim>\<open>kfree\<close> returns a page exactly with its last reference.  The release of the
    lock between the two halves of \<^verbatim>\<open>kfree\<close> lets two CPUs link a page twice
    (\<open>kfree_race_links_twice\<close>).
  \<^item> \<open>Kstate\<close> (\<^verbatim>\<open>proc.h\<close>) and \<open>Vm\<close> (\<^verbatim>\<open>vm.c\<close>): the structures, and every operation on
    three-level page tables.  \<open>Pagetable\<close> develops page tables in RAM (nodes, slots,
    well-formedness), \<open>Addrspace\<close> proves \<^verbatim>\<open>mappages\<close> and \<^verbatim>\<open>uvmunmap\<close> to be updates of the map
    from virtual pages to entries, and \<open>Copyuser\<close> proves that what \<^verbatim>\<open>copyout\<close> stores
    is what \<^verbatim>\<open>copyin\<close> loads.

  \<^bold>\<open>Processes.\<close>
  \<^item> \<open>Spinlock\<close> (\<^verbatim>\<open>spinlock.c\<close>): nesting of \<^verbatim>\<open>push\_off\<close> and \<^verbatim>\<open>pop\_off\<close>, and mutual
    exclusion of any number of CPUs by an inductive step relation.  \<open>Sleeplock\<close>
    (\<^verbatim>\<open>sleeplock.c\<close>).
  \<^item> \<open>Sched\<close> and \<open>Proc\<close> (\<^verbatim>\<open>proc.c\<close>): the scheduler, sleep and wakeup, and the life of a process.
  \<^item> \<open>Asm\<close> (\<^verbatim>\<open>swtch.S\<close>, \<^verbatim>\<open>trampoline.S\<close>, \<^verbatim>\<open>kernelvec.S\<close>, \<^verbatim>\<open>entry.S\<close>): the programs as
    instruction lists and an interpreter; \<^verbatim>\<open>swtch\<close> refines the switch that \<open>Sched\<close> uses, a
    trap to the kernel and back restores every user register, and the kernel's own trap entry is
    transparent.

  \<^bold>\<open>Devices.\<close>
  \<^item> \<open>Uart\<close>, \<open>Printf\<close>, \<open>Console\<close> (\<^verbatim>\<open>uart.c\<close>, \<^verbatim>\<open>printf.c\<close>, \<^verbatim>\<open>console.c\<close>) with the proofs in
    \<open>Numfmt\<close> (printed digits denote the number and stay inside their buffer).
  \<^item> \<open>Virtio\<close> (\<^verbatim>\<open>virtio\_disk.c\<close>): descriptors and rings, and the hand-over between the
    process and the interrupt.

  \<^bold>\<open>File system.\<close>
  \<^item> \<open>Bio\<close> (\<^verbatim>\<open>bio.c\<close>) with \<open>Bcache\<close>: the links form the list of buffers in order of use, and
    \<^verbatim>\<open>bread\<close> returns the block's current contents.
  \<^item> \<open>Log\<close> (\<^verbatim>\<open>log.c\<close>) with \<open>Logcrash\<close>: whatever the disk write after which the machine stops,
    recovery leaves all or none of a transaction's writes.
  \<^item> \<open>Fs\<close>, \<open>Dir\<close> (\<^verbatim>\<open>fs.c\<close>): inodes with doubly indirect blocks, directories and path names;
    \<open>Paths\<close> proves \<^verbatim>\<open>skipelem\<close> equal to splitting at the slashes.
  \<^item> \<open>Pipe\<close>, \<open>File\<close> (\<^verbatim>\<open>pipe.c\<close>, \<^verbatim>\<open>file.c\<close>): a pipe refines a queue of at most 512 bytes.

  \<^bold>\<open>System calls and traps.\<close>
  \<^item> \<open>Sysargs\<close>, \<open>Syscall\<close> (\<^verbatim>\<open>syscall.c\<close>), \<open>Sysfile\<close> (\<^verbatim>\<open>sysfile.c\<close>), \<open>Sysproc\<close>
    (\<^verbatim>\<open>sysproc.c\<close>, \<^verbatim>\<open>syscallv2.c\<close>), \<open>Exec\<close> (\<^verbatim>\<open>exec.c\<close>), \<open>Trap\<close> (\<^verbatim>\<open>trap.c\<close>,
    \<^verbatim>\<open>trap\_handler.c\<close>, \<^verbatim>\<open>plic.c\<close>), \<open>Boot\<close> (\<^verbatim>\<open>start.c\<close>, \<^verbatim>\<open>main.c\<close>).
\<close>

section \<open>Loops and bounds\<close>

text \<open>
  Every function of the model is total.  Loops over a range recurse on the number of rounds
  left, loops that stride through addresses or blocks have a \<^theory_text>\<open>termination\<close> proof.  Where the C
  loop's bound is implicit the number of rounds is passed explicitly, and is enough: an index
  distance of a ring buffer (\<open>uartstart_loop\<close>, \<open>kill_line\<close>), the number of bytes waiting
  (\<open>uartintr_loop\<close>), \<^verbatim>\<open>NBUF\<close> steps along the buffer list, which closes after \<^verbatim>\<open>NBUF\<close>
  buffers (\<open>lru_ok\<close>).  A loop that waits for another party, as for a lock, a buffer to drain or
  an idle device, is the value \<open>Waits\<close> or a \<open>Sleep\<close> turn, never silently left out.
\<close>

section \<open>Not modelled\<close>

text \<open>
  \<^item> \<^verbatim>\<open>ramdisk.c\<close>: no build target links it.  \<^verbatim>\<open>backtrace\<close> of \<^verbatim>\<open>printf.c\<close>: it follows the
    frame pointers of compiled C code, which the model does not have.
  \<^item> The accessors of control registers in \<^verbatim>\<open>riscv.h\<close> are fields of the state or arguments;
    \<^verbatim>\<open>sfence\_vma\<close> and \<^verbatim>\<open>fence\<close> have no effect in a model with one order of memory accesses.
  \<^item> \<^verbatim>\<open>defs.h\<close> and the other headers of prototypes declare what the other files define.
  \<^item> Test programs (\<^verbatim>\<open>usertests.c\<close>, \<^verbatim>\<open>grind.c\<close>, \<^verbatim>\<open>finaltest.c\<close>, \<^verbatim>\<open>cowtest.c\<close>,
    \<^verbatim>\<open>forktest.c\<close>, \<^verbatim>\<open>lazytest.c\<close>, \<^verbatim>\<open>stressfs.c\<close>, \<^verbatim>\<open>symlinktest.c\<close>, \<^verbatim>\<open>traptest.c\<close>,
    \<^verbatim>\<open>bigfile.c\<close>, \<^verbatim>\<open>zombie.c\<close>): they exercise the kernel and promise nothing themselves.
  \<^item> \<^verbatim>\<open>usys.S\<close> and \<^verbatim>\<open>initcode\<close> are generated by the build.
\<close>

end
